(* ===== verification/Codec.thy ===== *)
theory Codec
  imports Prelude
begin

section \<open>Codec: the packets and library values the client exchanges\<close>

text \<open>
  The types of \<^verbatim>\<open>mqtt_codec_kit\<close> that \<^verbatim>\<open>src/src\<close> names, with the constructors the source
  matches on, and \<^verbatim>\<open>src/src/message.rs\<close>. The library's functions are not under src/: they are
  the fields of the record \<open>libs\<close>, an argument \<open>K\<close> of every definition that calls one, and
  \<open>codec_laws\<close> and \<open>cache_laws\<close> state their documented behaviour.
\<close>

subsection \<open>Types shared with the codec\<close>

datatype quality_of_service = Level0 | Level1 | Level2

datatype qos_with_packet_identifier = QLevel0 | QLevel1 u16 | QLevel2 u16

text \<open>
  \<open>ConnectReturnCode\<close>: the source tells \<open>ConnectionAccepted\<close> from every other code and reads
  the latter through \<open>to_u8\<close>; \<open>RefusedCode n\<close> is the code whose \<open>to_u8\<close> is \<open>n\<close>.
\<close>

datatype connect_return_code = ConnectionAccepted | RefusedCode u8

datatype subscribe_return_code = MaximumQoS quality_of_service | Failure

record publish_packet =
  pp_topic_name :: string
  pp_qos :: qos_with_packet_identifier
  pp_payload :: "u8 list"
  pp_dup :: bool
  pp_retain :: bool

text \<open>
  A \<open>ConnectPacket\<close> is opaque to the client, which only calls its setters: the model keeps the
  calls in their order.
\<close>

datatype connect_call =
    NewConnect string
  | SetCleanSession bool
  | SetKeepAlive u16
  | SetWillQos u8
  | SetWillRetain bool
  | SetWill string "u8 list"
  | SetUsername string
  | SetPassword string

datatype variable_packet =
    ConnectPacket "connect_call list"
  | ConnackPacket connect_return_code bool
  | PublishPacket publish_packet
  | PubackPacket u16
  | PubrecPacket u16
  | PubrelPacket u16
  | PubcompPacket u16
  | SubscribePacket u16 "(string \<times> quality_of_service) list"
  | SubackPacket u16 "subscribe_return_code list"
  | UnsubscribePacket u16 "string list"
  | UnsubackPacket u16
  | PingreqPacket
  | PingrespPacket
  | DisconnectPacket

subsection \<open>Library functions as parameters\<close>

text \<open>
  \<open>topic_name_new\<close> and \<open>topic_filter_new\<close> are \<open>TopicName::new\<close> and \<open>TopicFilter::new\<close> (the
  text of the value, \<open>None\<close> for \<open>Err\<close>), \<open>qos_split\<close> is \<open>QoSWithPacketIdentifier::split\<close>,
  \<open>last_will_new\<close> is \<open>LastWill::new\<close>. \<open>overflow_checks\<close> is the build profile's flag of that name. The \<open>cache\<close> fields are the \<open>moka\<close> cache;
  \<open>cache_view\<close> is what it holds, which only statements use.
\<close>

record 'c libs =
  overflow_checks :: bool
  topic_name_new :: "string \<Rightarrow> string option"
  topic_filter_new :: "string \<Rightarrow> string option"
  qos_split :: "qos_with_packet_identifier \<Rightarrow> quality_of_service \<times> u16 option"
  last_will_new :: "string \<Rightarrow> u8 list \<Rightarrow> (string \<times> u8 list) option"
  cache_new :: 'c
  cache_insert :: "u16 \<Rightarrow> publish_packet \<Rightarrow> 'c \<Rightarrow> 'c"
  cache_remove :: "u16 \<Rightarrow> 'c \<Rightarrow> publish_packet option \<times> 'c"
  cache_view :: "'c \<Rightarrow> u16 \<Rightarrow> publish_packet option"

text \<open>\<open>split\<close> returns the level and the identifier, which levels 1 and 2 carry.\<close>

definition codec_laws :: "'c libs \<Rightarrow> bool" where
  "codec_laws K \<longleftrightarrow>
     qos_split K QLevel0 = (Level0, None) \<and>
     (\<forall>p. qos_split K (QLevel1 p) = (Level1, Some p)) \<and>
     (\<forall>p. qos_split K (QLevel2 p) = (Level2, Some p))"

text \<open>
  The cache is bounded and expiring: an operation may drop other entries, but never invents
  one, and \<open>remove\<close> returns what the cache holds and leaves the key absent.
\<close>

definition cache_laws :: "'c libs \<Rightarrow> bool" where
  "cache_laws K \<longleftrightarrow>
     cache_view K (cache_new K) = Map.empty \<and>
     (\<forall>k p c. cache_view K (cache_insert K k p c) \<subseteq>\<^sub>m (cache_view K c)(k \<mapsto> p)) \<and>
     (\<forall>k c. fst (cache_remove K k c) = cache_view K c k) \<and>
     (\<forall>k c. cache_view K (snd (cache_remove K k c)) \<subseteq>\<^sub>m (cache_view K c)(k := None))"

lemma codec_laws_split:
  assumes "codec_laws K"
  shows "qos_split K QLevel0 = (Level0, None)"
    and "qos_split K (QLevel1 p) = (Level1, Some p)"
    and "qos_split K (QLevel2 p) = (Level2, Some p)"
  using assms by (simp_all add: codec_laws_def)

lemma cache_remove_fst: "cache_laws K \<Longrightarrow> fst (cache_remove K k c) = cache_view K c k"
  by (simp add: cache_laws_def)

lemma map_le_drop: "m \<subseteq>\<^sub>m m'(k := None) \<Longrightarrow> m k = None"
  by (auto simp: map_le_def dom_def)

lemma map_le_SomeD: "m \<subseteq>\<^sub>m m' \<Longrightarrow> m k = Some v \<Longrightarrow> m' k = Some v"
  by (auto simp: map_le_def dom_def)

lemma cache_remove_absent:
  "cache_laws K \<Longrightarrow> cache_view K (snd (cache_remove K k c)) k = None"
  by (rule map_le_drop[of _ "cache_view K c"]) (simp add: cache_laws_def)

lemma cache_remove_other:
  assumes "cache_laws K" and "cache_view K (snd (cache_remove K k c)) j = Some p"
  shows "j \<noteq> k \<and> cache_view K c j = Some p"
proof -
  have "cache_view K (snd (cache_remove K k c)) \<subseteq>\<^sub>m (cache_view K c)(k := None)"
    using assms(1) by (simp add: cache_laws_def)
  from map_le_SomeD[OF this assms(2)] show ?thesis
    by (auto split: if_splits)
qed

lemma cache_insert_cases:
  assumes "cache_laws K" and "cache_view K (cache_insert K k p c) j = Some q"
  shows "j = k \<and> q = p \<or> j \<noteq> k \<and> cache_view K c j = Some q"
proof -
  have "cache_view K (cache_insert K k p c) \<subseteq>\<^sub>m (cache_view K c)(k \<mapsto> p)"
    using assms(1) by (simp add: cache_laws_def)
  from map_le_SomeD[OF this assms(2)] show ?thesis
    by (auto split: if_splits)
qed

subsection \<open>A concrete instance, for the witnesses\<close>

text \<open>
  The codec's documented validity rules and an unbounded cache that forgets nothing, as a map.
\<close>

definition sample_libs :: "(u16 \<Rightarrow> publish_packet option) libs" where
  "sample_libs = \<lparr>
     overflow_checks = False,
     topic_name_new = (\<lambda>s. if s = [] \<or> CHR ''#'' \<in> set s \<or> CHR ''+'' \<in> set s then None else Some s),
     topic_filter_new = (\<lambda>s. if s = [] then None else Some s),
     qos_split = (\<lambda>q. case q of QLevel0 \<Rightarrow> (Level0, None)
        | QLevel1 p \<Rightarrow> (Level1, Some p) | QLevel2 p \<Rightarrow> (Level2, Some p)),
     last_will_new = (\<lambda>t m. if t = [] then None else Some (t, m)),
     cache_new = Map.empty,
     cache_insert = (\<lambda>k p c. c(k \<mapsto> p)),
     cache_remove = (\<lambda>k c. (c k, c(k := None))),
     cache_view = (\<lambda>c. c)\<rparr>"

lemma sample_libs_codec: "codec_laws sample_libs"
  by (simp add: codec_laws_def sample_libs_def)

lemma sample_libs_cache: "cache_laws sample_libs"
  by (simp add: cache_laws_def sample_libs_def)

subsection \<open>message.rs\<close>

record message =
  msg_topic :: string
  msg_payload :: "u8 list"
  msg_qos :: quality_of_service
  msg_packet_id :: "u16 option"
  msg_dup :: bool
  msg_retain :: bool

definition message_from :: "'c libs \<Rightarrow> publish_packet \<Rightarrow> message" where
  "message_from K packet =
     (let (qos, packet_id) = qos_split K (pp_qos packet) in
      \<lparr>msg_topic = pp_topic_name packet, msg_payload = pp_payload packet, msg_qos = qos,
       msg_packet_id = packet_id, msg_dup = pp_dup packet, msg_retain = pp_retain packet\<rparr>)"

lemma message_from_fields [simp]:
  "msg_topic (message_from K p) = pp_topic_name p"
  "msg_payload (message_from K p) = pp_payload p"
  "msg_qos (message_from K p) = fst (qos_split K (pp_qos p))"
  "msg_packet_id (message_from K p) = snd (qos_split K (pp_qos p))"
  "msg_dup (message_from K p) = pp_dup p"
  "msg_retain (message_from K p) = pp_retain p"
  by (simp_all add: message_from_def split_beta)

text \<open>The accessors.\<close>

definition message_topic :: "message \<Rightarrow> string" where
  [simp]: "message_topic m = msg_topic m"

definition message_payload :: "message \<Rightarrow> u8 list" where
  [simp]: "message_payload m = msg_payload m"

definition message_qos :: "message \<Rightarrow> quality_of_service" where
  [simp]: "message_qos m = msg_qos m"

definition message_packet_id :: "message \<Rightarrow> u16 option" where
  [simp]: "message_packet_id m = msg_packet_id m"

definition message_dup :: "message \<Rightarrow> bool" where
  [simp]: "message_dup m = msg_dup m"

definition message_retain :: "message \<Rightarrow> bool" where
  [simp]: "message_retain m = msg_retain m"

end
