(* ===== verification/Topic_Store.thy ===== *)
theory Topic_Store
  imports Codec
begin

section \<open>Topic store: subscriptions and the contract of the trait\<close>

text \<open>
  \<^verbatim>\<open>src/src/topic_store.rs\<close>: the \<open>Subscription\<close> struct and the \<open>TopicStore\<close> trait. The trait is
  the locale \<open>topic_store\<close>: its four operations are the parameters, and its laws are stated through
  \<open>subs_at\<close>, the list of subscriptions stored under each filter. What a lookup has to return is the
  reference function \<open>candidate_filters\<close>: the filters that match a topic, in the order in which
  the client visits them.
\<close>

text \<open>A handler is a function pointer of type \<open>fn(&Message)\<close>: the model keeps its address.\<close>

type_synonym handler = nat

record subscription =
  sub_topic :: string
  sub_qos :: quality_of_service
  sub_handler :: handler

definition subscription_new :: "string \<Rightarrow> quality_of_service \<Rightarrow> handler \<Rightarrow> subscription" where
  "subscription_new t q f = \<lparr>sub_topic = t, sub_qos = q, sub_handler = f\<rparr>"

lemma subscription_new_sel [simp]:
  "sub_topic (subscription_new t q f) = t"
  "sub_qos (subscription_new t q f) = q"
  "sub_handler (subscription_new t q f) = f"
  by (simp_all add: subscription_new_def)

subsection \<open>Which filters match a topic\<close>

abbreviation plus_token :: string where "plus_token \<equiv> ''+''"
abbreviation hash_token :: string where "hash_token \<equiv> ''#''"

fun filter_matches :: "string list \<Rightarrow> string list \<Rightarrow> bool" where
  "filter_matches [] [] = True"
| "filter_matches [] (t # ts) = False"
| "filter_matches (f # fs) [] = False"
| "filter_matches (f # fs) (t # ts) =
     (f = hash_token \<and> fs = [] \<or> (f = t \<or> f = plus_token) \<and> filter_matches fs ts)"

text \<open>
  The rule of the MQTT 3.1.1 specification (4.7.1.2): \<open>#\<close> also matches the parent level.
\<close>

fun mqtt_matches :: "string list \<Rightarrow> string list \<Rightarrow> bool" where
  "mqtt_matches [] [] = True"
| "mqtt_matches [] (t # ts) = False"
| "mqtt_matches (f # fs) [] = (f = hash_token \<and> fs = [])"
| "mqtt_matches (f # fs) (t # ts) =
     (f = hash_token \<and> fs = [] \<or> (f = t \<or> f = plus_token) \<and> mqtt_matches fs ts)"

fun candidate_filters :: "string list \<Rightarrow> string list list" where
  "candidate_filters [] = [[]]"
| "candidate_filters (t # ts) =
     map ((#) t) (candidate_filters ts) @ map ((#) plus_token) (candidate_filters ts) @
     [[hash_token]]"

lemma candidate_filters_iff: "f \<in> set (candidate_filters ts) \<longleftrightarrow> filter_matches f ts"
proof (induction ts arbitrary: f)
  case Nil
  then show ?case by (cases f) auto
next
  case (Cons t ts)
  then show ?case by (cases f) auto
qed

definition wildcard_free :: "string list \<Rightarrow> bool" where
  "wildcard_free ts \<longleftrightarrow> plus_token \<notin> set ts \<and> hash_token \<notin> set ts"

text \<open>On a topic name (no wildcard level) each matching filter is visited once.\<close>

lemma candidate_filters_distinct: "wildcard_free ts \<Longrightarrow> distinct (candidate_filters ts)"
proof (induction ts)
  case (Cons t ts)
  then show ?case
    by (auto simp: wildcard_free_def distinct_map inj_on_def)
qed simp

lemma wildcard_free_self: "filter_matches ts ts"
  by (induction ts) auto

lemma filter_matches_exact: "wildcard_free f \<Longrightarrow> filter_matches f ts \<longleftrightarrow> f = ts"
  by (induction f ts rule: filter_matches.induct) (auto simp: wildcard_free_def)

text \<open>Where the two rules differ: exactly on the parent level of a multi-level wildcard.\<close>

lemma mqtt_matches_no_hash:
  "hash_token \<notin> set f \<Longrightarrow> mqtt_matches f ts \<longleftrightarrow> filter_matches f ts"
  by (induction f ts rule: filter_matches.induct) auto

lemma filter_matches_nonempty: "filter_matches (g @ [hash_token]) [] = False"
  by (cases g) auto

lemma mqtt_matches_hash:
  "hash_token \<notin> set g \<Longrightarrow>
     mqtt_matches (g @ [hash_token]) ts \<longleftrightarrow> filter_matches (g @ [hash_token]) ts \<or> filter_matches g ts"
proof (induction g ts rule: filter_matches.induct)
  case (4 f fs t ts)
  then show ?case by (cases "f = t \<or> f = plus_token") auto
qed (auto simp: filter_matches_nonempty)

subsection \<open>The trait as a locale\<close>

locale topic_store =
  fixes new_store :: 's
    and add_subscription :: "subscription \<Rightarrow> string list \<Rightarrow> 's \<Rightarrow> 's"
    and remove_subscription :: "string list \<Rightarrow> 's \<Rightarrow> bool \<times> 's"
    and get_match_subscriptions :: "string list \<Rightarrow> 's \<Rightarrow> subscription list"
    and clear_subscriptions :: "'s \<Rightarrow> 's"
    and subs_at :: "'s \<Rightarrow> string list \<Rightarrow> subscription list"
    and invar :: "'s \<Rightarrow> bool"
  assumes invar_new: "invar new_store"
    and invar_add: "invar s \<Longrightarrow> invar (add_subscription x p s)"
    and invar_remove: "invar s \<Longrightarrow> invar (snd (remove_subscription p s))"
    and invar_clear: "invar s \<Longrightarrow> invar (clear_subscriptions s)"
    and at_new: "subs_at new_store q = []"
    and at_add: "invar s \<Longrightarrow>
      subs_at (add_subscription x p s) q = (if q = p then subs_at s q @ [x] else subs_at s q)"
    and at_remove: "invar s \<Longrightarrow>
      subs_at (snd (remove_subscription p s)) q = (if q = p then [] else subs_at s q)"
    and remove_False: "invar s \<Longrightarrow> \<not> fst (remove_subscription p s) \<Longrightarrow>
      subs_at s p = [] \<and> snd (remove_subscription p s) = s"
    and at_clear: "invar s \<Longrightarrow> subs_at (clear_subscriptions s) q = []"
    and get_match: "invar s \<Longrightarrow>
      get_match_subscriptions ts s = concat (map (subs_at s) (candidate_filters ts))"
begin

lemma match_iff:
  "invar s \<Longrightarrow> x \<in> set (get_match_subscriptions ts s) \<longleftrightarrow>
     (\<exists>f. filter_matches f ts \<and> x \<in> set (subs_at s f))"
  by (auto simp: get_match candidate_filters_iff)

lemma match_new: "get_match_subscriptions ts new_store = []"
  using get_match[OF invar_new] by (simp add: at_new)

lemma match_clear: "invar s \<Longrightarrow> get_match_subscriptions ts (clear_subscriptions s) = []"
  by (simp add: get_match[OF invar_clear] at_clear)

lemma in_set_add:
  "invar s \<Longrightarrow> y \<in> set (subs_at (add_subscription x p s) f) \<longleftrightarrow>
     y \<in> set (subs_at s f) \<or> f = p \<and> y = x"
  by (auto simp: at_add)

lemma in_set_remove:
  "invar s \<Longrightarrow> y \<in> set (subs_at (snd (remove_subscription p s)) f) \<longleftrightarrow>
     f \<noteq> p \<and> y \<in> set (subs_at s f)"
  by (simp add: at_remove)

lemma match_add_iff:
  "invar s \<Longrightarrow> y \<in> set (get_match_subscriptions ts (add_subscription x p s)) \<longleftrightarrow>
     y \<in> set (get_match_subscriptions ts s) \<or> y = x \<and> filter_matches p ts"
  unfolding match_iff[OF invar_add] match_iff by (simp only: in_set_add) blast

lemma match_remove_iff:
  "invar s \<Longrightarrow> y \<in> set (get_match_subscriptions ts (snd (remove_subscription p s))) \<longleftrightarrow>
     (\<exists>f. f \<noteq> p \<and> filter_matches f ts \<and> y \<in> set (subs_at s f))"
  unfolding match_iff[OF invar_remove] by (simp only: in_set_remove) blast

lemma count_add_aux:
  "distinct fs \<Longrightarrow> invar s \<Longrightarrow>
     count_list (concat (map (subs_at (add_subscription x p s)) fs)) y =
     count_list (concat (map (subs_at s) fs)) y + (if p \<in> set fs \<and> x = y then 1 else 0)"
  by (induction fs) (auto simp: at_add)

lemma match_add_count:
  assumes "invar s" and "wildcard_free ts"
  shows "count_list (get_match_subscriptions ts (add_subscription x p s)) y =
    count_list (get_match_subscriptions ts s) y + (if filter_matches p ts \<and> x = y then 1 else 0)"
  using count_add_aux[OF candidate_filters_distinct[OF assms(2)] assms(1)] assms(1)
  by (simp add: get_match invar_add candidate_filters_iff)

end

end
