(* ===== verification/Tokens.thy ===== *)
theory Tokens
  imports Topic_Store
begin

section \<open>Tokens: the shared completion cells of the client's operations\<close>

text \<open>
  \<^verbatim>\<open>src/src/token\<close>. A token is an \<open>Arc<Mutex<InnerToken>>\<close>: cloning it shares the cell. The
  model keeps the cells in an explicit store, the record \<open>heap\<close>, and a token is an address; one
  lock is one read or write of a cell. The five \<open>InnerToken\<close> structs share the fields \<open>state\<close> and
  \<open>error\<close>, which the macros \<open>impl_future\<close> and \<open>impl_tokenize\<close> act on, and differ in the
  rest, the datatype \<open>token_data\<close>. A waker is a task number; \<open>woken\<close> lists the wake calls made.
\<close>

subsection \<open>Errors\<close>

datatype token_error =
    IOError string
  | ConnectTimeout
  | NetworkUnreachable
  | ConnectError string
  | ConnectFailed u8
  | ConnectionLost
  | Reconnecting
  | ConnectionError string
  | InvalidTopic
  | PacketIdError
  | InternalServerError
  | PacketError string

subsection \<open>Cells\<close>

type_synonym waker = nat
type_synonym addr = nat

record token_state =
  complete :: bool
  waker :: "waker option"

datatype token_data =
    ConnectData connect_return_code bool
  | DisconnectData
  | PublishData quality_of_service
  | SubscribeData "subscription list" "(string, subscribe_return_code) hashmap"
  | UnsubscribeData "string list"

record inner_token =
  tok_state :: token_state
  tok_error :: "token_error option"
  tok_data :: token_data

record heap =
  cells :: "addr \<Rightarrow> inner_token option"
  next_addr :: addr
  woken :: "waker list"

text \<open>The \<open>Default\<close> values.\<close>

definition state_default :: token_state where
  "state_default = \<lparr>complete = False, waker = None\<rparr>"

definition connect_default :: token_data where
  "connect_default = ConnectData ConnectionAccepted False"

definition publish_default :: token_data where
  "publish_default = PublishData Level0"

definition subscribe_default :: token_data where
  "subscribe_default = SubscribeData [] []"

definition unsubscribe_default :: token_data where
  "unsubscribe_default = UnsubscribeData []"

definition inner_default :: "token_data \<Rightarrow> inner_token" where
  "inner_default d = \<lparr>tok_state = state_default, tok_error = None, tok_data = d\<rparr>"

text \<open>\<open>XToken::default()\<close>: a fresh cell.\<close>

definition new_token :: "token_data \<Rightarrow> 'a heap_scheme \<Rightarrow> addr \<times> 'a heap_scheme" where
  "new_token d h = (next_addr h,
     h\<lparr>cells := (cells h)(next_addr h \<mapsto> inner_default d), next_addr := Suc (next_addr h)\<rparr>)"

subsection \<open>The macros impl_tokenize and impl_future\<close>

text \<open>\<open>waker.take()\<close> followed by \<open>wake()\<close>: the calls made.\<close>

definition taken_waker :: "inner_token \<Rightarrow> waker list" where
  "taken_waker c = (case waker (tok_state c) of None \<Rightarrow> [] | Some w \<Rightarrow> [w])"

definition tok_set_error :: "token_error \<Rightarrow> addr \<Rightarrow> 'a heap_scheme \<Rightarrow> 'a heap_scheme" where
  "tok_set_error e a h =
     (case cells h a of
        None \<Rightarrow> h
      | Some c \<Rightarrow>
          h\<lparr>cells := (cells h)(a \<mapsto> c\<lparr>tok_error := Some e,
                                   tok_state := \<lparr>complete = True, waker = None\<rparr>\<rparr>),
            woken := woken h @ taken_waker c\<rparr>)"

definition tok_flow_complete :: "addr \<Rightarrow> 'a heap_scheme \<Rightarrow> 'a heap_scheme" where
  "tok_flow_complete a h =
     (case cells h a of
        None \<Rightarrow> h
      | Some c \<Rightarrow>
          h\<lparr>cells := (cells h)(a \<mapsto> c\<lparr>tok_state := \<lparr>complete = True, waker = None\<rparr>\<rparr>),
            woken := woken h @ taken_waker c\<rparr>)"

datatype 'a poll = Ready 'a | Pending

text \<open>\<open>Future::poll\<close> with the waker of the polling task.\<close>

definition tok_poll ::
  "addr \<Rightarrow> waker \<Rightarrow> 'a heap_scheme \<Rightarrow> token_error option poll \<times> 'a heap_scheme" where
  "tok_poll a w h =
     (case cells h a of
        None \<Rightarrow> (Pending, h)
      | Some c \<Rightarrow>
          if complete (tok_state c) then (Ready (tok_error c), h)
          else (Pending, h\<lparr>cells := (cells h)(a \<mapsto> c\<lparr>tok_state := (tok_state c)\<lparr>waker := Some w\<rparr>\<rparr>)\<rparr>))"

subsection \<open>The operations of the token types\<close>

definition map_data :: "(token_data \<Rightarrow> token_data) \<Rightarrow> addr \<Rightarrow> 'a heap_scheme \<Rightarrow> 'a heap_scheme" where
  "map_data f a h =
     (case cells h a of
        None \<Rightarrow> h
      | Some c \<Rightarrow> h\<lparr>cells := (cells h)(a \<mapsto> c\<lparr>tok_data := f (tok_data c)\<rparr>)\<rparr>)"

definition data_at :: "'a heap_scheme \<Rightarrow> addr \<Rightarrow> token_data option" where
  "data_at h a = map_option tok_data (cells h a)"

definition connect_set_return_code :: "connect_return_code \<Rightarrow> addr \<Rightarrow> 'a heap_scheme \<Rightarrow> 'a heap_scheme" where
  "connect_set_return_code code =
     map_data (\<lambda>d. case d of ConnectData _ sp \<Rightarrow> ConnectData code sp | _ \<Rightarrow> d)"

definition connect_set_session_present :: "addr \<Rightarrow> 'a heap_scheme \<Rightarrow> 'a heap_scheme" where
  "connect_set_session_present =
     map_data (\<lambda>d. case d of ConnectData code _ \<Rightarrow> ConnectData code True | _ \<Rightarrow> d)"

definition connect_return_code :: "'a heap_scheme \<Rightarrow> addr \<Rightarrow> connect_return_code option" where
  "connect_return_code h a =
     (case data_at h a of Some (ConnectData code _) \<Rightarrow> Some code | _ \<Rightarrow> None)"

definition connect_session_present :: "'a heap_scheme \<Rightarrow> addr \<Rightarrow> bool" where
  "connect_session_present h a =
     (case data_at h a of Some (ConnectData _ sp) \<Rightarrow> sp | _ \<Rightarrow> False)"

definition publish_set_qos :: "quality_of_service \<Rightarrow> addr \<Rightarrow> 'a heap_scheme \<Rightarrow> 'a heap_scheme" where
  "publish_set_qos q = map_data (\<lambda>d. case d of PublishData _ \<Rightarrow> PublishData q | _ \<Rightarrow> d)"

definition publish_qos :: "'a heap_scheme \<Rightarrow> addr \<Rightarrow> quality_of_service option" where
  "publish_qos h a = (case data_at h a of Some (PublishData q) \<Rightarrow> Some q | _ \<Rightarrow> None)"

definition add_subscriptions :: "subscription list \<Rightarrow> addr \<Rightarrow> 'a heap_scheme \<Rightarrow> 'a heap_scheme" where
  "add_subscriptions subs =
     map_data (\<lambda>d. case d of SubscribeData ss rs \<Rightarrow> SubscribeData (ss @ subs) rs | _ \<Rightarrow> d)"

definition get_subscription :: "nat \<Rightarrow> 'a heap_scheme \<Rightarrow> addr \<Rightarrow> subscription option" where
  "get_subscription i h a =
     (case data_at h a of
        Some (SubscribeData ss _) \<Rightarrow> if i < length ss then Some (ss ! i) else None
      | _ \<Rightarrow> None)"

definition set_result :: "nat \<Rightarrow> subscribe_return_code \<Rightarrow> addr \<Rightarrow> 'a heap_scheme \<Rightarrow> 'a heap_scheme" where
  "set_result i code =
     map_data (\<lambda>d. case d of
        SubscribeData ss rs \<Rightarrow>
          SubscribeData ss (if i < length ss then AList.update (sub_topic (ss ! i)) code rs else rs)
      | _ \<Rightarrow> d)"

definition subscribe_result :: "'a heap_scheme \<Rightarrow> addr \<Rightarrow> (string, subscribe_return_code) hashmap" where
  "subscribe_result h a = (case data_at h a of Some (SubscribeData _ rs) \<Rightarrow> rs | _ \<Rightarrow> [])"

definition unsubscribe_add_topic :: "string \<Rightarrow> addr \<Rightarrow> 'a heap_scheme \<Rightarrow> 'a heap_scheme" where
  "unsubscribe_add_topic topic =
     map_data (\<lambda>d. case d of UnsubscribeData ts \<Rightarrow> UnsubscribeData (ts @ [topic]) | _ \<Rightarrow> d)"

definition unsubscribe_topics :: "'a heap_scheme \<Rightarrow> addr \<Rightarrow> string list" where
  "unsubscribe_topics h a = (case data_at h a of Some (UnsubscribeData ts) \<Rightarrow> ts | _ \<Rightarrow> [])"

subsection \<open>The enum Token and PacketAndToken\<close>

datatype token =
    Connect (token_addr: addr)
  | Disconnect (token_addr: addr)
  | Publish (token_addr: addr)
  | Subscribe (token_addr: addr)
  | Unsubscribe (token_addr: addr)

fun token_flow_complete :: "token \<Rightarrow> 'a heap_scheme \<Rightarrow> 'a heap_scheme" where
  "token_flow_complete (Connect t) h = tok_flow_complete t h"
| "token_flow_complete (Disconnect t) h = tok_flow_complete t h"
| "token_flow_complete (Publish t) h = tok_flow_complete t h"
| "token_flow_complete (Subscribe t) h = tok_flow_complete t h"
| "token_flow_complete (Unsubscribe t) h = tok_flow_complete t h"

fun token_set_error :: "token_error \<Rightarrow> token \<Rightarrow> 'a heap_scheme \<Rightarrow> 'a heap_scheme" where
  "token_set_error e (Connect t) h = tok_set_error e t h"
| "token_set_error e (Disconnect t) h = tok_set_error e t h"
| "token_set_error e (Publish t) h = tok_set_error e t h"
| "token_set_error e (Subscribe t) h = tok_set_error e t h"
| "token_set_error e (Unsubscribe t) h = tok_set_error e t h"

lemma token_flow_complete_addr [simp]: "token_flow_complete t h = tok_flow_complete (token_addr t) h"
  by (cases t) simp_all

lemma token_set_error_addr [simp]: "token_set_error e t h = tok_set_error e (token_addr t) h"
  by (cases t) simp_all

record packet_and_token =
  pt_packet :: variable_packet
  pt_token :: "token option"

definition packet_and_token_new :: "variable_packet \<Rightarrow> packet_and_token" where
  "packet_and_token_new p = \<lparr>pt_packet = p, pt_token = None\<rparr>"

definition packet_and_token_new_with :: "variable_packet \<Rightarrow> token \<Rightarrow> packet_and_token" where
  "packet_and_token_new_with p t = \<lparr>pt_packet = p, pt_token = Some t\<rparr>"

subsection \<open>What a cell says\<close>

definition tok_live :: "'a heap_scheme \<Rightarrow> addr \<Rightarrow> bool" where
  "tok_live h a \<longleftrightarrow> cells h a \<noteq> None"

definition tok_done :: "'a heap_scheme \<Rightarrow> addr \<Rightarrow> bool" where
  "tok_done h a \<longleftrightarrow> (case cells h a of None \<Rightarrow> False | Some c \<Rightarrow> complete (tok_state c))"

definition tok_err :: "'a heap_scheme \<Rightarrow> addr \<Rightarrow> token_error option" where
  "tok_err h a = (case cells h a of None \<Rightarrow> None | Some c \<Rightarrow> tok_error c)"

definition tok_sleeper :: "'a heap_scheme \<Rightarrow> addr \<Rightarrow> waker option" where
  "tok_sleeper h a = (case cells h a of None \<Rightarrow> None | Some c \<Rightarrow> waker (tok_state c))"

lemmas tok_view_defs = tok_live_def tok_done_def tok_err_def tok_sleeper_def data_at_def
lemmas tok_op_defs = tok_set_error_def tok_flow_complete_def tok_poll_def map_data_def new_token_def

text \<open>The address of the next cell is free: every allocated cell lies below it.\<close>

definition heap_ok :: "'a heap_scheme \<Rightarrow> bool" where
  "heap_ok h \<longleftrightarrow> (\<forall>a. tok_live h a \<longrightarrow> a < next_addr h)"

lemma tok_set_error_view [tok_simps]:
  "tok_live (tok_set_error e a h) b = tok_live h b"
  "tok_done (tok_set_error e a h) b = (if a = b then tok_live h b else tok_done h b)"
  "tok_err (tok_set_error e a h) b = (if a = b \<and> tok_live h b then Some e else tok_err h b)"
  "tok_sleeper (tok_set_error e a h) b = (if a = b then None else tok_sleeper h b)"
  "data_at (tok_set_error e a h) b = data_at h b"
  "next_addr (tok_set_error e a h) = next_addr h"
  "woken (tok_set_error e a h) = woken h @ (case tok_sleeper h a of None \<Rightarrow> [] | Some w \<Rightarrow> [w])"
  by (auto simp: tok_set_error_def tok_view_defs taken_waker_def split: option.splits)

lemma tok_flow_complete_view [tok_simps]:
  "tok_live (tok_flow_complete a h) b = tok_live h b"
  "tok_done (tok_flow_complete a h) b = (if a = b then tok_live h b else tok_done h b)"
  "tok_err (tok_flow_complete a h) b = tok_err h b"
  "tok_sleeper (tok_flow_complete a h) b = (if a = b then None else tok_sleeper h b)"
  "data_at (tok_flow_complete a h) b = data_at h b"
  "next_addr (tok_flow_complete a h) = next_addr h"
  "woken (tok_flow_complete a h) = woken h @ (case tok_sleeper h a of None \<Rightarrow> [] | Some w \<Rightarrow> [w])"
  by (auto simp: tok_flow_complete_def tok_view_defs taken_waker_def split: option.splits)

lemma tok_poll_view [tok_simps]:
  "fst (tok_poll a w h) = (if tok_done h a then Ready (tok_err h a) else Pending)"
  "tok_live (snd (tok_poll a w h)) b = tok_live h b"
  "tok_done (snd (tok_poll a w h)) b = tok_done h b"
  "tok_err (snd (tok_poll a w h)) b = tok_err h b"
  "tok_sleeper (snd (tok_poll a w h)) b =
     (if a = b \<and> tok_live h a \<and> \<not> tok_done h a then Some w else tok_sleeper h b)"
  "data_at (snd (tok_poll a w h)) b = data_at h b"
  "woken (snd (tok_poll a w h)) = woken h"
  by (auto simp: tok_poll_def tok_view_defs split: option.splits)

lemma map_data_view [tok_simps]:
  "tok_live (map_data f a h) b = tok_live h b"
  "tok_done (map_data f a h) b = tok_done h b"
  "tok_err (map_data f a h) b = tok_err h b"
  "tok_sleeper (map_data f a h) b = tok_sleeper h b"
  "data_at (map_data f a h) b = (if a = b then map_option f (data_at h b) else data_at h b)"
  "next_addr (map_data f a h) = next_addr h"
  "woken (map_data f a h) = woken h"
  by (auto simp: map_data_def tok_view_defs split: option.splits)

lemma new_token_view [tok_simps]:
  "fst (new_token d h) = next_addr h"
  "tok_live (snd (new_token d h)) b \<longleftrightarrow> b = next_addr h \<or> tok_live h b"
  "tok_done (snd (new_token d h)) b \<longleftrightarrow> b \<noteq> next_addr h \<and> tok_done h b"
  "tok_err (snd (new_token d h)) b = (if b = next_addr h then None else tok_err h b)"
  "tok_sleeper (snd (new_token d h)) b = (if b = next_addr h then None else tok_sleeper h b)"
  "data_at (snd (new_token d h)) b = (if b = next_addr h then Some d else data_at h b)"
  "next_addr (snd (new_token d h)) = Suc (next_addr h)"
  "woken (snd (new_token d h)) = woken h"
  by (auto simp: new_token_def tok_view_defs inner_default_def state_default_def)

lemma tok_done_live: "tok_done h a \<Longrightarrow> tok_live h a"
  by (simp add: tok_view_defs split: option.splits)

lemma heap_ok_new [simp]: "heap_ok h \<Longrightarrow> heap_ok (snd (new_token d h))"
  by (auto simp: heap_ok_def tok_simps)

lemma heap_ok_ops [simp]:
  "heap_ok (tok_set_error e a h) = heap_ok h"
  "heap_ok (tok_flow_complete a h) = heap_ok h"
  "heap_ok (map_data f a h) = heap_ok h"
  by (simp_all add: heap_ok_def tok_simps)

subsection \<open>The trait Tokenize as locales\<close>

text \<open>
  \<open>completion\<close> is what the packet identifier table relies on, whether through a token type or
  through the enum \<open>Token\<close>; \<open>tokenize\<close> adds the supertrait \<open>Future\<close>. \<open>shares\<close> says which handles
  share a cell.
\<close>

locale completion =
  fixes live :: "'h \<Rightarrow> 't \<Rightarrow> bool"
    and finished :: "'h \<Rightarrow> 't \<Rightarrow> bool"
    and err :: "'h \<Rightarrow> 't \<Rightarrow> token_error option"
    and sleeper :: "'h \<Rightarrow> 't \<Rightarrow> waker option"
    and wakes :: "'h \<Rightarrow> waker list"
    and shares :: "'t \<Rightarrow> 't \<Rightarrow> bool"
    and set_error :: "token_error \<Rightarrow> 't \<Rightarrow> 'h \<Rightarrow> 'h"
    and flow_complete :: "'t \<Rightarrow> 'h \<Rightarrow> 'h"
  assumes shares_refl: "shares t t"
    and live_set_error: "live (set_error e t h) u = live h u"
    and finished_set_error: "live h u \<Longrightarrow> finished (set_error e t h) u \<longleftrightarrow> shares t u \<or> finished h u"
    and err_set_error: "live h u \<Longrightarrow> err (set_error e t h) u = (if shares t u then Some e else err h u)"
    and sleeper_set_error: "sleeper (set_error e t h) u = (if shares t u then None else sleeper h u)"
    and wakes_set_error: "wakes (set_error e t h) =
      wakes h @ (case sleeper h t of None \<Rightarrow> [] | Some w \<Rightarrow> [w])"
    and live_flow_complete: "live (flow_complete t h) u = live h u"
    and finished_flow_complete: "live h u \<Longrightarrow> finished (flow_complete t h) u \<longleftrightarrow> shares t u \<or> finished h u"
    and err_flow_complete: "err (flow_complete t h) u = err h u"
    and sleeper_flow_complete: "sleeper (flow_complete t h) u = (if shares t u then None else sleeper h u)"
    and wakes_flow_complete: "wakes (flow_complete t h) =
      wakes h @ (case sleeper h t of None \<Rightarrow> [] | Some w \<Rightarrow> [w])"
begin

lemma set_error_all_live: "live (fold (set_error e) ts h) u = live h u"
  by (induction ts arbitrary: h) (simp_all add: live_set_error)

text \<open>The loop of \<open>PacketIds::clean_up\<close> over the table's tokens, in any order.\<close>

lemma set_error_all:
  assumes "live h u"
  shows "finished (fold (set_error e) ts h) u \<longleftrightarrow> (\<exists>t \<in> set ts. shares t u) \<or> finished h u"
    and "err (fold (set_error e) ts h) u = (if \<exists>t \<in> set ts. shares t u then Some e else err h u)"
  using assms
  by (induction ts arbitrary: h)
    (auto simp: finished_set_error err_set_error live_set_error)

lemma settled_is_silent:
  "sleeper h t = None \<Longrightarrow> wakes (flow_complete t h) = wakes h \<and> wakes (set_error e t h) = wakes h"
  by (simp add: wakes_flow_complete wakes_set_error)

end

locale tokenize = completion live finished err sleeper wakes shares set_error flow_complete
  for live :: "'h \<Rightarrow> 't \<Rightarrow> bool"
    and finished :: "'h \<Rightarrow> 't \<Rightarrow> bool"
    and err :: "'h \<Rightarrow> 't \<Rightarrow> token_error option"
    and sleeper :: "'h \<Rightarrow> 't \<Rightarrow> waker option"
    and wakes :: "'h \<Rightarrow> waker list"
    and shares :: "'t \<Rightarrow> 't \<Rightarrow> bool"
    and set_error :: "token_error \<Rightarrow> 't \<Rightarrow> 'h \<Rightarrow> 'h"
    and flow_complete :: "'t \<Rightarrow> 'h \<Rightarrow> 'h" +
  fixes poll :: "'t \<Rightarrow> waker \<Rightarrow> 'h \<Rightarrow> token_error option poll \<times> 'h"
  assumes poll_result: "fst (poll t w h) = (if finished h t then Ready (err h t) else Pending)"
    and poll_live: "live (snd (poll t w h)) u = live h u"
    and poll_finished: "finished (snd (poll t w h)) u = finished h u"
    and poll_err: "err (snd (poll t w h)) u = err h u"
    and poll_sleeper: "live h t \<Longrightarrow> \<not> finished h t \<Longrightarrow> sleeper (snd (poll t w h)) t = Some w"
    and poll_wakes: "wakes (snd (poll t w h)) = wakes h"
begin

text \<open>No lost wake-up: the task whose poll was pending is woken, and its next poll is ready.\<close>

lemma error_wakes_poller:
  assumes "live h t" and "\<not> finished h t"
  shows "wakes (set_error e t (snd (poll t w h))) = wakes h @ [w] \<and>
    fst (poll t w' (set_error e t (snd (poll t w h)))) = Ready (Some e)"
  using assms(1,2)
  by (simp add: wakes_set_error poll_sleeper poll_wakes poll_result
      finished_set_error err_set_error poll_live shares_refl)

lemma completion_wakes_poller:
  assumes "live h t" and "\<not> finished h t"
  shows "wakes (flow_complete t (snd (poll t w h))) = wakes h @ [w] \<and>
    fst (poll t w' (flow_complete t (snd (poll t w h)))) = Ready (err h t)"
  using assms(1,2)
  by (simp add: wakes_flow_complete poll_sleeper poll_wakes poll_result
      finished_flow_complete err_flow_complete poll_live poll_err shares_refl)

end

interpretation cell: tokenize tok_live tok_done tok_err tok_sleeper woken "(=)"
  tok_set_error tok_flow_complete tok_poll
  by unfold_locales (auto simp: tok_simps tok_done_live)

text \<open>Handles of the enum share a cell when they hold the same cell.\<close>

definition token_shares :: "token \<Rightarrow> token \<Rightarrow> bool" where
  "token_shares t u \<longleftrightarrow> token_addr t = token_addr u"

interpretation enum: completion "\<lambda>h t. tok_live h (token_addr t)" "\<lambda>h t. tok_done h (token_addr t)"
  "\<lambda>h t. tok_err h (token_addr t)" "\<lambda>h t. tok_sleeper h (token_addr t)" woken token_shares
  token_set_error token_flow_complete
  by unfold_locales (auto simp: tok_simps tok_done_live token_shares_def)

subsection \<open>Runs of one token\<close>

datatype tok_event = TPoll waker | TError token_error | TComplete

fun tok_step :: "addr \<Rightarrow> tok_event \<Rightarrow> 'a heap_scheme \<Rightarrow> 'a heap_scheme" where
  "tok_step a (TPoll w) h = snd (tok_poll a w h)"
| "tok_step a (TError e) h = tok_set_error e a h"
| "tok_step a TComplete h = tok_flow_complete a h"

definition tok_run :: "addr \<Rightarrow> tok_event list \<Rightarrow> 'a heap_scheme \<Rightarrow> 'a heap_scheme" where
  "tok_run a es h = fold (tok_step a) es h"

fun completes :: "tok_event \<Rightarrow> bool" where
  "completes (TPoll w) = False"
| "completes (TError e) = True"
| "completes TComplete = True"

fun last_error :: "tok_event list \<Rightarrow> token_error option" where
  "last_error [] = None"
| "last_error (e # es) =
     (case last_error es of Some x \<Rightarrow> Some x
      | None \<Rightarrow> (case e of TError x \<Rightarrow> Some x | _ \<Rightarrow> None))"

text \<open>The wake calls of a run: the last poller before the first completion, once.\<close>

fun run_wakes :: "waker option \<Rightarrow> tok_event list \<Rightarrow> waker list" where
  "run_wakes s [] = []"
| "run_wakes s (TPoll w # es) = run_wakes (Some w) es"
| "run_wakes s (e # es) = (case s of None \<Rightarrow> [] | Some w \<Rightarrow> [w])"

lemma tok_run_Nil [simp]: "tok_run a [] h = h"
  by (simp add: tok_run_def)

lemma tok_run_Cons [simp]: "tok_run a (e # es) h = tok_run a es (tok_step a e h)"
  by (simp add: tok_run_def)

lemma tok_step_live: "tok_live (tok_step a e h) b = tok_live h b"
  by (cases e) (simp_all add: tok_simps)

lemma tok_run_live: "tok_live (tok_run a es h) b = tok_live h b"
  by (induction es arbitrary: h) (simp_all add: tok_step_live)

lemma tok_run_done:
  "tok_live h a \<Longrightarrow> tok_done (tok_run a es h) a \<longleftrightarrow> tok_done h a \<or> list_ex completes es"
proof (induction es arbitrary: h)
  case (Cons e es)
  then show ?case
    by (cases e) (simp_all add: tok_step_live tok_simps)
qed simp

lemma tok_run_err:
  "tok_live h a \<Longrightarrow> tok_err (tok_run a es h) a =
     (case last_error es of None \<Rightarrow> tok_err h a | Some x \<Rightarrow> Some x)"
proof (induction es arbitrary: h)
  case (Cons e es)
  then show ?case
    by (cases e) (simp_all add: tok_step_live tok_simps split: option.split)
qed simp

lemma tok_run_quiet:
  "tok_done h a \<Longrightarrow> tok_sleeper h a = None \<Longrightarrow> woken (tok_run a es h) = woken h"
proof (induction es arbitrary: h)
  case (Cons e es)
  then show ?case
    by (cases e) (simp_all add: tok_simps tok_done_live)
qed simp

lemma tok_run_wakes:
  "tok_live h a \<Longrightarrow> \<not> tok_done h a \<Longrightarrow>
     woken (tok_run a es h) = woken h @ run_wakes (tok_sleeper h a) es"
proof (induction es arbitrary: h)
  case (Cons e es)
  then show ?case
    by (cases e) (simp_all add: tok_simps tok_run_quiet)
qed simp

subsection \<open>Properties\<close>

text \<open>
  C30. The life of a token from its creation, under any sequence of polls, errors and completions:
  it is ready exactly when some event completed it, its outcome is the last error set (or none),
  and over the whole run one wake call is made at most, to the last task that polled it before the
  first completion.
\<close>

theorem token_run_outcome:
  "tok_run (fst (new_token d h)) es (snd (new_token d h)) = h' \<Longrightarrow>
     fst (tok_poll (fst (new_token d h)) w h') =
       (if list_ex completes es then Ready (last_error es) else Pending) \<and>
     woken h' = woken h @ run_wakes None es \<and> length (run_wakes None es) \<le> 1"
proof -
  assume run: "tok_run (fst (new_token d h)) es (snd (new_token d h)) = h'"
  have len: "length (run_wakes s es) \<le> 1" for s
    by (induction s es rule: run_wakes.induct) (auto split: option.split)
  show ?thesis
    using len by (auto simp: run[symmetric] tok_simps tok_run_done tok_run_err tok_run_wakes
        split: option.split)
qed

text \<open>
  No lost wake-up: if a task's poll of an unfinished token is pending, a later error wakes that
  task, and its next poll returns the error.
\<close>

lemma token_error_wakes_poller:
  assumes "tok_live h a" and "\<not> tok_done h a"
  shows "fst (tok_poll a w h) = Pending \<and>
    woken (tok_set_error e a (snd (tok_poll a w h))) = woken h @ [w] \<and>
    fst (tok_poll a w' (tok_set_error e a (snd (tok_poll a w h)))) = Ready (Some e)"
  using cell.error_wakes_poller[OF assms, of e w w'] assms by (simp add: tok_simps)

text \<open>
  A suback result is recorded under the topic of the subscription at its index, the last one
  winning, and an index without a subscription changes nothing.
\<close>

lemma set_result_records:
  assumes "data_at h a = Some (SubscribeData ss rs)"
  shows "map_of (subscribe_result (set_result i code a h) a) =
      (if i < length ss then (map_of rs)(sub_topic (ss ! i) \<mapsto> code) else map_of rs) \<and>
    get_subscription j (set_result i code a h) a = (if j < length ss then Some (ss ! j) else None)"
  using assms by (simp add: subscribe_result_def set_result_def get_subscription_def tok_simps)

subsection \<open>Witnesses\<close>

definition empty_heap :: heap where
  "empty_heap = \<lparr>cells = Map.empty, next_addr = 0, woken = []\<rparr>"

lemma empty_heap_ok: "heap_ok empty_heap"
  by (simp add: heap_ok_def empty_heap_def tok_live_def)

lemma token_run_outcome_witness:
  "woken (tok_run 0 [TPoll 4, TPoll 5, TComplete, TError ConnectionLost] (snd (new_token publish_default empty_heap))) = [5]"
  using token_run_outcome[of publish_default empty_heap
      "[TPoll 4, TPoll 5, TComplete, TError ConnectionLost]", OF refl]
  by (simp add: new_token_def empty_heap_def)

end
