(* ===== verification/Packet_Ids.thy ===== *)
theory Packet_Ids
  imports Tokens
begin

section \<open>Packet identifiers\<close>

text \<open>
  \<^verbatim>\<open>src/src/pkid.rs\<close>. The table \<open>PacketIds\<close> is the record \<open>packet_ids\<close>: the \<open>HashMap\<close> from
  identifiers in use to tokens, and the identifier issued last. Identifiers are \<open>u16\<close>, so \<open>i += 1\<close>
  wraps in a release build and panics in a build with overflow checks: \<open>get_id\<close> takes the flag
  \<open>checks\<close> and returns \<open>Panic\<close> there.
\<close>

definition PKID_MAX :: u16 where
  "PKID_MAX = 65535"

definition PKID_MIN :: u16 where
  "PKID_MIN = 1"

record packet_ids =
  index :: "(u16, token) hashmap"
  last_issued_id :: u16

definition packet_ids_new :: packet_ids where
  "packet_ids_new = \<lparr>index = [], last_issued_id = PKID_MIN\<rparr>"

subsection \<open>Operations\<close>

definition claim_id :: "token \<Rightarrow> u16 \<Rightarrow> packet_ids \<Rightarrow> 'a heap_scheme \<Rightarrow> packet_ids \<times> 'a heap_scheme" where
  "claim_id token i ids h =
     (let h' = (case map_of (index ids) i of
                  None \<Rightarrow> h
                | Some old \<Rightarrow> token_flow_complete old h);
          ids' = ids\<lparr>index := AList.update i token (index ids)\<rparr>
      in (if last_issued_id ids' < i then ids'\<lparr>last_issued_id := i\<rparr> else ids', h'))"

text \<open>
  The search loop of \<open>get_id\<close>, from the value of \<open>i\<close> and \<open>looped\<close> at the loop's head. It returns the
  identifier found vacant, or 0.
\<close>

function get_id_loop :: "bool \<Rightarrow> (u16, token) hashmap \<Rightarrow> u16 \<Rightarrow> u16 \<Rightarrow> bool \<Rightarrow> u16 outcome" where
  "get_id_loop checks idx lst i looped =
     (if checks \<and> i = PKID_MAX then Panic
      else
        let i1 = i + 1;
            i' = (if i1 = 0 then i1 + 1 else i1);
            looped' = (looped \<or> i1 = 0)
        in if map_of idx i' = None then Done i'
           else if looped' \<and> i' = lst \<or> lst = 0 \<and> i' = PKID_MAX then Done 0
           else get_id_loop checks idx lst i' looped')"
  by pat_completeness auto

text \<open>
  The loop stops: before the wrap the distance to the largest identifier shrinks, after it the
  distance to the identifier issued last (or to the largest one, when none was issued).
\<close>

definition loop_stop :: "u16 \<Rightarrow> nat" where
  "loop_stop lst = (if lst = 0 then 65535 else unat lst)"

definition loop_measure :: "u16 \<Rightarrow> u16 \<Rightarrow> bool \<Rightarrow> nat" where
  "loop_measure lst i looped =
     (if \<not> looped then 3 * 65536 - unat i
      else if unat i < loop_stop lst then loop_stop lst - unat i
      else 65536 - unat i + loop_stop lst)"

lemma unat_u16_bound: "unat (i :: u16) \<le> 65535"
  using unsigned_less[of i, where ?'a = nat] by simp

lemma unat_eq_max: "unat (i :: u16) = 65535 \<longleftrightarrow> i = PKID_MAX"
  by (simp add: word_unat_eq_iff PKID_MAX_def)

lemma unat_PKID_MAX: "unat PKID_MAX = 65535"
  by (simp add: PKID_MAX_def)

lemma succ_zero_iff: "(i :: u16) + 1 = 0 \<longleftrightarrow> unat i = 65535"
proof -
  have "(i + 1 = 0) = (i = - 1)" by (simp add: eq_neg_iff_add_eq_0)
  also have "(- 1 :: u16) = PKID_MAX" by (simp add: PKID_MAX_def)
  finally show ?thesis by (simp add: unat_eq_max)
qed

lemma unat_succ: "unat (i :: u16) \<noteq> 65535 \<Longrightarrow> unat (i + 1) = Suc (unat i)"
  using unatSuc[of i] by (metis add.commute succ_zero_iff)

lemma loop_stop_bounds: "1 \<le> loop_stop lst" "loop_stop lst \<le> 65535"
  using unat_u16_bound[of lst] by (auto simp: loop_stop_def Suc_le_eq unat_gt_0)

lemma at_stop:
  assumes "unat i = loop_stop lst"
  shows "i = lst \<or> lst = 0 \<and> i = PKID_MAX"
proof (cases "lst = 0")
  case True
  with assms show ?thesis by (simp add: loop_stop_def unat_eq_max)
next
  case False
  with assms show ?thesis by (simp add: loop_stop_def word_unat_eq_iff)
qed

lemma loop_measure_decreases:
  assumes "\<not> (looped' \<and> i' = lst \<or> lst = 0 \<and> i' = PKID_MAX)"
    and "i' = (if i + 1 = 0 then i + 1 + 1 else i + 1)"
    and "looped' = (looped \<or> i + 1 = 0)"
  shows "loop_measure lst i' looped' < loop_measure lst i looped"
proof (cases "i + 1 = 0")
  case True
  with assms have i': "i' = 1" "looped'" and i: "unat i = 65535"
    by (simp_all add: succ_zero_iff)
  have "unat i' \<noteq> loop_stop lst"
    using at_stop[of i' lst] assms(1) i'(2) by blast
  with i' i loop_stop_bounds[of lst] show ?thesis
    by (auto simp: loop_measure_def)
next
  case False
  with assms have i': "unat i' = Suc (unat i)" "looped' = looped"
    by (simp_all add: unat_succ succ_zero_iff)
  have "looped \<Longrightarrow> unat i' \<noteq> loop_stop lst"
    using at_stop[of i' lst] assms(1) i'(2) by blast
  with i' unat_u16_bound[of i'] loop_stop_bounds[of lst] show ?thesis
    by (auto simp: loop_measure_def)
qed

termination get_id_loop
  by (relation "measure (\<lambda>(checks, idx, lst, i, looped). loop_measure lst i looped)")
    (simp, simp only: in_measure prod.case, rule loop_measure_decreases, simp_all)

declare get_id_loop.simps [simp del]

definition get_id :: "bool \<Rightarrow> token \<Rightarrow> packet_ids \<Rightarrow> (u16 \<times> packet_ids) outcome" where
  "get_id checks token ids =
     bind_outcome (get_id_loop checks (index ids) (last_issued_id ids) (last_issued_id ids) False)
       (\<lambda>i. Done (if i = 0 then (0, ids)
                  else (i, ids\<lparr>index := AList.update i token (index ids), last_issued_id := i\<rparr>)))"

definition get_token :: "u16 \<Rightarrow> packet_ids \<Rightarrow> token option" where
  "get_token i ids = map_of (index ids) i"

definition free_id :: "u16 \<Rightarrow> packet_ids \<Rightarrow> packet_ids" where
  "free_id i ids = ids\<lparr>index := AList.delete i (index ids)\<rparr>"

definition clean_up :: "packet_ids \<Rightarrow> 'a heap_scheme \<Rightarrow> packet_ids \<times> 'a heap_scheme" where
  "clean_up ids h =
     (ids\<lparr>index := []\<rparr>, fold (token_set_error ConnectionLost) (map snd (index ids)) h)"

subsection \<open>The search, as a scan of the identifiers in cyclic order\<close>

definition vacant :: "(u16, token) hashmap \<Rightarrow> nat \<Rightarrow> bool" where
  "vacant idx n \<longleftrightarrow> map_of idx (of_nat n :: u16) = None"

definition first_vacant :: "(u16, token) hashmap \<Rightarrow> nat list \<Rightarrow> u16" where
  "first_vacant idx ns = (case find (vacant idx) ns of None \<Rightarrow> 0 | Some n \<Rightarrow> of_nat n)"

text \<open>The identifiers after the one issued last, then round to it: 0 is never among them.\<close>

definition cyclic_ids :: "u16 \<Rightarrow> nat list" where
  "cyclic_ids lst = [Suc (unat lst)..<65536] @ [1..<Suc (unat lst)]"

lemma first_vacant_simps [simp]:
  "first_vacant idx [] = 0"
  "first_vacant idx (n # ns) = (if vacant idx n then of_nat n else first_vacant idx ns)"
  by (simp_all add: first_vacant_def)

lemma vacant_unat [simp]: "vacant idx (unat i) \<longleftrightarrow> map_of idx i = None"
  by (simp add: vacant_def)

lemma of_nat_Suc_unat: "of_nat (Suc (unat (i :: u16))) = i + 1"
  by simp

lemma vacant_Suc_unat: "vacant idx (Suc (unat i)) \<longleftrightarrow> map_of idx (i + 1) = None"
  by (simp add: vacant_def add.commute)

lemma set_cyclic_ids: "set (cyclic_ids lst) = {1..65535}"
  using unat_u16_bound[of lst] by (auto simp: cyclic_ids_def)

lemma first_vacant_0_iff:
  assumes "set ns \<subseteq> {1..65535}"
  shows "first_vacant idx ns = 0 \<longleftrightarrow> (\<forall>n \<in> set ns. \<not> vacant idx n)"
  using assms
proof (induction ns)
  case (Cons n ns)
  have "(of_nat n :: u16) \<noteq> 0"
    using Cons.prems by (auto simp: word_of_nat_eq_0_iff dest: dvd_imp_le)
  with Cons show ?case by auto
qed simp

lemma first_vacant_free:
  assumes "first_vacant idx ns \<noteq> 0"
  shows "map_of idx (first_vacant idx ns) = None"
  using assms by (induction ns) (auto simp: vacant_def split: if_splits)

text \<open>After the wrap: the scan up to the identifier issued last.\<close>

lemma get_id_loop_wrapped:
  "unat i < unat lst \<Longrightarrow>
     get_id_loop False idx lst i True = Done (first_vacant idx [Suc (unat i)..<Suc (unat lst)])"
proof (induction "unat lst - unat i" arbitrary: i)
  case (Suc d)
  have ne: "unat i \<noteq> 65535" using Suc.prems unat_u16_bound[of lst] by linarith
  then have succ: "unat (i + 1) = Suc (unat i)" "i + 1 \<noteq> 0"
    by (simp_all add: unat_succ succ_zero_iff)
  have lst0: "lst \<noteq> 0" using Suc.prems by auto
  have upt: "[Suc (unat i)..<Suc (unat lst)] = Suc (unat i) # [Suc (Suc (unat i))..<Suc (unat lst)]"
    using Suc.prems by (simp add: upt_conv_Cons del: upt_Suc)
  show ?case
  proof (cases "i + 1 = lst")
    case True
    with succ have "unat lst = Suc (unat i)" by simp
    with True succ upt show ?thesis
      by (subst get_id_loop.simps) (simp add: Let_def vacant_Suc_unat add.commute)
  next
    case False
    with succ Suc.prems have "unat (i + 1) < unat lst"
      by (metis Suc_lessI word_unat_eq_iff)
    then show ?thesis
      using Suc.hyps(1)[of "i + 1"] Suc.hyps(2) succ upt False lst0
      by (subst get_id_loop.simps) (simp add: Let_def vacant_Suc_unat add.commute del: upt_Suc)
  qed
qed simp

lemma get_id_loop_first:
  assumes "lst = 0 \<Longrightarrow> unat i < 65535"
  shows "get_id_loop False idx lst i False =
    Done (first_vacant idx ([Suc (unat i)..<65536] @ [1..<Suc (unat lst)]))"
  using assms
proof (induction "65535 - unat i" arbitrary: i)
  case 0
  then have i: "unat i = 65535" using unat_u16_bound[of i] by linarith
  then have wrap: "i + 1 = 0" and lst: "0 < unat lst"
    using 0 by (auto simp: succ_zero_iff unat_gt_0)
  have upt: "[1..<Suc (unat lst)] = 1 # [2..<Suc (unat lst)]"
    using lst by (simp add: upt_conv_Cons numeral_2_eq_2 del: upt_Suc)
  have v1: "vacant idx 1 \<longleftrightarrow> map_of idx 1 = None" by (simp add: vacant_def)
  show ?case
  proof (cases "lst = 1")
    case True
    with i wrap v1 show ?thesis
      by (subst get_id_loop.simps) (simp add: Let_def)
  next
    case False
    with lst have "unat (1 :: u16) < unat lst"
      by (metis One_nat_def Suc_lessI unsigned_1 word_unat_eq_iff)
    then have rec: "get_id_loop False idx lst 1 True = Done (first_vacant idx [2..<Suc (unat lst)])"
      using get_id_loop_wrapped[of 1 lst idx] by (simp add: numeral_2_eq_2 del: upt_Suc)
    show ?thesis
      using False lst i wrap v1 upt rec
      by (subst get_id_loop.simps) (auto simp: Let_def unat_gt_0 simp del: upt_Suc)
  qed
next
  case (Suc d)
  then have ne: "unat i \<noteq> 65535" by linarith
  then have succ: "unat (i + 1) = Suc (unat i)" "i + 1 \<noteq> 0"
    by (simp_all add: unat_succ succ_zero_iff)
  have lt: "Suc (unat i) < 65536" using ne unat_u16_bound[of i] by linarith
  have upt: "[Suc (unat i)..<65536] = Suc (unat i) # [Suc (Suc (unat i))..<65536]"
    using lt by (rule upt_conv_Cons)
  show ?case
  proof (cases "lst = 0 \<and> i + 1 = PKID_MAX")
    case True
    then have "unat (i + 1) = 65535" by (simp add: unat_eq_max)
    then have "[Suc (unat i)..<65536] = [65535]" using succ upt by simp
    moreover have "vacant idx 65535 \<longleftrightarrow> map_of idx PKID_MAX = None"
      by (simp add: vacant_def PKID_MAX_def)
    ultimately show ?thesis
      using True succ
      by (subst get_id_loop.simps) (simp add: Let_def PKID_MAX_def)
  next
    case False
    then have "lst = 0 \<Longrightarrow> unat (i + 1) < 65535"
      using succ lt unat_eq_max[of "i + 1"] by linarith
    then show ?thesis
      using Suc.hyps(1)[of "i + 1"] Suc.hyps(2) succ upt False
      by (subst get_id_loop.simps) (auto simp: Let_def vacant_Suc_unat add.commute simp del: upt_Suc)
  qed
qed

lemma get_id_loop_cyclic:
  "get_id_loop False idx lst lst False = Done (first_vacant idx (cyclic_ids lst))"
  unfolding cyclic_ids_def by (rule get_id_loop_first) simp

lemma get_id_release:
  "get_id False t ids =
     (let i = first_vacant (index ids) (cyclic_ids (last_issued_id ids)) in
      Done (if i = 0 then (0, ids)
            else (i, ids\<lparr>index := AList.update i t (index ids), last_issued_id := i\<rparr>)))"
  by (simp add: get_id_def get_id_loop_cyclic Let_def)

text \<open>The usual case: the successor of the identifier issued last is vacant.\<close>

lemma get_id_successor:
  assumes "last_issued_id ids \<noteq> PKID_MAX" and "map_of (index ids) (last_issued_id ids + 1) = None"
  shows "get_id False t ids = Done (last_issued_id ids + 1,
    ids\<lparr>index := AList.update (last_issued_id ids + 1) t (index ids),
        last_issued_id := last_issued_id ids + 1\<rparr>)"
proof -
  have "last_issued_id ids + 1 \<noteq> 0"
    using assms(1) by (simp add: succ_zero_iff unat_eq_max)
  with assms show ?thesis
    by (subst get_id_def, subst get_id_loop.simps) (simp add: Let_def)
qed

text \<open>
  With overflow checks the scan stops at the largest identifier instead of wrapping.
\<close>

lemma get_id_loop_checked:
  assumes "lst \<noteq> 0"
  shows "get_id_loop True idx lst i False =
    (if \<exists>n \<in> set [Suc (unat i)..<65536]. vacant idx n
     then Done (first_vacant idx [Suc (unat i)..<65536]) else Panic)"
proof (induction "65535 - unat i" arbitrary: i)
  case 0
  then have "unat i = 65535" using unat_u16_bound[of i] by linarith
  then show ?case
    by (subst get_id_loop.simps) (simp add: unat_eq_max unat_PKID_MAX)
next
  case (Suc d)
  then have ne: "unat i \<noteq> 65535" by linarith
  then have succ: "unat (i + 1) = Suc (unat i)" "i + 1 \<noteq> 0" "i \<noteq> PKID_MAX"
    by (simp_all add: unat_succ succ_zero_iff unat_eq_max)
  have lt: "Suc (unat i) < 65536" using ne unat_u16_bound[of i] by linarith
  have upt: "[Suc (unat i)..<65536] = Suc (unat i) # [Suc (Suc (unat i))..<65536]"
    using lt by (rule upt_conv_Cons)
  show ?case
    unfolding upt
    using Suc.hyps(1)[of "i + 1"] Suc.hyps(2) succ assms
    by (subst get_id_loop.simps) (auto simp: Let_def vacant_Suc_unat add.commute simp del: set_upt)
qed

subsection \<open>Well-formed tables\<close>

definition pid_ok :: "packet_ids \<Rightarrow> bool" where
  "pid_ok ids \<longleftrightarrow>
     distinct_keys (index ids) \<and> map_of (index ids) 0 = None \<and> last_issued_id ids \<noteq> 0"

lemma pid_ok_new [simp]: "pid_ok packet_ids_new"
  by (simp add: pid_ok_def packet_ids_new_def PKID_MIN_def)

lemma get_id_loop_vacant:
  "get_id_loop checks idx lst i looped = Done j \<Longrightarrow> j \<noteq> 0 \<Longrightarrow> map_of idx j = None"
proof (induction checks idx lst i looped rule: get_id_loop.induct)
  case (1 checks idx lst i looped)
  show ?case
    using "1.prems" "1.IH"[OF _ refl refl refl]
    by (subst (asm) get_id_loop.simps) (auto simp: Let_def split: if_splits)
qed

lemma get_id_Done:
  assumes "get_id checks t ids = Done (i, ids')"
  shows "if i = 0 then ids' = ids
    else map_of (index ids) i = None \<and>
      ids' = ids\<lparr>index := AList.update i t (index ids), last_issued_id := i\<rparr>"
  using assms get_id_loop_vacant[of checks "index ids" "last_issued_id ids" "last_issued_id ids" False i]
  by (auto simp: get_id_def bind_outcome_Done_iff split: if_splits)

lemma pid_ok_get_id: "pid_ok ids \<Longrightarrow> get_id checks t ids = Done (i, ids') \<Longrightarrow> pid_ok ids'"
  using get_id_Done[of checks t ids i ids'] by (auto simp: pid_ok_def split: if_splits)

lemma pid_ok_free_id [simp]: "pid_ok ids \<Longrightarrow> pid_ok (free_id i ids)"
  by (auto simp: pid_ok_def free_id_def)

lemma pid_ok_claim_id: "pid_ok ids \<Longrightarrow> i \<noteq> 0 \<Longrightarrow> pid_ok (fst (claim_id t i ids h))"
  by (auto simp: pid_ok_def claim_id_def Let_def)

lemma pid_ok_clean_up [simp]: "pid_ok ids \<Longrightarrow> pid_ok (fst (clean_up ids h))"
  by (auto simp: pid_ok_def clean_up_def)

subsection \<open>The table as a pool of identifiers\<close>

text \<open>
  What the client's operations and the handlers of the server's answers rely on: an acquired
  identifier was not in use and now carries the operation's token, and nothing else changes.
\<close>

locale id_pool =
  fixes lookup :: "'s \<Rightarrow> u16 \<Rightarrow> 't option"
    and acquire :: "'t \<Rightarrow> 's \<Rightarrow> (u16 \<times> 's) outcome"
    and release :: "u16 \<Rightarrow> 's \<Rightarrow> 's"
    and invar :: "'s \<Rightarrow> bool"
  assumes invar_acquire: "invar s \<Longrightarrow> acquire t s = Done (i, s') \<Longrightarrow> invar s'"
    and invar_release: "invar s \<Longrightarrow> invar (release i s)"
    and lookup_zero: "invar s \<Longrightarrow> lookup s 0 = None"
    and acquire_vacant: "acquire t s = Done (i, s') \<Longrightarrow> i \<noteq> 0 \<Longrightarrow> lookup s i = None"
    and acquire_lookup: "acquire t s = Done (i, s') \<Longrightarrow> i \<noteq> 0 \<Longrightarrow> lookup s' = (lookup s)(i \<mapsto> t)"
    and acquire_none: "acquire t s = Done (0, s') \<Longrightarrow> s' = s"
    and release_lookup: "lookup (release i s) = (lookup s)(i := None)"
begin

lemma acquire_twice:
  assumes "acquire t s = Done (i, s1)" "acquire u s1 = Done (j, s2)" "i \<noteq> 0" "j \<noteq> 0"
  shows "i \<noteq> j \<and> lookup s2 i = Some t \<and> lookup s2 j = Some u"
proof -
  have s1: "lookup s1 = (lookup s)(i \<mapsto> t)" using assms(1,3) by (rule acquire_lookup)
  have "lookup s1 j = None" using assms(2,4) by (rule acquire_vacant)
  with s1 have "i \<noteq> j" by auto
  with s1 acquire_lookup[OF assms(2,4)] show ?thesis by simp
qed

lemma acquire_keeps:
  "acquire t s = Done (i, s') \<Longrightarrow> lookup s k = Some u \<Longrightarrow> lookup s' k = Some u"
  using acquire_vacant[of t s i s'] acquire_lookup[of t s i s'] acquire_none[of t s s']
  by (cases "i = 0") auto

lemma release_acquire:
  "acquire t s = Done (i, s') \<Longrightarrow> i \<noteq> 0 \<Longrightarrow> lookup (release i s') = lookup s"
  using acquire_vacant[of t s i s'] by (simp add: release_lookup acquire_lookup fun_upd_idem)

end

interpretation pid: id_pool "\<lambda>ids. map_of (index ids)" "get_id checks" free_id pid_ok
  for checks
proof unfold_locales
  fix t s i s'
  assume get: "get_id checks t s = Done (i, s')"
  note D = get_id_Done[OF get]
  show "pid_ok s \<Longrightarrow> pid_ok s'" using get by (rule pid_ok_get_id[rotated])
  show "i \<noteq> 0 \<Longrightarrow> map_of (index s) i = None" using D by simp
  show "i \<noteq> 0 \<Longrightarrow> map_of (index s') = (map_of (index s))(i \<mapsto> t)" using D by simp
next
  fix t s s'
  assume "get_id checks t s = Done (0, s')"
  then show "s' = s" using get_id_Done[of checks t s 0 s'] by simp
qed (simp_all add: free_id_def pid_ok_def)

subsection \<open>Cleaning up\<close>

definition settle_lost :: "inner_token \<Rightarrow> inner_token" where
  "settle_lost c = c\<lparr>tok_error := Some ConnectionLost, tok_state := \<lparr>complete = True, waker = None\<rparr>\<rparr>"

lemma cells_set_error_all:
  "cells (fold (token_set_error ConnectionLost) ts h) a =
     (if a \<in> token_addr ` set ts then map_option settle_lost (cells h a) else cells h a)"
proof (induction ts arbitrary: h)
  case (Cons t ts)
  have idem: "settle_lost (settle_lost c) = settle_lost c" for c by (simp add: settle_lost_def)
  have "cells (tok_set_error ConnectionLost b h) a =
      (if a = b then map_option settle_lost (cells h a) else cells h a)" for b
    by (auto simp: tok_set_error_def settle_lost_def split: option.split)
  with Cons.IH show ?case
    by (auto simp: option.map_comp o_def idem)
qed simp

lemma next_addr_set_error_all [simp]:
  "next_addr (fold (token_set_error e) ts h) = next_addr h"
  by (induction ts arbitrary: h) (simp_all add: tok_simps)

subsection \<open>Properties\<close>

text \<open>
  C4. In a release build \<open>get_id\<close> always returns, with the first vacant identifier in cyclic order
  after the one issued last, never 0 while any of the 65535 identifiers is vacant; it then binds the
  token to it and remembers it. With no vacant identifier it returns 0 and changes nothing.
\<close>

theorem get_id_next_vacant:
  "\<exists>r ids'. get_id False t ids = Done (r, ids') \<and>
     r = first_vacant (index ids) (cyclic_ids (last_issued_id ids)) \<and>
     set (cyclic_ids (last_issued_id ids)) = {1..65535} \<and>
     (if \<exists>n. n \<in> {1..65535} \<and> vacant (index ids) n
      then r \<noteq> 0 \<and> map_of (index ids) r = None \<and>
        ids' = \<lparr>index = AList.update r t (index ids), last_issued_id = r\<rparr>
      else r = 0 \<and> ids' = ids)"
proof -
  let ?r = "first_vacant (index ids) (cyclic_ids (last_issued_id ids))"
  have "?r = 0 \<longleftrightarrow> \<not> (\<exists>n. n \<in> {1..65535} \<and> vacant (index ids) n)"
    using first_vacant_0_iff[of "cyclic_ids (last_issued_id ids)" "index ids"]
    by (auto simp: set_cyclic_ids)
  then show ?thesis
    using first_vacant_free[of "index ids" "cyclic_ids (last_issued_id ids)"]
    by (auto simp: get_id_release Let_def set_cyclic_ids)
qed

text \<open>
  Two operations in flight never share an identifier: of two successive successful calls the
  second gives another identifier, and both tokens are found under their own.
\<close>

lemma get_id_unique_in_flight:
  assumes "get_id checks t ids = Done (i, ids1)" and "get_id checks u ids1 = Done (j, ids2)"
    and "i \<noteq> 0" and "j \<noteq> 0"
  shows "i \<noteq> j \<and> get_token i ids2 = Some t \<and> get_token j ids2 = Some u"
  unfolding get_token_def by (rule pid.acquire_twice[OF assms])

text \<open>
  C38. With overflow checks \<open>get_id\<close> panics exactly where the search would have to wrap: when every
  identifier above the one issued last is in use. Otherwise it agrees with the release build.
\<close>

theorem get_id_overflow_panics:
  assumes "pid_ok ids"
  shows "get_id True t ids =
    (if \<exists>n \<in> {Suc (unat (last_issued_id ids))..65535}. vacant (index ids) n
     then get_id False t ids else Panic)"
proof -
  let ?l = "last_issued_id ids"
  let ?ns = "[Suc (unat ?l)..<65536]"
  have l: "?l \<noteq> 0" using assms by (simp add: pid_ok_def)
  have set_ns: "set ?ns = {Suc (unat ?l)..65535}" by auto
  have "first_vacant (index ids) ?ns = first_vacant (index ids) (cyclic_ids ?l)"
    if "\<exists>n \<in> set ?ns. vacant (index ids) n"
  proof -
    have "first_vacant idx ns = first_vacant idx (ns @ ms)"
      if "\<exists>n \<in> set ns. vacant idx n" for idx ns ms
      using that by (induction ns) auto
    from this[OF that] show ?thesis by (simp add: cyclic_ids_def)
  qed
  then show ?thesis
    using get_id_loop_checked[OF l, of "index ids" ?l]
    unfolding get_id_def get_id_loop_cyclic set_ns by simp
qed

text \<open>
  \<open>clean_up\<close> empties the table and settles every token that was in it with \<open>ConnectionLost\<close>;
  no other token changes, and the cells do not depend on the order in which the \<open>HashMap\<close> is
  walked.
\<close>

lemma clean_up_settles_all:
  "index (fst (clean_up ids h)) = [] \<and>
   last_issued_id (fst (clean_up ids h)) = last_issued_id ids \<and>
   cells (snd (clean_up ids h)) = (\<lambda>a.
     if a \<in> token_addr ` snd ` set (index ids) then map_option settle_lost (cells h a)
     else cells h a)"
  by (auto simp: clean_up_def cells_set_error_all fun_eq_iff)

text \<open>
  Claiming an identifier in use completes the operation that held it without an error, and the
  identifier then belongs to the new token.
\<close>

lemma claim_id_displaces:
  assumes "map_of (index ids) i = Some old" and "tok_live h (token_addr old)"
  shows "get_token i (fst (claim_id t i ids h)) = Some t \<and>
    tok_done (snd (claim_id t i ids h)) (token_addr old) \<and>
    tok_err (snd (claim_id t i ids h)) (token_addr old) = tok_err h (token_addr old) \<and>
    i \<le> last_issued_id (fst (claim_id t i ids h))"
  using assms by (auto simp: claim_id_def get_token_def Let_def tok_simps)

subsection \<open>Witnesses\<close>

lemma get_id_new: "get_id False t packet_ids_new = Done (2, \<lparr>index = [(2, t)], last_issued_id = 2\<rparr>)"
  by (subst get_id_successor) (simp_all add: packet_ids_new_def PKID_MIN_def PKID_MAX_def)

lemma get_id_second:
  "get_id False t \<lparr>index = [(2, u)], last_issued_id = 2\<rparr> =
     Done (3, \<lparr>index = [(2, u), (3, t)], last_issued_id = 3\<rparr>)"
  by (subst get_id_successor) (simp_all add: PKID_MAX_def)

lemma get_id_overflow_panics_witness:
  "get_id True (Publish 0) \<lparr>index = [], last_issued_id = 65535\<rparr> = Panic"
proof -
  have "pid_ok \<lparr>index = [], last_issued_id = 65535\<rparr>" by (simp add: pid_ok_def)
  from get_id_overflow_panics[OF this, of "Publish 0"] show ?thesis by simp
qed

end
