(* ===== verification/Topic_Trie.thy ===== *)
theory Topic_Trie
  imports Topic_Store
begin

section \<open>Topic trie: the store behind the topic manager\<close>

text \<open>
  \<^verbatim>\<open>src/src/topic_trie.rs\<close>. A \<open>TrieNode\<close> is a node of the datatype \<open>trie_node\<close>, its
  \<open>HashMap\<close> of children an association list; each \<open>Arc<RwLock<TrieNode>>\<close> has one owner (its
  parent), so the tree is a value and a write lock is a functional update of the path to it. The
  loops that walk down a path and clean up on the way back are recursions over the tokens. The
  trie interprets the contract \<open>topic_store\<close>, and \<open>TopicManager\<close> is the store behind
  \<open>tokenize_topic\<close>.
\<close>

subsection \<open>Nodes\<close>

datatype trie_node =
  TrieNode (children: "(string \<times> trie_node) list") (node_subscriptions: "subscription list")

definition trie_node_new :: trie_node where
  "trie_node_new = TrieNode [] []"

definition mqtt_topic_trie_new :: trie_node where
  "mqtt_topic_trie_new = trie_node_new"

subsection \<open>Operations of MqttTopicTrie\<close>

text \<open>\<open>entry(token).or_insert_with\<close> creates the missing nodes of the path.\<close>

fun trie_insert :: "subscription \<Rightarrow> string list \<Rightarrow> trie_node \<Rightarrow> trie_node" where
  "trie_insert sub [] (TrieNode ch subs) = TrieNode ch (subs @ [sub])"
| "trie_insert sub (token # tokens) (TrieNode ch subs) =
     (let next_node = (case map_of ch token of None \<Rightarrow> trie_node_new | Some n \<Rightarrow> n) in
      TrieNode (AList.update token (trie_insert sub tokens next_node) ch) subs)"

definition is_dead :: "trie_node \<Rightarrow> bool" where
  "is_dead n \<longleftrightarrow> children n = [] \<and> node_subscriptions n = []"

text \<open>
  \<open>remove_path\<close> is \<open>None\<close> where a token of the path has no child (the early \<open>return false\<close>, before
  any change); on the way back a child that is left without children and subscriptions is
  removed from its parent.
\<close>

fun remove_path :: "string list \<Rightarrow> trie_node \<Rightarrow> trie_node option" where
  "remove_path [] (TrieNode ch subs) = Some (TrieNode ch [])"
| "remove_path (token # tokens) (TrieNode ch subs) =
     (case map_of ch token of
        None \<Rightarrow> None
      | Some next_node \<Rightarrow>
          (case remove_path tokens next_node of
             None \<Rightarrow> None
           | Some n \<Rightarrow>
               Some (TrieNode (if is_dead n then AList.delete token ch else AList.update token n ch)
                       subs)))"

definition trie_remove :: "string list \<Rightarrow> trie_node \<Rightarrow> bool \<times> trie_node" where
  "trie_remove tokens root =
     (case remove_path tokens root of None \<Rightarrow> (False, root) | Some root' \<Rightarrow> (True, root'))"

text \<open>\<open>match_topic\<close> at a level: the tokens are those from the level on.\<close>

fun trie_match_topic :: "trie_node \<Rightarrow> string list \<Rightarrow> subscription list" where
  "trie_match_topic (TrieNode ch subs) [] = subs"
| "trie_match_topic (TrieNode ch subs) (token # tokens) =
     (case map_of ch token of None \<Rightarrow> [] | Some n \<Rightarrow> trie_match_topic n tokens) @
     (case map_of ch plus_token of None \<Rightarrow> [] | Some n \<Rightarrow> trie_match_topic n tokens) @
     (case map_of ch hash_token of None \<Rightarrow> [] | Some n \<Rightarrow> node_subscriptions n)"

definition get_matching_subscriptions :: "string list \<Rightarrow> trie_node \<Rightarrow> subscription list" where
  "get_matching_subscriptions tokens root = trie_match_topic root tokens"

primrec clear_node :: "trie_node \<Rightarrow> trie_node" where
  "clear_node (TrieNode ch subs) = TrieNode (map (map_prod id clear_node) ch) []"

subsection \<open>The abstraction: what is stored under a filter\<close>

fun trie_subs_at :: "trie_node \<Rightarrow> string list \<Rightarrow> subscription list" where
  "trie_subs_at (TrieNode ch subs) [] = subs"
| "trie_subs_at (TrieNode ch subs) (f # fs) =
     (case map_of ch f of None \<Rightarrow> [] | Some n \<Rightarrow> trie_subs_at n fs)"

text \<open>Well-formedness: the keys of every children map are distinct.\<close>

fun trie_ok :: "trie_node \<Rightarrow> bool" where
  "trie_ok (TrieNode ch subs) \<longleftrightarrow> distinct_keys ch \<and> (\<forall>p \<in> set ch. trie_ok (snd p))"

text \<open>A pruned trie has no dead node below its root.\<close>

fun trie_pruned :: "trie_node \<Rightarrow> bool" where
  "trie_pruned (TrieNode ch subs) \<longleftrightarrow>
     (\<forall>p \<in> set ch. \<not> is_dead (snd p) \<and> trie_pruned (snd p))"

subsection \<open>Laws of the operations\<close>

lemma subs_at_root [trie_simps]: "trie_subs_at n [] = node_subscriptions n"
  by (cases n) simp

lemma subs_at_new [trie_simps]: "trie_subs_at trie_node_new q = []"
  by (cases q) (auto simp: trie_node_new_def)

lemma subs_at_dead: "is_dead n \<Longrightarrow> trie_subs_at n q = []"
  by (cases n; cases q) (auto simp: is_dead_def)

lemma subs_at_insert [trie_simps]:
  "trie_subs_at (trie_insert x p n) q = (if q = p then trie_subs_at n q @ [x] else trie_subs_at n q)"
proof (induction x p n arbitrary: q rule: trie_insert.induct)
  case (1 sub ch subs)
  then show ?case by (cases q) auto
next
  case (2 sub token tokens ch subs)
  then show ?case
    by (cases q) (auto simp: subs_at_new split: option.split)
qed

lemma subs_at_remove_Some:
  "remove_path p n = Some n' \<Longrightarrow> trie_subs_at n' q = (if q = p then [] else trie_subs_at n q)"
proof (induction p n arbitrary: q n' rule: remove_path.induct)
  case (1 ch subs)
  then show ?case by (cases q) auto
next
  case (2 token tokens ch subs)
  from "2.prems" obtain c c' where c: "map_of ch token = Some c" "remove_path tokens c = Some c'"
    and n': "n' = TrieNode (if is_dead c' then AList.delete token ch else AList.update token c' ch) subs"
    by (auto split: option.splits)
  note IH = "2.IH"[OF c]
  show ?case
  proof (cases q)
    case (Cons f fs)
    then show ?thesis
      using IH[of fs] subs_at_dead[of c' fs] c(1) by (auto simp: n')
  qed (simp add: n')
qed

lemma subs_at_remove_None: "remove_path p n = None \<Longrightarrow> trie_subs_at n p = []"
  by (induction p n rule: remove_path.induct) (auto split: option.splits)

lemma subs_at_remove [trie_simps]:
  "trie_subs_at (snd (trie_remove p n)) q = (if q = p then [] else trie_subs_at n q)"
  using subs_at_remove_None subs_at_remove_Some
  by (auto simp: trie_remove_def split: option.splits)

lemma map_of_map_prod_id: "map_of (map (map_prod id f) ch) k = map_option f (map_of ch k)"
  by (induction ch) auto

lemma subs_at_clear [trie_simps]: "trie_subs_at (clear_node n) q = []"
  by (induction n q rule: trie_subs_at.induct)
    (auto simp: map_of_map_prod_id split: option.split)

text \<open>
  The recursive search returns what a scan of all the matching filters returns, in the same
  order and with the same repetitions.
\<close>

lemma match_topic_candidates [trie_simps]:
  "trie_match_topic n ts = concat (map (trie_subs_at n) (candidate_filters ts))"
proof (induction n ts rule: trie_match_topic.induct)
  case (2 ch subs token tokens)
  have descend: "concat (map (trie_subs_at (TrieNode ch subs)) (map ((#) k) fs)) =
      (case map_of ch k of None \<Rightarrow> [] | Some n \<Rightarrow> concat (map (trie_subs_at n) fs))" for k fs
    by (cases "map_of ch k") (auto simp: o_def)
  show ?case
    using "2.IH" by (auto simp: descend subs_at_root split: option.split simp del: map_map)
qed simp

subsection \<open>Structural invariants\<close>

lemma trie_ok_new [simp]: "trie_ok trie_node_new" "trie_pruned trie_node_new"
  by (simp_all add: trie_node_new_def)

lemma set_update_subset: "set (AList.update k v m) \<subseteq> insert (k, v) (set m)"
  by (induction m) auto

lemma set_delete_subset: "set (AList.delete k m) \<subseteq> set m"
  by (induction m) auto

lemma map_of_snd: "map_of m k = Some v \<Longrightarrow> \<exists>p \<in> set m. snd p = v"
  by (force dest: map_of_SomeD)

lemma trie_ok_insert: "trie_ok n \<Longrightarrow> trie_ok (trie_insert x p n)"
proof (induction x p n rule: trie_insert.induct)
  case (2 sub token tokens ch subs)
  let ?n = "case map_of ch token of None \<Rightarrow> trie_node_new | Some n \<Rightarrow> n"
  have "trie_ok ?n"
    using "2.prems" map_of_snd[of ch token] by (auto split: option.split)
  then have "trie_ok (trie_insert sub tokens ?n)"
    using "2.IH" by simp
  then show ?case
    using "2.prems" set_update_subset[of token "trie_insert sub tokens ?n" ch] by (auto simp: Let_def)
qed simp

lemma insert_not_dead: "\<not> is_dead (trie_insert x p n)"
  by (cases "(x, p, n)" rule: trie_insert.cases) (auto simp: is_dead_def Let_def)

lemma trie_pruned_insert: "trie_pruned n \<Longrightarrow> trie_pruned (trie_insert x p n)"
proof (induction x p n rule: trie_insert.induct)
  case (2 sub token tokens ch subs)
  let ?n = "case map_of ch token of None \<Rightarrow> trie_node_new | Some n \<Rightarrow> n"
  have "trie_pruned ?n"
    using "2.prems" map_of_snd[of ch token] by (auto split: option.split)
  then have "trie_pruned (trie_insert sub tokens ?n)"
    using "2.IH" by simp
  then show ?case
    using "2.prems" set_update_subset[of token "trie_insert sub tokens ?n" ch] insert_not_dead
    by (auto simp: Let_def)
qed simp

lemma trie_ok_remove_path: "remove_path p n = Some n' \<Longrightarrow> trie_ok n \<Longrightarrow> trie_ok n'"
proof (induction p n arbitrary: n' rule: remove_path.induct)
  case (2 token tokens ch subs)
  from "2.prems"(1) obtain c c' where c: "map_of ch token = Some c" "remove_path tokens c = Some c'"
    and n': "n' = TrieNode (if is_dead c' then AList.delete token ch else AList.update token c' ch) subs"
    by (auto split: option.splits)
  have "trie_ok c'"
    using "2.IH"[OF c] "2.prems"(2) map_of_snd[OF c(1)] by auto
  then show ?case
    using "2.prems"(2) set_update_subset[of token c' ch] set_delete_subset[of token ch]
    by (auto simp: n')
qed auto

lemma trie_pruned_remove_path: "remove_path p n = Some n' \<Longrightarrow> trie_pruned n \<Longrightarrow> trie_pruned n'"
proof (induction p n arbitrary: n' rule: remove_path.induct)
  case (2 token tokens ch subs)
  from "2.prems"(1) obtain c c' where c: "map_of ch token = Some c" "remove_path tokens c = Some c'"
    and n': "n' = TrieNode (if is_dead c' then AList.delete token ch else AList.update token c' ch) subs"
    by (auto split: option.splits)
  have "trie_pruned c'"
    using "2.IH"[OF c] "2.prems"(2) map_of_snd[OF c(1)] by auto
  then show ?case
    using "2.prems"(2) set_update_subset[of token c' ch] set_delete_subset[of token ch]
    by (auto simp: n')
qed auto

lemma trie_ok_remove: "trie_ok n \<Longrightarrow> trie_ok (snd (trie_remove p n))"
  by (auto simp: trie_remove_def trie_ok_remove_path split: option.split)

lemma trie_pruned_remove: "trie_pruned n \<Longrightarrow> trie_pruned (snd (trie_remove p n))"
  by (auto simp: trie_remove_def trie_pruned_remove_path split: option.split)

lemma trie_ok_clear: "trie_ok n \<Longrightarrow> trie_ok (clear_node n)"
  by (induction n rule: trie_ok.induct) (auto simp: distinct_keys_def o_def)

text \<open>Where nothing was stored, inserting and removing gives the pruned trie back as it was.\<close>

lemma dead_subs: "is_dead (TrieNode ch []) \<longleftrightarrow> ch = []"
  by (simp add: is_dead_def)

lemma remove_insert_new:
  "remove_path p (trie_insert x p trie_node_new) = Some trie_node_new"
  by (induction p) (auto simp: trie_node_new_def is_dead_def)

lemma remove_insert:
  "trie_pruned n \<Longrightarrow> trie_subs_at n p = [] \<Longrightarrow> remove_path p (trie_insert x p n) = Some n"
proof (induction x p n rule: trie_insert.induct)
  case (2 sub token tokens ch subs)
  show ?case
  proof (cases "map_of ch token")
    case None
    then show ?thesis
      using remove_insert_new[of tokens sub]
      by (simp add: delete_update_fresh) (simp add: is_dead_def trie_node_new_def)
  next
    case (Some c)
    then have "\<not> is_dead c" "trie_pruned c"
      using "2.prems"(1) map_of_snd[OF Some] by auto
    with Some "2.IH" "2.prems"(2) show ?thesis
      by (simp add: update_triv)
  qed
qed simp

lemma remove_insert_found: "remove_path p (trie_insert x p n) \<noteq> None"
  by (induction x p n rule: trie_insert.induct) (auto simp: Let_def)

subsection \<open>TopicStore for MqttTopicTrie\<close>

definition trie_clear :: "trie_node \<Rightarrow> trie_node" where
  "trie_clear root = clear_node root"

definition trie_add_subscription :: "subscription \<Rightarrow> string list \<Rightarrow> trie_node \<Rightarrow> trie_node" where
  "trie_add_subscription x tokens root = trie_insert x tokens root"

definition trie_remove_subscription :: "string list \<Rightarrow> trie_node \<Rightarrow> bool \<times> trie_node" where
  "trie_remove_subscription tokens root = trie_remove tokens root"

definition trie_get_match_subscriptions :: "string list \<Rightarrow> trie_node \<Rightarrow> subscription list" where
  "trie_get_match_subscriptions tokens root = get_matching_subscriptions tokens root"

definition trie_clear_subscriptions :: "trie_node \<Rightarrow> trie_node" where
  "trie_clear_subscriptions root = trie_clear root"

lemmas trie_store_defs = trie_add_subscription_def trie_remove_subscription_def trie_get_match_subscriptions_def
  trie_clear_subscriptions_def trie_clear_def

interpretation trie: topic_store mqtt_topic_trie_new trie_add_subscription trie_remove_subscription
  trie_get_match_subscriptions trie_clear_subscriptions trie_subs_at trie_ok
proof unfold_locales
  fix n p
  assume "\<not> fst (trie_remove_subscription p n)"
  then show "trie_subs_at n p = [] \<and> snd (trie_remove_subscription p n) = n"
    using subs_at_remove_None[of p n] by (auto simp: trie_store_defs trie_remove_def split: option.splits)
qed (simp_all add: trie_store_defs mqtt_topic_trie_new_def trie_simps trie_ok_insert trie_ok_remove trie_ok_clear
    get_matching_subscriptions_def)

subsection \<open>TopicManager\<close>

type_synonym topic_manager = trie_node

definition tokenize_topic :: "string \<Rightarrow> string list" where
  "tokenize_topic topic = split_on (CHR ''/'') topic"

definition topic_manager_new :: topic_manager where
  "topic_manager_new = mqtt_topic_trie_new"

definition tm_add :: "subscription \<Rightarrow> topic_manager \<Rightarrow> topic_manager" where
  "tm_add x m = trie_add_subscription x (tokenize_topic (sub_topic x)) m"

definition tm_remove :: "string \<Rightarrow> topic_manager \<Rightarrow> bool \<times> topic_manager" where
  "tm_remove topic m = trie_remove_subscription (tokenize_topic topic) m"

definition tm_match_topic :: "string \<Rightarrow> topic_manager \<Rightarrow> subscription list" where
  "tm_match_topic topic m = trie_get_match_subscriptions (tokenize_topic topic) m"

definition tm_clear :: "topic_manager \<Rightarrow> topic_manager" where
  "tm_clear m = trie_clear_subscriptions m"

lemmas tm_defs = tm_add_def tm_remove_def tm_match_topic_def tm_clear_def topic_manager_new_def
  mqtt_topic_trie_new_def trie_store_defs

text \<open>What is stored under a filter, by the filter's text.\<close>

definition tm_subs_at :: "topic_manager \<Rightarrow> string \<Rightarrow> subscription list" where
  "tm_subs_at m f = trie_subs_at m (tokenize_topic f)"

lemma tokenize_topic_inj: "tokenize_topic f = tokenize_topic g \<longleftrightarrow> f = g"
  by (simp add: tokenize_topic_def split_on_inj)

lemma tm_subs_at_new [simp]: "tm_subs_at topic_manager_new f = []"
  by (simp add: tm_subs_at_def tm_defs trie_simps)

lemma tm_subs_at_add [simp]:
  "tm_subs_at (tm_add x m) f = (if f = sub_topic x then tm_subs_at m f @ [x] else tm_subs_at m f)"
  by (simp add: tm_subs_at_def tm_defs trie_simps tokenize_topic_inj)

lemma tm_subs_at_remove [simp]:
  "tm_subs_at (snd (tm_remove g m)) f = (if f = g then [] else tm_subs_at m f)"
  by (simp add: tm_subs_at_def tm_defs trie_simps tokenize_topic_inj)

lemma tm_subs_at_clear [simp]: "tm_subs_at (tm_clear m) f = []"
  by (simp add: tm_subs_at_def tm_defs trie_simps)

definition filter_text_matches :: "string \<Rightarrow> string \<Rightarrow> bool" where
  "filter_text_matches f topic \<longleftrightarrow> filter_matches (tokenize_topic f) (tokenize_topic topic)"

text \<open>The texts of the filters that match a topic, in the order of the search.\<close>

definition candidate_texts :: "string \<Rightarrow> string list" where
  "candidate_texts topic = map (join_with (CHR ''/'')) (candidate_filters (tokenize_topic topic))"

lemma candidate_tokens:
  "f \<in> set (candidate_filters ts) \<Longrightarrow> set f \<subseteq> set ts \<union> {plus_token, hash_token}"
proof (induction ts arbitrary: f)
  case (Cons t ts)
  then show ?case by fastforce
qed simp

lemma candidate_nonempty: "ts \<noteq> [] \<Longrightarrow> f \<in> set (candidate_filters ts) \<Longrightarrow> f \<noteq> []"
  by (cases ts) auto

lemma tokenize_candidate:
  assumes "f \<in> set (candidate_filters (tokenize_topic topic))"
  shows "tokenize_topic (join_with (CHR ''/'') f) = f"
proof -
  have "\<forall>p \<in> set f. CHR ''/'' \<notin> set p"
    using candidate_tokens[OF assms] split_on_no_sep[of _ "CHR ''/''" topic]
    by (auto simp: tokenize_topic_def)
  moreover have "f \<noteq> []"
    using candidate_nonempty[OF _ assms] by (simp add: tokenize_topic_def)
  ultimately show ?thesis by (simp add: tokenize_topic_def split_join)
qed

lemma tm_match_candidates:
  "tm_match_topic topic m = concat (map (tm_subs_at m) (candidate_texts topic))"
proof -
  have "map (tm_subs_at m) (candidate_texts topic) =
      map (trie_subs_at m) (candidate_filters (tokenize_topic topic))"
    by (simp add: candidate_texts_def tm_subs_at_def tokenize_candidate cong: map_cong)
  then show ?thesis
    by (simp add: tm_defs get_matching_subscriptions_def trie_simps)
qed

lemma candidate_texts_iff: "f \<in> set (candidate_texts topic) \<longleftrightarrow> filter_text_matches f topic"
proof
  assume "f \<in> set (candidate_texts topic)"
  then obtain g where "f = join_with (CHR ''/'') g" "g \<in> set (candidate_filters (tokenize_topic topic))"
    by (auto simp: candidate_texts_def)
  then show "filter_text_matches f topic"
    by (simp add: filter_text_matches_def tokenize_candidate candidate_filters_iff)
next
  assume "filter_text_matches f topic"
  then have "tokenize_topic f \<in> set (candidate_filters (tokenize_topic topic))"
    by (simp add: filter_text_matches_def candidate_filters_iff)
  then have "join_with (CHR ''/'') (tokenize_topic f) \<in> set (candidate_texts topic)"
    by (simp add: candidate_texts_def)
  then show "f \<in> set (candidate_texts topic)"
    by (simp add: tokenize_topic_def)
qed

lemma tm_match_iff:
  "x \<in> set (tm_match_topic topic m) \<longleftrightarrow> (\<exists>f. filter_text_matches f topic \<and> x \<in> set (tm_subs_at m f))"
  by (auto simp: tm_match_candidates candidate_texts_iff)

subsection \<open>Runs of the manager and their specification\<close>

datatype tm_op = TmAdd subscription | TmRemove string | TmClear

fun tm_step :: "tm_op \<Rightarrow> topic_manager \<Rightarrow> topic_manager" where
  "tm_step (TmAdd x) m = tm_add x m"
| "tm_step (TmRemove f) m = snd (tm_remove f m)"
| "tm_step TmClear m = tm_clear m"

definition tm_run :: "tm_op list \<Rightarrow> topic_manager \<Rightarrow> topic_manager" where
  "tm_run ops m = fold tm_step ops m"

text \<open>The contract: a table from the text of a filter to the subscriptions added under it.\<close>

fun table_step :: "tm_op \<Rightarrow> (string \<Rightarrow> subscription list) \<Rightarrow> string \<Rightarrow> subscription list" where
  "table_step (TmAdd x) S = S(sub_topic x := S (sub_topic x) @ [x])"
| "table_step (TmRemove f) S = S(f := [])"
| "table_step TmClear S = (\<lambda>_. [])"

lemma tm_step_table: "tm_subs_at (tm_step op m) = table_step op (tm_subs_at m)"
  by (cases op) (auto simp: fun_eq_iff)

lemma tm_run_table: "tm_subs_at (tm_run ops m) = fold table_step ops (tm_subs_at m)"
  unfolding tm_run_def by (induction ops arbitrary: m) (simp_all add: tm_step_table)

lemma tm_step_ok: "trie_ok m \<Longrightarrow> trie_ok (tm_step op m)"
  by (cases op) (simp_all add: tm_defs trie_ok_insert trie_ok_remove trie_ok_clear)

lemma tm_run_ok: "trie_ok m \<Longrightarrow> trie_ok (tm_run ops m)"
  unfolding tm_run_def by (induction ops arbitrary: m) (simp_all add: tm_step_ok)

lemma topic_manager_new_ok [simp]: "trie_ok topic_manager_new" "trie_pruned topic_manager_new"
  by (simp_all add: tm_defs)

subsection \<open>Properties\<close>

text \<open>
  C3. The topic manager implements a table from filters to subscriptions: after any sequence of
  additions, removals and clears, looking a topic up in the trie returns, in the order of the
  search and with all repetitions, the table's subscriptions of the filters that match the topic;
  and the keys of every node stay distinct.
\<close>

theorem topic_manager_refines_table:
  "tm_match_topic topic (tm_run ops topic_manager_new) =
     concat (map (fold table_step ops (\<lambda>_. [])) (candidate_texts topic)) \<and>
   set (candidate_texts topic) = {f. filter_text_matches f topic} \<and>
   trie_ok (tm_run ops topic_manager_new)"
proof (intro conjI)
  have "tm_subs_at topic_manager_new = (\<lambda>_. [])" by (simp add: fun_eq_iff)
  then show "tm_match_topic topic (tm_run ops topic_manager_new) =
      concat (map (fold table_step ops (\<lambda>_. [])) (candidate_texts topic))"
    by (simp add: tm_match_candidates tm_run_table)
  show "set (candidate_texts topic) = {f. filter_text_matches f topic}"
    by (auto simp: candidate_texts_iff)
qed (simp add: tm_run_ok)

text \<open>
  On a topic without wildcard levels, adding a subscription adds exactly one delivery to its
  matching topics and none to the others, and changes no other subscription's deliveries.
\<close>

lemma tm_add_delivers_once:
  assumes "trie_ok m" and "wildcard_free (tokenize_topic topic)"
  shows "count_list (tm_match_topic topic (tm_add x m)) y =
    count_list (tm_match_topic topic m) y +
    (if filter_text_matches (sub_topic x) topic \<and> x = y then 1 else 0)"
  using trie.match_add_count[OF assms, of x "tokenize_topic (sub_topic x)" y]
  by (simp add: tm_add_def tm_match_topic_def filter_text_matches_def)

text \<open>
  After a removal a topic reaches exactly the subscriptions stored under other filters that
  match it: nothing that was stored under the removed filter, and everything else.
\<close>

lemma tm_remove_exact:
  "x \<in> set (tm_match_topic topic (snd (tm_remove f m))) \<longleftrightarrow>
     (\<exists>g. g \<noteq> f \<and> filter_text_matches g topic \<and> x \<in> set (tm_subs_at m g))"
  by (auto simp: tm_match_iff split: if_splits)

text \<open>
  C40. Adding a subscription under an unused filter and removing the filter again is found to remove something and
  restores every lookup, with its order, whatever the trie. Where the trie has no dead node, as before its first \<open>clear\<close>,
  it restores the trie itself: no node of the path is left behind.
\<close>

theorem tm_remove_add_restores:
  assumes "tm_subs_at m (sub_topic x) = []"
  shows "fst (tm_remove (sub_topic x) (tm_add x m)) \<and>
    (\<forall>topic. tm_match_topic topic (snd (tm_remove (sub_topic x) (tm_add x m))) = tm_match_topic topic m) \<and>
    (trie_pruned m \<longrightarrow> snd (tm_remove (sub_topic x) (tm_add x m)) = m)"
proof (intro conjI allI impI)
  show "fst (tm_remove (sub_topic x) (tm_add x m))"
    using remove_insert_found by (simp add: tm_defs trie_remove_def split: option.split)
  have "tm_subs_at (snd (tm_remove (sub_topic x) (tm_add x m))) = tm_subs_at m" using assms by auto
  then show "tm_match_topic topic (snd (tm_remove (sub_topic x) (tm_add x m))) = tm_match_topic topic m" for topic
    by (simp only: tm_match_candidates)
  show "snd (tm_remove (sub_topic x) (tm_add x m)) = m" if "trie_pruned m"
    using remove_insert[OF that, of "tokenize_topic (sub_topic x)" x] assms
    by (simp add: tm_defs tm_subs_at_def trie_remove_def)
qed

text \<open>
  C37. The multi-level wildcard does not match its parent level: a subscription to a topic
  followed by \<open>/#\<close> is not found for that topic, where the MQTT rule matches it.
\<close>

theorem tm_hash_misses_parent:
  assumes "wildcard_free (tokenize_topic g)"
  shows "tm_match_topic g (tm_add (subscription_new (g @ ''/#'') q h) topic_manager_new) = [] \<and>
    mqtt_matches (tokenize_topic (g @ ''/#'')) (tokenize_topic g)"
proof -
  have tok: "tokenize_topic (g @ ''/#'') = tokenize_topic g @ [hash_token]"
    by (simp add: tokenize_topic_def split_on_append)
  have "length f \<le> length ts" if "filter_matches f ts" for f ts
    using that by (induction f ts rule: filter_matches.induct) auto
  then have "\<not> filter_matches (tokenize_topic g @ [hash_token]) (tokenize_topic g)"
    by fastforce
  then have "tm_match_topic g (tm_add (subscription_new (g @ ''/#'') q h) topic_manager_new) = []"
    using tok by (auto simp: tm_match_candidates candidate_texts_iff filter_text_matches_def)
  moreover have "mqtt_matches (tokenize_topic g @ [hash_token]) (tokenize_topic g)"
    using assms by (simp add: mqtt_matches_hash wildcard_free_def wildcard_free_self)
  ultimately show ?thesis by (simp add: tok)
qed

subsection \<open>Witnesses\<close>

lemma tm_remove_add_restores_witness:
  "\<not> trie_pruned (tm_clear (tm_add (subscription_new ''a/b'' Level0 1) topic_manager_new)) \<and>
   fst (tm_remove ''a/c'' (tm_add (subscription_new ''a/c'' Level0 1)
     (tm_clear (tm_add (subscription_new ''a/b'' Level0 1) topic_manager_new))))"
proof -
  have "\<not> trie_pruned (tm_clear (tm_add (subscription_new ''a/b'' Level0 1) topic_manager_new))"
    by (simp add: tm_defs tokenize_topic_def trie_node_new_def mqtt_topic_trie_new_def subscription_new_def is_dead_def)
  with tm_remove_add_restores[of "tm_clear (tm_add (subscription_new ''a/b'' Level0 1) topic_manager_new)"
      "subscription_new ''a/c'' Level0 1"]
  show ?thesis by simp
qed

lemma tm_hash_misses_parent_witness:
  "tm_match_topic ''sport'' (tm_add (subscription_new (''sport'' @ ''/#'') Level0 3) topic_manager_new) = []"
proof -
  have "wildcard_free (tokenize_topic ''sport'')"
    by (simp add: wildcard_free_def tokenize_topic_def)
  from tm_hash_misses_parent[OF this, of Level0 3] show ?thesis by (rule conjunct1)
qed

end
