(* ===== verification/Client_State.thy ===== *)
theory Client_State
  imports Packet_Ids Topic_Trie
begin

section \<open>The shared state of a connection\<close>

text \<open>
  \<^verbatim>\<open>src/src/state.rs\<close>. The struct \<open>State\<close>, shared by the client and its tasks through an
  \<open>Arc\<close>, is the record \<open>state\<close>. It extends the record \<open>heap\<close> of token cells, so that the token
  operations act on it as they are. \<open>outgoing_tx\<close> names the channel (by connection number).
  Two fields are traces of what the code hands to the runtime: \<open>spawned\<close>, the handler calls
  given to \<open>tokio::spawn\<close>, and \<open>outgoing\<close>, what the outgoing channel accepted. Each access under
  one mutex is one step of the model.
\<close>

type_synonym instant = nat
type_synonym duration = nat

record 'c state = heap +
  packet_ids :: packet_ids
  topic_manager :: topic_manager
  subscriptions :: "(string \<times> subscription) list"
  pending_packets :: 'c
  outgoing_tx :: "nat option"
  last_sent_packet_at :: instant
  spawned :: "(handler \<times> message) list"
  outgoing :: "packet_and_token list"

text \<open>\<open>State::new()\<close> at a time \<open>now\<close>, over the heap of a running client.\<close>

definition state_new :: "'c libs \<Rightarrow> instant \<Rightarrow> heap \<Rightarrow> 'c state" where
  "state_new K now h =
     heap.extend h
       \<lparr>packet_ids = packet_ids_new, topic_manager = topic_manager_new, subscriptions = [],
        pending_packets = cache_new K, outgoing_tx = None, last_sent_packet_at = now,
        spawned = [], outgoing = []\<rparr>"

subsection \<open>Small updates\<close>

definition send_outgoing :: "bool \<Rightarrow> packet_and_token \<Rightarrow> ('c, 'a) state_scheme \<Rightarrow> ('c, 'a) state_scheme" where
  "send_outgoing ok pt s = (if ok then s\<lparr>outgoing := outgoing s @ [pt]\<rparr> else s)"

text \<open>The loop that spawns one task per matched subscription.\<close>

definition spawn_handlers :: "subscription list \<Rightarrow> message \<Rightarrow> ('c, 'a) state_scheme \<Rightarrow> ('c, 'a) state_scheme" where
  "spawn_handlers subs msg s = s\<lparr>spawned := spawned s @ map (\<lambda>x. (sub_handler x, msg)) subs\<rparr>"

subsection \<open>Token operations leave the other fields alone\<close>

lemma tok_set_error_frame [simp]:
  "packet_ids (tok_set_error e a s) = packet_ids s"
  "topic_manager (tok_set_error e a s) = topic_manager s"
  "subscriptions (tok_set_error e a s) = subscriptions s"
  "pending_packets (tok_set_error e a s) = pending_packets s"
  "outgoing_tx (tok_set_error e a s) = outgoing_tx s"
  "last_sent_packet_at (tok_set_error e a s) = last_sent_packet_at s"
  "spawned (tok_set_error e a s) = spawned s"
  "outgoing (tok_set_error e a s) = outgoing s"
  "state.more (tok_set_error e a s) = state.more s"
  by (simp_all add: tok_set_error_def split: option.split)

lemma tok_flow_complete_frame [simp]:
  "packet_ids (tok_flow_complete a s) = packet_ids s"
  "topic_manager (tok_flow_complete a s) = topic_manager s"
  "subscriptions (tok_flow_complete a s) = subscriptions s"
  "pending_packets (tok_flow_complete a s) = pending_packets s"
  "outgoing_tx (tok_flow_complete a s) = outgoing_tx s"
  "last_sent_packet_at (tok_flow_complete a s) = last_sent_packet_at s"
  "spawned (tok_flow_complete a s) = spawned s"
  "outgoing (tok_flow_complete a s) = outgoing s"
  "state.more (tok_flow_complete a s) = state.more s"
  by (simp_all add: tok_flow_complete_def split: option.split)

lemma map_data_frame [simp]:
  "packet_ids (map_data f a s) = packet_ids s"
  "topic_manager (map_data f a s) = topic_manager s"
  "subscriptions (map_data f a s) = subscriptions s"
  "pending_packets (map_data f a s) = pending_packets s"
  "outgoing_tx (map_data f a s) = outgoing_tx s"
  "last_sent_packet_at (map_data f a s) = last_sent_packet_at s"
  "spawned (map_data f a s) = spawned s"
  "outgoing (map_data f a s) = outgoing s"
  "state.more (map_data f a s) = state.more s"
  by (simp_all add: map_data_def split: option.split)

lemma new_token_frame [simp]:
  "packet_ids (snd (new_token d s)) = packet_ids s"
  "topic_manager (snd (new_token d s)) = topic_manager s"
  "subscriptions (snd (new_token d s)) = subscriptions s"
  "pending_packets (snd (new_token d s)) = pending_packets s"
  "outgoing_tx (snd (new_token d s)) = outgoing_tx s"
  "last_sent_packet_at (snd (new_token d s)) = last_sent_packet_at s"
  "spawned (snd (new_token d s)) = spawned s"
  "outgoing (snd (new_token d s)) = outgoing s"
  "state.more (snd (new_token d s)) = state.more s"
  by (simp_all add: new_token_def)

text \<open>And updates of the other fields leave the tokens alone.\<close>

lemma tok_view_updates [simp]:
  "tok_live (s\<lparr>packet_ids := x1\<rparr>) a = tok_live s a"
  "tok_live (s\<lparr>topic_manager := x2\<rparr>) a = tok_live s a"
  "tok_live (s\<lparr>subscriptions := x3\<rparr>) a = tok_live s a"
  "tok_live (s\<lparr>pending_packets := x4\<rparr>) a = tok_live s a"
  "tok_live (s\<lparr>outgoing_tx := x5\<rparr>) a = tok_live s a"
  "tok_live (s\<lparr>last_sent_packet_at := x6\<rparr>) a = tok_live s a"
  "tok_live (s\<lparr>spawned := x7\<rparr>) a = tok_live s a"
  "tok_live (s\<lparr>outgoing := x8\<rparr>) a = tok_live s a"
  "tok_done (s\<lparr>packet_ids := x1\<rparr>) a = tok_done s a"
  "tok_done (s\<lparr>topic_manager := x2\<rparr>) a = tok_done s a"
  "tok_done (s\<lparr>subscriptions := x3\<rparr>) a = tok_done s a"
  "tok_done (s\<lparr>pending_packets := x4\<rparr>) a = tok_done s a"
  "tok_done (s\<lparr>outgoing_tx := x5\<rparr>) a = tok_done s a"
  "tok_done (s\<lparr>last_sent_packet_at := x6\<rparr>) a = tok_done s a"
  "tok_done (s\<lparr>spawned := x7\<rparr>) a = tok_done s a"
  "tok_done (s\<lparr>outgoing := x8\<rparr>) a = tok_done s a"
  "tok_err (s\<lparr>packet_ids := x1\<rparr>) a = tok_err s a"
  "tok_err (s\<lparr>topic_manager := x2\<rparr>) a = tok_err s a"
  "tok_err (s\<lparr>subscriptions := x3\<rparr>) a = tok_err s a"
  "tok_err (s\<lparr>pending_packets := x4\<rparr>) a = tok_err s a"
  "tok_err (s\<lparr>outgoing_tx := x5\<rparr>) a = tok_err s a"
  "tok_err (s\<lparr>last_sent_packet_at := x6\<rparr>) a = tok_err s a"
  "tok_err (s\<lparr>spawned := x7\<rparr>) a = tok_err s a"
  "tok_err (s\<lparr>outgoing := x8\<rparr>) a = tok_err s a"
  "data_at (s\<lparr>packet_ids := x1\<rparr>) a = data_at s a"
  "data_at (s\<lparr>topic_manager := x2\<rparr>) a = data_at s a"
  "data_at (s\<lparr>subscriptions := x3\<rparr>) a = data_at s a"
  "data_at (s\<lparr>pending_packets := x4\<rparr>) a = data_at s a"
  "data_at (s\<lparr>outgoing_tx := x5\<rparr>) a = data_at s a"
  "data_at (s\<lparr>last_sent_packet_at := x6\<rparr>) a = data_at s a"
  "data_at (s\<lparr>spawned := x7\<rparr>) a = data_at s a"
  "data_at (s\<lparr>outgoing := x8\<rparr>) a = data_at s a"
  by (simp_all add: tok_view_defs)

lemma send_outgoing_frame [simp]:
  "packet_ids (send_outgoing ok pt s) = packet_ids s"
  "topic_manager (send_outgoing ok pt s) = topic_manager s"
  "subscriptions (send_outgoing ok pt s) = subscriptions s"
  "pending_packets (send_outgoing ok pt s) = pending_packets s"
  "outgoing_tx (send_outgoing ok pt s) = outgoing_tx s"
  "last_sent_packet_at (send_outgoing ok pt s) = last_sent_packet_at s"
  "spawned (send_outgoing ok pt s) = spawned s"
  "outgoing (send_outgoing ok pt s) = (if ok then outgoing s @ [pt] else outgoing s)"
  "state.more (send_outgoing ok pt s) = state.more s"
  "cells (send_outgoing ok pt s) = cells s"
  "next_addr (send_outgoing ok pt s) = next_addr s"
  "woken (send_outgoing ok pt s) = woken s"
  by (simp_all add: send_outgoing_def)

lemma spawn_handlers_frame [simp]:
  "packet_ids (spawn_handlers subs msg s) = packet_ids s"
  "topic_manager (spawn_handlers subs msg s) = topic_manager s"
  "subscriptions (spawn_handlers subs msg s) = subscriptions s"
  "pending_packets (spawn_handlers subs msg s) = pending_packets s"
  "outgoing_tx (spawn_handlers subs msg s) = outgoing_tx s"
  "last_sent_packet_at (spawn_handlers subs msg s) = last_sent_packet_at s"
  "spawned (spawn_handlers subs msg s) = spawned s @ map (\<lambda>x. (sub_handler x, msg)) subs"
  "outgoing (spawn_handlers subs msg s) = outgoing s"
  "state.more (spawn_handlers subs msg s) = state.more s"
  "cells (spawn_handlers subs msg s) = cells s"
  "next_addr (spawn_handlers subs msg s) = next_addr s"
  "woken (spawn_handlers subs msg s) = woken s"
  by (simp_all add: spawn_handlers_def)

lemma tok_view_cells:
  "cells s = cells t \<Longrightarrow> tok_live s a = tok_live t a"
  "cells s = cells t \<Longrightarrow> tok_done s a = tok_done t a"
  "cells s = cells t \<Longrightarrow> tok_err s a = tok_err t a"
  "cells s = cells t \<Longrightarrow> data_at s a = data_at t a"
  by (simp_all add: tok_view_defs)

lemma tok_view_send [simp]:
  "tok_live (send_outgoing ok pt s) a = tok_live s a"
  "tok_done (send_outgoing ok pt s) a = tok_done s a"
  "tok_err (send_outgoing ok pt s) a = tok_err s a"
  "data_at (send_outgoing ok pt s) a = data_at s a"
  by (simp_all add: tok_view_defs)

subsection \<open>The invariant of the shared state\<close>

text \<open>
  Identifiers and children maps are well-formed, the subscriptions are a map sorted by topic under
  whose keys the subscriptions of that topic are filed, and every token the identifier table
  holds has a live cell of its own kind.
\<close>

fun kind_ok :: "token \<Rightarrow> token_data \<Rightarrow> bool" where
  "kind_ok (Connect _) (ConnectData _ _) = True"
| "kind_ok (Disconnect _) DisconnectData = True"
| "kind_ok (Publish _) (PublishData _) = True"
| "kind_ok (Subscribe _) (SubscribeData _ _) = True"
| "kind_ok (Unsubscribe _) (UnsubscribeData _) = True"
| "kind_ok _ _ = False"

definition token_typed :: "'a heap_scheme \<Rightarrow> token \<Rightarrow> bool" where
  "token_typed h t \<longleftrightarrow> (\<exists>d. data_at h (token_addr t) = Some d \<and> kind_ok t d)"

definition subs_filed :: "(string \<times> subscription) list \<Rightarrow> bool" where
  "subs_filed m \<longleftrightarrow> btree_ok m \<and> (\<forall>(k, x) \<in> set m. sub_topic x = k)"

definition state_inv :: "('c, 'a) state_scheme \<Rightarrow> bool" where
  "state_inv s \<longleftrightarrow>
     heap_ok s \<and> pid_ok (packet_ids s) \<and> trie_ok (topic_manager s) \<and> subs_filed (subscriptions s) \<and>
     (\<forall>i t. get_token i (packet_ids s) = Some t \<longrightarrow> token_typed s t)"

lemma state_invD:
  assumes "state_inv s"
  shows "heap_ok s" "pid_ok (packet_ids s)" "trie_ok (topic_manager s)" "subs_filed (subscriptions s)"
    "get_token i (packet_ids s) = Some t \<Longrightarrow> token_typed s t"
  using assms by (auto simp: state_inv_def)

lemma subs_filed_Nil [simp]: "subs_filed []"
  by (simp add: subs_filed_def)

lemma set_btree_insert: "set (btree_insert k v m) \<subseteq> insert (k, v) (set m)"
  by (induction k v m rule: btree_insert.induct) auto

lemma subs_filed_insert [simp]:
  "subs_filed m \<Longrightarrow> subs_filed (btree_insert (sub_topic x) x m)"
  using set_btree_insert[of "sub_topic x" x m] by (auto simp: subs_filed_def)

lemma token_typed_data: "data_at s = data_at t \<Longrightarrow> token_typed s u = token_typed t u"
  by (simp add: token_typed_def)

lemma token_typed_mono:
  "token_typed s t \<Longrightarrow> (\<And>a d. data_at s a = Some d \<Longrightarrow> data_at s' a = Some d) \<Longrightarrow> token_typed s' t"
  by (auto simp: token_typed_def)

lemma get_token_free: "get_token i (free_id j ids) = Some t \<Longrightarrow> get_token i ids = Some t"
  by (auto simp: get_token_def free_id_def split: if_splits)

end
