(* ===== verification/Options.thy ===== *)
theory Options
  imports Client_State
begin

section \<open>Client options\<close>

text \<open>
  \<^verbatim>\<open>src/src/options.rs\<close>: the struct \<open>ClientOptions\<close>, its two constructors and its setters. Durations
  are in nanoseconds. A getter returns its field.
\<close>

definition from_secs :: "nat \<Rightarrow> duration" where
  "from_secs n = n * 1000000000"

definition as_secs :: "duration \<Rightarrow> nat" where
  "as_secs d = d div 1000000000"

lemma as_secs_from_secs [simp]: "as_secs (from_secs n) = n"
  by (simp add: as_secs_def from_secs_def)

record client_options =
  server :: string
  client_id :: string
  username :: string
  password :: string
  clean_session :: bool
  will_enabled :: bool
  will_topic :: string
  will_payload :: "u8 list"
  will_qos :: quality_of_service
  will_retained :: bool
  opt_keep_alive :: duration
  connect_timeout :: duration
  auto_reconnect :: bool
  connect_retry_interval :: duration
  max_connect_retry_times :: "u16 option"

subsection \<open>Getters\<close>

definition get_server :: "client_options \<Rightarrow> string" where
  [simp]: "get_server opts = server opts"

definition get_client_id :: "client_options \<Rightarrow> string" where
  [simp]: "get_client_id opts = client_id opts"

definition get_username :: "client_options \<Rightarrow> string" where
  [simp]: "get_username opts = username opts"

definition get_password :: "client_options \<Rightarrow> string" where
  [simp]: "get_password opts = password opts"

definition get_clean_session :: "client_options \<Rightarrow> bool" where
  [simp]: "get_clean_session opts = clean_session opts"

definition get_will_enabled :: "client_options \<Rightarrow> bool" where
  [simp]: "get_will_enabled opts = will_enabled opts"

definition get_will_topic :: "client_options \<Rightarrow> string" where
  [simp]: "get_will_topic opts = will_topic opts"

definition get_will_payload :: "client_options \<Rightarrow> u8 list" where
  [simp]: "get_will_payload opts = will_payload opts"

definition get_will_qos :: "client_options \<Rightarrow> quality_of_service" where
  [simp]: "get_will_qos opts = will_qos opts"

definition get_will_retained :: "client_options \<Rightarrow> bool" where
  [simp]: "get_will_retained opts = will_retained opts"

definition get_keep_alive :: "client_options \<Rightarrow> duration" where
  [simp]: "get_keep_alive opts = opt_keep_alive opts"

definition get_connect_timeout :: "client_options \<Rightarrow> duration" where
  [simp]: "get_connect_timeout opts = connect_timeout opts"

definition get_auto_reconnect :: "client_options \<Rightarrow> bool" where
  [simp]: "get_auto_reconnect opts = auto_reconnect opts"

definition get_connect_retry_interval :: "client_options \<Rightarrow> duration" where
  [simp]: "get_connect_retry_interval opts = connect_retry_interval opts"

definition get_max_connect_retry_times :: "client_options \<Rightarrow> u16 option" where
  [simp]: "get_max_connect_retry_times opts = max_connect_retry_times opts"

definition options_default :: client_options where
  "options_default = \<lparr>server = [], client_id = [], username = [], password = [],
     clean_session = False, will_enabled = False, will_topic = [], will_payload = [],
     will_qos = Level0, will_retained = False, opt_keep_alive = 0, connect_timeout = 0,
     auto_reconnect = False, connect_retry_interval = 0, max_connect_retry_times = None\<rparr>"

definition options_new :: client_options where
  "options_new = options_default
     \<lparr>opt_keep_alive := from_secs 30, connect_timeout := from_secs 10,
      connect_retry_interval := from_secs 5\<rparr>"

definition set_server :: "string \<Rightarrow> client_options \<Rightarrow> client_options" where
  "set_server a opts = opts\<lparr>server := a\<rparr>"

definition set_client_id :: "string \<Rightarrow> client_options \<Rightarrow> client_options" where
  "set_client_id a opts = opts\<lparr>client_id := a\<rparr>"

definition set_username :: "string \<Rightarrow> client_options \<Rightarrow> client_options" where
  "set_username a opts = opts\<lparr>username := a\<rparr>"

definition set_password :: "string \<Rightarrow> client_options \<Rightarrow> client_options" where
  "set_password a opts = opts\<lparr>password := a\<rparr>"

definition set_clean_session :: "bool \<Rightarrow> client_options \<Rightarrow> client_options" where
  "set_clean_session b opts = opts\<lparr>clean_session := b\<rparr>"

definition set_will ::
  "string \<Rightarrow> u8 list \<Rightarrow> quality_of_service \<Rightarrow> bool \<Rightarrow> client_options \<Rightarrow> client_options" where
  "set_will topic payload q retained opts = opts
     \<lparr>will_enabled := True, will_topic := topic, will_payload := payload, will_qos := q,
      will_retained := retained\<rparr>"

definition unset_will :: "client_options \<Rightarrow> client_options" where
  "unset_will opts = opts\<lparr>will_enabled := False\<rparr>"

definition set_keep_alive :: "duration \<Rightarrow> client_options \<Rightarrow> client_options" where
  "set_keep_alive d opts = opts\<lparr>opt_keep_alive := d\<rparr>"

definition set_connect_timeout :: "duration \<Rightarrow> client_options \<Rightarrow> client_options" where
  "set_connect_timeout d opts = opts\<lparr>connect_timeout := d\<rparr>"

definition set_auto_reconnect :: "bool \<Rightarrow> client_options \<Rightarrow> client_options" where
  "set_auto_reconnect b opts = opts\<lparr>auto_reconnect := b\<rparr>"

definition set_connect_retry_interval :: "duration \<Rightarrow> client_options \<Rightarrow> client_options" where
  "set_connect_retry_interval d opts = opts\<lparr>connect_retry_interval := d\<rparr>"

definition set_max_connect_retry_times :: "u16 option \<Rightarrow> client_options \<Rightarrow> client_options" where
  "set_max_connect_retry_times n opts = opts\<lparr>max_connect_retry_times := n\<rparr>"

lemmas option_setters = set_server_def set_client_id_def set_username_def set_password_def
  set_clean_session_def set_will_def unset_will_def set_keep_alive_def set_connect_timeout_def
  set_auto_reconnect_def set_connect_retry_interval_def set_max_connect_retry_times_def

end
