(* ===== verification/Net.thy ===== *)
theory Net
  imports Client_State
begin

section \<open>The network tasks: read loop, write loop, keep-alive\<close>

text \<open>
  \<^verbatim>\<open>src/src/net.rs\<close>. Each handler is a function on the shared state. The loops read from outside
  the program (the socket, the channels, the clock): what they read, and what a send or a write
  returned, are their arguments, one element of a list per iteration; a list that ends is a task
  still waiting. Logging is left out.
\<close>

subsection \<open>Handlers\<close>

text \<open>
  \<open>handle_publish\<close>: levels 0 and 1 spawn the handlers at once, level 2 parks the packet until its
  PUBREL. \<open>pkid.unwrap()\<close> panics where the packet carries no identifier.
\<close>

definition handle_publish ::
  "'c libs \<Rightarrow> publish_packet \<Rightarrow> ('c, 'a) state_scheme \<Rightarrow>
   (variable_packet option \<times> ('c, 'a) state_scheme) outcome" where
  "handle_publish K packet s =
     (let (qos, pkid) = qos_split K (pp_qos packet);
          subs = tm_match_topic (pp_topic_name packet) (topic_manager s)
      in case qos of
           Level0 \<Rightarrow> Done (None, spawn_handlers subs (message_from K packet) s)
         | Level1 \<Rightarrow>
             bind_outcome (unwrap_option pkid)
               (\<lambda>i. Done (Some (PubackPacket i), spawn_handlers subs (message_from K packet) s))
         | Level2 \<Rightarrow>
             bind_outcome (unwrap_option pkid)
               (\<lambda>i. Done (Some (PubrecPacket i),
                     s\<lparr>pending_packets := cache_insert K i packet (pending_packets s)\<rparr>)))"

definition handle_puback :: "u16 \<Rightarrow> ('c, 'a) state_scheme \<Rightarrow> ('c, 'a) state_scheme" where
  "handle_puback pkid s =
     (case get_token pkid (packet_ids s) of
        None \<Rightarrow> s
      | Some token \<Rightarrow>
          (token_flow_complete token s)\<lparr>packet_ids := free_id pkid (packet_ids s)\<rparr>)"

definition handle_pubrec :: "u16 \<Rightarrow> variable_packet" where
  "handle_pubrec pkid = PubrelPacket pkid"

definition handle_pubrel ::
  "'c libs \<Rightarrow> u16 \<Rightarrow> ('c, 'a) state_scheme \<Rightarrow> variable_packet \<times> ('c, 'a) state_scheme" where
  "handle_pubrel K pkid s =
     (let (packet, pending) = cache_remove K pkid (pending_packets s);
          s' = s\<lparr>pending_packets := pending\<rparr>
      in (PubcompPacket pkid,
          case packet of
            Some packet \<Rightarrow>
              spawn_handlers (tm_match_topic (pp_topic_name packet) (topic_manager s'))
                (message_from K packet) s'
          | None \<Rightarrow> s'))"

definition handle_pubcomp :: "u16 \<Rightarrow> ('c, 'a) state_scheme \<Rightarrow> ('c, 'a) state_scheme" where
  "handle_pubcomp pkid s =
     (case get_token pkid (packet_ids s) of
        None \<Rightarrow> s
      | Some token \<Rightarrow>
          (token_flow_complete token s)\<lparr>packet_ids := free_id pkid (packet_ids s)\<rparr>)"

text \<open>
  The loop over the return codes of a SUBACK: the body at index \<open>i\<close>, and the loop from the index it
  has reached.
\<close>

definition suback_body ::
  "nat \<Rightarrow> subscribe_return_code \<Rightarrow> addr \<Rightarrow> ('c, 'a) state_scheme \<Rightarrow> ('c, 'a) state_scheme" where
  "suback_body i code token s =
     (let s1 = set_result i code token s
      in case get_subscription i s1 token of
           Some x \<Rightarrow>
             if code \<noteq> Failure
             then s1\<lparr>topic_manager := tm_add x (topic_manager s1),
                     subscriptions := btree_insert (sub_topic x) x (subscriptions s1)\<rparr>
             else s1
         | None \<Rightarrow> s1)"

fun suback_loop ::
  "nat \<Rightarrow> subscribe_return_code list \<Rightarrow> addr \<Rightarrow> ('c, 'a) state_scheme \<Rightarrow> ('c, 'a) state_scheme" where
  "suback_loop i [] token s = s"
| "suback_loop i (code # codes) token s =
     suback_loop (Suc i) codes token (suback_body i code token s)"

definition handle_suback ::
  "u16 \<Rightarrow> subscribe_return_code list \<Rightarrow> ('c, 'a) state_scheme \<Rightarrow> ('c, 'a) state_scheme" where
  "handle_suback pkid codes s =
     (case get_token pkid (packet_ids s) of
        Some (Subscribe token) \<Rightarrow>
          (tok_flow_complete token (suback_loop 0 codes token s))
            \<lparr>packet_ids := free_id pkid (packet_ids s)\<rparr>
      | _ \<Rightarrow> s)"

definition handle_unsuback :: "u16 \<Rightarrow> ('c, 'a) state_scheme \<Rightarrow> ('c, 'a) state_scheme" where
  "handle_unsuback pkid s =
     (case get_token pkid (packet_ids s) of
        Some (Unsubscribe token) \<Rightarrow>
          (tok_flow_complete token
             (s\<lparr>topic_manager :=
                 fold (\<lambda>topic m. snd (tm_remove topic m)) (unsubscribe_topics s token)
                   (topic_manager s)\<rparr>))
            \<lparr>packet_ids := free_id pkid (packet_ids s)\<rparr>
      | _ \<Rightarrow> s)"

subsection \<open>The read loop\<close>

text \<open>What \<open>reader.next()\<close> yields.\<close>

datatype frame = Frame variable_packet | FrameError | FrameEnd

text \<open>The branch a packet takes: \<open>continue\<close>, \<open>break\<close>, or a response for the write task.\<close>

datatype dispatch = Continue | Break | Respond variable_packet

fun dispatch_packet ::
  "'c libs \<Rightarrow> variable_packet \<Rightarrow> ('c, 'a) state_scheme \<Rightarrow>
   (dispatch \<times> ('c, 'a) state_scheme) outcome" where
  "dispatch_packet K (PublishPacket packet) s =
     bind_outcome (handle_publish K packet s)
       (\<lambda>(resp, s'). Done (case resp of Some p \<Rightarrow> Respond p | None \<Rightarrow> Continue, s'))"
| "dispatch_packet K (PubackPacket pkid) s = Done (Continue, handle_puback pkid s)"
| "dispatch_packet K (PubrecPacket pkid) s = Done (Respond (handle_pubrec pkid), s)"
| "dispatch_packet K (PubrelPacket pkid) s =
     (let (p, s') = handle_pubrel K pkid s in Done (Respond p, s'))"
| "dispatch_packet K (PubcompPacket pkid) s = Done (Continue, handle_pubcomp pkid s)"
| "dispatch_packet K (SubackPacket pkid codes) s = Done (Continue, handle_suback pkid codes s)"
| "dispatch_packet K (UnsubackPacket pkid) s = Done (Continue, handle_unsuback pkid s)"
| "dispatch_packet K DisconnectPacket s = Done (Break, s)"
| "dispatch_packet K PingrespPacket s = Done (Continue, s)"
| "dispatch_packet K _ s = Done (Break, s)"

text \<open>
  One iteration: a frame, and whether the channel to the write task took the response. The result
  says whether the loop goes on, and the responses sent.
\<close>

fun read_step ::
  "'c libs \<Rightarrow> frame \<times> bool \<Rightarrow> ('c, 'a) state_scheme \<Rightarrow>
   (bool \<times> variable_packet list \<times> ('c, 'a) state_scheme) outcome" where
  "read_step K (Frame packet, sent) s =
     bind_outcome (dispatch_packet K packet s)
       (\<lambda>(d, s'). Done (case d of
           Continue \<Rightarrow> (True, [], s')
         | Break \<Rightarrow> (False, [], s')
         | Respond p \<Rightarrow> if sent then (True, [p], s') else (False, [], s')))"
| "read_step K (FrameError, sent) s = Done (False, [], s)"
| "read_step K (FrameEnd, sent) s = Done (False, [], s)"

text \<open>\<open>read_from_server\<close>: whether the loop has exited, the responses sent, the state.\<close>

fun read_from_server ::
  "'c libs \<Rightarrow> (frame \<times> bool) list \<Rightarrow> ('c, 'a) state_scheme \<Rightarrow>
   (bool \<times> variable_packet list \<times> ('c, 'a) state_scheme) outcome" where
  "read_from_server K [] s = Done (False, [], s)"
| "read_from_server K (f # fs) s =
     bind_outcome (read_step K f s)
       (\<lambda>(going, out, s'). if going
          then bind_outcome (read_from_server K fs s')
                 (\<lambda>(exited, out', s''). Done (exited, out @ out', s''))
          else Done (True, out, s'))"

subsection \<open>The write loop\<close>

text \<open>
  The branch \<open>select!\<close> took and what the channel yielded (\<open>None\<close>: all senders gone), with the
  result of \<open>writer.send\<close>: the instant read after a success, or the error's text.
\<close>

datatype io_result = WriteOk instant | WriteErr string

datatype write_event =
    MsgRecv "variable_packet option" io_result
  | OutRecv "packet_and_token option" io_result

definition complete_written :: "token option \<Rightarrow> ('c, 'a) state_scheme \<Rightarrow> ('c, 'a) state_scheme" where
  "complete_written token s =
     (case token of
        Some (Publish t) \<Rightarrow>
          if publish_qos s t = Some Level0 then tok_flow_complete t s else s
      | Some (Disconnect t) \<Rightarrow> tok_flow_complete t s
      | _ \<Rightarrow> s)"

fun write_step ::
  "write_event \<Rightarrow> ('c, 'a) state_scheme \<Rightarrow> bool \<times> variable_packet list \<times> ('c, 'a) state_scheme" where
  "write_step (MsgRecv (Some packet) (WriteOk now)) s =
     (True, [packet], s\<lparr>last_sent_packet_at := now\<rparr>)"
| "write_step (MsgRecv (Some packet) (WriteErr e)) s = (False, [], s)"
| "write_step (MsgRecv None r) s = (False, [], s)"
| "write_step (OutRecv (Some out) (WriteOk now)) s =
     (True, [pt_packet out], complete_written (pt_token out) (s\<lparr>last_sent_packet_at := now\<rparr>))"
| "write_step (OutRecv (Some out) (WriteErr e)) s =
     (False, [], case pt_token out of Some t \<Rightarrow> token_set_error (IOError e) t s | None \<Rightarrow> s)"
| "write_step (OutRecv None r) s = (False, [], s)"

fun_cases write_stepE: "write_step e s = (going, out, s')"

fun write_to_server ::
  "write_event list \<Rightarrow> ('c, 'a) state_scheme \<Rightarrow> bool \<times> variable_packet list \<times> ('c, 'a) state_scheme" where
  "write_to_server [] s = (False, [], s)"
| "write_to_server (e # es) s =
     (let (going, out, s') = write_step e s
      in if going
         then (let (exited, out', s'') = write_to_server es s' in (exited, out @ out', s''))
         else (True, out, s'))"

subsection \<open>The keep-alive loop\<close>

text \<open>
  One iteration: the exit flag, the two clock readings, and whether the channel took the ping. The
  action says what the task does next; \<open>Instant::duration_since\<close> saturates at zero.
\<close>

datatype keep_alive_action = Exit | SleepUntil instant | PingThenSleep duration

definition keep_alive_step ::
  "duration \<Rightarrow> bool \<Rightarrow> instant \<Rightarrow> instant \<Rightarrow> bool \<Rightarrow> ('c, 'a) state_scheme \<Rightarrow>
   (keep_alive_action \<times> ('c, 'a) state_scheme) outcome" where
  "keep_alive_step dur exit_flag now now2 sent s =
     (if exit_flag then Done (Exit, s)
      else
        let elapsed = now - last_sent_packet_at s
        in if dur \<le> elapsed
           then bind_outcome (unwrap_option (outgoing_tx s))
                  (\<lambda>_. Done (PingThenSleep dur,
                             send_outgoing sent (packet_and_token_new PingreqPacket) s))
           else Done (SleepUntil (now2 + (dur - elapsed)), s))"

subsection \<open>Lemmas: what the loops change\<close>

lemma fold_tm_add: "tm_subs_at (fold tm_add xs m) f = tm_subs_at m f @ filter (\<lambda>x. sub_topic x = f) xs"
  by (induction xs arbitrary: m) auto

lemma fold_tm_add_ok: "trie_ok m \<Longrightarrow> trie_ok (fold tm_add xs m)"
  by (induction xs arbitrary: m) (simp_all add: tm_defs trie_ok_insert)

lemma fold_tm_remove:
  "tm_subs_at (fold (\<lambda>t m. snd (tm_remove t m)) ts m) f = (if f \<in> set ts then [] else tm_subs_at m f)"
  by (induction ts arbitrary: m) auto

lemma fold_tm_remove_ok: "trie_ok m \<Longrightarrow> trie_ok (fold (\<lambda>t m. snd (tm_remove t m)) ts m)"
  by (induction ts arbitrary: m) (simp_all add: tm_defs trie_ok_remove)

definition file_subs :: "subscription list \<Rightarrow> (string \<times> subscription) list \<Rightarrow> (string \<times> subscription) list" where
  "file_subs xs m = fold (\<lambda>x. btree_insert (sub_topic x) x) xs m"

lemma file_subs_simps [simp]:
  "file_subs [] m = m"
  "file_subs (x # xs) m = file_subs xs (btree_insert (sub_topic x) x m)"
  by (simp_all add: file_subs_def)

lemma subs_filed_file_subs: "subs_filed m \<Longrightarrow> subs_filed (file_subs xs m)"
  by (induction xs arbitrary: m) simp_all

lemma map_of_file_subs:
  "map_of (file_subs xs m) f =
     (case filter (\<lambda>x. sub_topic x = f) xs of [] \<Rightarrow> map_of m f | ys \<Rightarrow> Some (last ys))"
  by (induction xs arbitrary: m) (auto split: list.split)

text \<open>The subscriptions a SUBACK accepts: those whose return code is not \<open>Failure\<close>.\<close>

fun accepted :: "subscription list \<Rightarrow> subscribe_return_code list \<Rightarrow> subscription list" where
  "accepted (x # xs) (c # cs) = (if c \<noteq> Failure then x # accepted xs cs else accepted xs cs)"
| "accepted _ _ = []"

lemma accepted_Nil2 [simp]: "accepted xs [] = []"
  by (cases xs) simp_all

lemma drop_step: "i < length xs \<Longrightarrow> drop i xs = xs ! i # drop (Suc i) xs"
  by (simp add: Cons_nth_drop_Suc)

definition result_updates ::
  "subscription list \<Rightarrow> subscribe_return_code list \<Rightarrow> (string, subscribe_return_code) hashmap \<Rightarrow>
   (string, subscribe_return_code) hashmap" where
  "result_updates xs cs rs = fold (\<lambda>(x, c). AList.update (sub_topic x) c) (zip xs cs) rs"

lemma suback_body_frame [simp]:
  "packet_ids (suback_body i code a s) = packet_ids s"
  "pending_packets (suback_body i code a s) = pending_packets s"
  "outgoing_tx (suback_body i code a s) = outgoing_tx s"
  "spawned (suback_body i code a s) = spawned s"
  "outgoing (suback_body i code a s) = outgoing s"
  "next_addr (suback_body i code a s) = next_addr s"
  "tok_live (suback_body i code a s) b = tok_live s b"
  "tok_done (suback_body i code a s) b = tok_done s b"
  "tok_err (suback_body i code a s) b = tok_err s b"
  by (simp_all add: suback_body_def Let_def set_result_def tok_simps split: option.split)

lemma suback_body_effect:
  assumes "data_at s a = Some (SubscribeData ss rs)"
  shows "topic_manager (suback_body i code a s) =
      (if i < length ss \<and> code \<noteq> Failure then tm_add (ss ! i) (topic_manager s) else topic_manager s)"
    and "subscriptions (suback_body i code a s) =
      (if i < length ss \<and> code \<noteq> Failure
       then btree_insert (sub_topic (ss ! i)) (ss ! i) (subscriptions s) else subscriptions s)"
    and "data_at (suback_body i code a s) a = Some (SubscribeData ss
      (if i < length ss then AList.update (sub_topic (ss ! i)) code rs else rs))"
proof -
  have d: "data_at (set_result i code a s) a = Some (SubscribeData ss
      (if i < length ss then AList.update (sub_topic (ss ! i)) code rs else rs))"
    using assms by (simp add: set_result_def tok_simps)
  then have g: "get_subscription i (set_result i code a s) a =
      (if i < length ss then Some (ss ! i) else None)"
    by (simp add: get_subscription_def)
  show "topic_manager (suback_body i code a s) =
      (if i < length ss \<and> code \<noteq> Failure then tm_add (ss ! i) (topic_manager s) else topic_manager s)"
    "subscriptions (suback_body i code a s) =
      (if i < length ss \<and> code \<noteq> Failure
       then btree_insert (sub_topic (ss ! i)) (ss ! i) (subscriptions s) else subscriptions s)"
    unfolding suback_body_def Let_def g by (simp_all add: set_result_def)
  show "data_at (suback_body i code a s) a = Some (SubscribeData ss
      (if i < length ss then AList.update (sub_topic (ss ! i)) code rs else rs))"
    unfolding suback_body_def Let_def g using d by (cases "code = Failure") (simp_all split: if_splits)
qed

lemma suback_loop_frame [simp]:
  "packet_ids (suback_loop i codes a s) = packet_ids s"
  "pending_packets (suback_loop i codes a s) = pending_packets s"
  "outgoing_tx (suback_loop i codes a s) = outgoing_tx s"
  "spawned (suback_loop i codes a s) = spawned s"
  "outgoing (suback_loop i codes a s) = outgoing s"
  "next_addr (suback_loop i codes a s) = next_addr s"
  "tok_live (suback_loop i codes a s) b = tok_live s b"
  "tok_done (suback_loop i codes a s) b = tok_done s b"
  "tok_err (suback_loop i codes a s) b = tok_err s b"
  by (induction i codes a s rule: suback_loop.induct) simp_all

lemma suback_loop_effect:
  assumes "data_at s a = Some (SubscribeData ss rs)"
  shows "topic_manager (suback_loop i codes a s) =
      fold tm_add (accepted (drop i ss) codes) (topic_manager s) \<and>
    subscriptions (suback_loop i codes a s) =
      file_subs (accepted (drop i ss) codes) (subscriptions s) \<and>
    data_at (suback_loop i codes a s) a =
      Some (SubscribeData ss (result_updates (drop i ss) codes rs))"
  using assms
proof (induction i codes a s arbitrary: rs rule: suback_loop.induct)
  case (1 i a s)
  then show ?case by (simp add: result_updates_def)
next
  case (2 i code codes a s)
  note effect = suback_body_effect[OF "2.prems", of i code]
  show ?case
    using "2.IH"[OF effect(3)] effect(1,2) drop_step[of i ss]
    by (cases "i < length ss") (simp_all add: result_updates_def)
qed

lemma kind_ok_results:
  "kind_ok t d \<Longrightarrow> kind_ok t (case d of
      SubscribeData ss rs \<Rightarrow> SubscribeData ss (f ss rs) | _ \<Rightarrow> d)"
  by (cases t; cases d) auto

lemma map_data_typed:
  assumes "token_typed s t" and "\<And>d. kind_ok t d \<Longrightarrow> kind_ok t (f d)"
  shows "token_typed (map_data f a s) t"
  using assms by (auto simp: token_typed_def tok_simps)

lemma token_typed_ops [simp]:
  "token_typed (tok_set_error e a s) t = token_typed s t"
  "token_typed (tok_flow_complete a s) t = token_typed s t"
  by (simp_all add: token_typed_def tok_simps)

lemma token_typed_updates [simp]:
  "token_typed (s\<lparr>packet_ids := x1\<rparr>) t = token_typed s t"
  "token_typed (s\<lparr>topic_manager := x2\<rparr>) t = token_typed s t"
  "token_typed (s\<lparr>subscriptions := x3\<rparr>) t = token_typed s t"
  "token_typed (s\<lparr>pending_packets := x4\<rparr>) t = token_typed s t"
  "token_typed (s\<lparr>last_sent_packet_at := x6\<rparr>) t = token_typed s t"
  "token_typed (spawn_handlers subs msg s) t = token_typed s t"
  "token_typed (send_outgoing ok pt s) t = token_typed s t"
  by (simp_all add: token_typed_def tok_view_cells[of "spawn_handlers subs msg s" s])

lemma suback_body_typed: "token_typed s t \<Longrightarrow> token_typed (suback_body i code a s) t"
proof -
  assume "token_typed s t"
  then have "token_typed (set_result i code a s) t"
    unfolding set_result_def by (rule map_data_typed) (rule kind_ok_results)
  then show ?thesis
    unfolding suback_body_def Let_def by (cases "code = Failure") (simp_all split: option.split)
qed

lemma suback_loop_typed: "token_typed s t \<Longrightarrow> token_typed (suback_loop i codes a s) t"
  by (induction i codes a s rule: suback_loop.induct) (simp_all add: suback_body_typed)

lemma heap_ok_state [simp]:
  "heap_ok (s\<lparr>packet_ids := x1\<rparr>) = heap_ok s"
  "heap_ok (s\<lparr>topic_manager := x2\<rparr>) = heap_ok s"
  "heap_ok (s\<lparr>subscriptions := x3\<rparr>) = heap_ok s"
  "heap_ok (s\<lparr>pending_packets := x4\<rparr>) = heap_ok s"
  "heap_ok (s\<lparr>last_sent_packet_at := x6\<rparr>) = heap_ok s"
  "heap_ok (spawn_handlers subs msg s) = heap_ok s"
  "heap_ok (send_outgoing ok pt s) = heap_ok s"
  by (simp_all add: heap_ok_def tok_view_cells[of "spawn_handlers subs msg s" s])

lemma suback_loop_heap_ok [simp]: "heap_ok (suback_loop i codes a s) = heap_ok s"
  by (simp add: heap_ok_def)

subsection \<open>The handlers keep the invariant\<close>

named_theorems inv_intros \<open>preservation of the state invariant\<close>

lemma state_inv_frame [simp]:
  "state_inv (s\<lparr>pending_packets := c\<rparr>) = state_inv s"
  "state_inv (s\<lparr>last_sent_packet_at := n\<rparr>) = state_inv s"
  "state_inv (spawn_handlers subs msg s) = state_inv s"
  "state_inv (send_outgoing ok pt s) = state_inv s"
  "state_inv (tok_set_error e a s) = state_inv s"
  "state_inv (tok_flow_complete a s) = state_inv s"
  by (simp_all add: state_inv_def)

lemma state_inv_free:
  "state_inv s \<Longrightarrow> packet_ids s = ids \<Longrightarrow> state_inv (s\<lparr>packet_ids := free_id i ids\<rparr>)"
  using get_token_free[of _ i ids] by (auto simp: state_inv_def)

lemma state_inv_topics:
  "state_inv s \<Longrightarrow> trie_ok m \<Longrightarrow> state_inv (s\<lparr>topic_manager := m\<rparr>)"
  by (simp add: state_inv_def)

lemma handle_puback_inv [inv_intros]: "state_inv s \<Longrightarrow> state_inv (handle_puback pkid s)"
  by (simp add: handle_puback_def state_inv_free split: option.split)

lemma handle_pubcomp_inv [inv_intros]: "state_inv s \<Longrightarrow> state_inv (handle_pubcomp pkid s)"
  by (simp add: handle_pubcomp_def state_inv_free split: option.split)

lemma suback_body_inv: "state_inv s \<Longrightarrow> state_inv (suback_body i code a s)"
proof -
  assume inv: "state_inv s"
  have "heap_ok (suback_body i code a s) = heap_ok s"
    by (simp add: heap_ok_def)
  moreover have "trie_ok (topic_manager (suback_body i code a s))"
    "subs_filed (subscriptions (suback_body i code a s))"
    using state_invD(3,4)[OF inv]
    by (auto simp: suback_body_def Let_def set_result_def tm_defs trie_ok_insert split: option.split)
  ultimately show ?thesis
    using inv by (simp add: state_inv_def suback_body_typed)
qed

lemma suback_loop_inv: "state_inv s \<Longrightarrow> state_inv (suback_loop i codes a s)"
  by (induction i codes a s rule: suback_loop.induct) (simp_all add: suback_body_inv)

lemma handle_suback_inv [inv_intros]: "state_inv s \<Longrightarrow> state_inv (handle_suback pkid codes s)"
  by (simp add: handle_suback_def state_inv_free suback_loop_inv split: option.split token.split)

lemma handle_unsuback_inv [inv_intros]: "state_inv s \<Longrightarrow> state_inv (handle_unsuback pkid s)"
  by (simp add: handle_unsuback_def state_inv_free state_inv_topics fold_tm_remove_ok state_invD(3)
      split: option.split token.split)

lemma handle_pubrel_inv [inv_intros]:
  "state_inv s \<Longrightarrow> handle_pubrel K pkid s = (p, s') \<Longrightarrow> state_inv s'"
  by (auto simp: handle_pubrel_def split_beta Let_def split: option.splits)

lemma handle_publish_inv [inv_intros]:
  "state_inv s \<Longrightarrow> handle_publish K packet s = Done (r, s') \<Longrightarrow> state_inv s'"
  by (auto simp: handle_publish_def split_beta Let_def bind_outcome_Done_iff
      split: quality_of_service.splits)

lemma dispatch_packet_inv:
  "state_inv s \<Longrightarrow> dispatch_packet K p s = Done (d, s') \<Longrightarrow> state_inv s'"
  by (cases p) (auto simp: bind_outcome_Done_iff split: prod.splits intro: inv_intros)

lemma read_step_Frame:
  assumes "read_step K (Frame p, sent) s = Done (going, out, s')"
  obtains d where "dispatch_packet K p s = Done (d, s')"
    and "going \<longleftrightarrow> d = Continue \<or> (\<exists>r. d = Respond r \<and> sent)"
    and "out = (case d of Respond r \<Rightarrow> if sent then [r] else [] | _ \<Rightarrow> [])"
proof -
  from assms obtain d s1 where d: "dispatch_packet K p s = Done (d, s1)"
    "(case d of Continue \<Rightarrow> (True, [], s1) | Break \<Rightarrow> (False, [], s1)
      | Respond p \<Rightarrow> if sent then (True, [p], s1) else (False, [], s1)) = (going, out, s')"
    by (auto simp: bind_outcome_Done_iff)
  then show ?thesis using that by (cases d) (auto split: if_splits)
qed

lemma read_step_inv:
  assumes "state_inv s" and "read_step K f s = Done (going, out, s')"
  shows "state_inv s'"
proof (cases f)
  case (Pair fr sent)
  show ?thesis
  proof (cases fr)
    case (Frame p)
    with Pair assms show ?thesis
      by (metis read_step_Frame dispatch_packet_inv)
  qed (use Pair assms in simp_all)
qed

lemma read_from_server_inv:
  "state_inv s \<Longrightarrow> read_from_server K fs s = Done (ex, out, s') \<Longrightarrow> state_inv s'"
proof (induction fs arbitrary: s ex out s')
  case (Cons f fs)
  from Cons.prems(2) obtain going out1 s1 where step: "read_step K f s = Done (going, out1, s1)"
    and rest: "(if going then bind_outcome (read_from_server K fs s1)
        (\<lambda>(exited, out', s''). Done (exited, out1 @ out', s'')) else Done (True, out1, s1)) =
        Done (ex, out, s')"
    by (auto simp: bind_outcome_Done_iff)
  have inv1: "state_inv s1" using Cons.prems(1) step by (rule read_step_inv)
  show ?case
  proof (cases going)
    case True
    with rest obtain ex' out' where "read_from_server K fs s1 = Done (ex', out', s')"
      by (auto simp: bind_outcome_Done_iff)
    with Cons.IH[OF inv1] show ?thesis by blast
  qed (use rest inv1 in simp)
qed simp

subsection \<open>Level 2: no delivery without a parked packet\<close>

definition parks :: "u16 \<Rightarrow> variable_packet \<Rightarrow> bool" where
  "parks k p \<longleftrightarrow> (case p of PublishPacket q \<Rightarrow> pp_qos q = QLevel2 k | _ \<Rightarrow> False)"

lemma tok_frame_pending [simp]:
  "pending_packets (handle_puback k s) = pending_packets s"
  "pending_packets (handle_pubcomp k s) = pending_packets s"
  "pending_packets (handle_suback k cs s) = pending_packets s"
  "pending_packets (handle_unsuback k s) = pending_packets s"
  by (simp_all add: handle_puback_def handle_pubcomp_def handle_suback_def handle_unsuback_def
      split: option.split token.split)

lemma handle_pubrel_pending:
  "pending_packets (snd (handle_pubrel K k s)) = snd (cache_remove K k (pending_packets s))"
  by (simp add: handle_pubrel_def split_beta Let_def split: option.split)

lemma handle_publish_pending:
  assumes "codec_laws K" and "handle_publish K q s = Done (r, s')"
  shows "pending_packets s' =
    (case pp_qos q of QLevel2 i \<Rightarrow> cache_insert K i q (pending_packets s) | _ \<Rightarrow> pending_packets s)"
  using assms(2) codec_laws_split[OF assms(1)]
  by (cases "pp_qos q") (auto simp: handle_publish_def Let_def)

lemma dispatch_parked:
  assumes laws: "codec_laws K" "cache_laws K" and step: "dispatch_packet K p s = Done (d, s')"
    and "\<not> parks k p" and "cache_view K (pending_packets s) k = None"
  shows "cache_view K (pending_packets s') k = None"
proof (rule ccontr)
  assume "cache_view K (pending_packets s') k \<noteq> None"
  then obtain q where q: "cache_view K (pending_packets s') k = Some q" by auto
  have "cache_view K (pending_packets s) k = Some q"
  proof (cases p)
    case (PublishPacket m)
    with step obtain r where m: "handle_publish K m s = Done (r, s')"
      by (auto simp: bind_outcome_Done_iff)
    show ?thesis
      using handle_publish_pending[OF laws(1) m] q assms(4) PublishPacket
      by (auto simp: parks_def split: qos_with_packet_identifier.splits
          dest!: cache_insert_cases[OF laws(2)])
  next
    case (PubrelPacket i)
    with step have "s' = snd (handle_pubrel K i s)" by (auto split: prod.splits)
    with q have "cache_view K (snd (cache_remove K i (pending_packets s))) k = Some q"
      by (simp add: handle_pubrel_pending)
    from cache_remove_other[OF laws(2) this] show ?thesis by simp
  qed (use step q in auto)
  with assms(5) show False by simp
qed

lemma read_step_parked:
  assumes "codec_laws K" "cache_laws K" "read_step K (f, sent) s = Done (going, out, s')"
    and "\<forall>p. f = Frame p \<longrightarrow> \<not> parks k p" and "cache_view K (pending_packets s) k = None"
  shows "cache_view K (pending_packets s') k = None"
proof (cases f)
  case (Frame p)
  with assms(3) obtain d where "dispatch_packet K p s = Done (d, s')"
    by (metis read_step_Frame)
  then show ?thesis using dispatch_parked assms Frame by blast
qed (use assms in auto)

lemma read_from_server_parked:
  assumes "codec_laws K" "cache_laws K"
  shows "read_from_server K fs s = Done (ex, out, s') \<Longrightarrow>
    (\<forall>p. Frame p \<in> fst ` set fs \<longrightarrow> \<not> parks k p) \<Longrightarrow>
    cache_view K (pending_packets s) k = None \<Longrightarrow> cache_view K (pending_packets s') k = None"
proof (induction fs arbitrary: s ex out s')
  case (Cons f fs)
  from Cons.prems(1) obtain going out1 s1 where step: "read_step K f s = Done (going, out1, s1)"
    and rest: "(if going then bind_outcome (read_from_server K fs s1)
        (\<lambda>(exited, out', s''). Done (exited, out1 @ out', s'')) else Done (True, out1, s1)) =
        Done (ex, out, s')"
    by (auto simp: bind_outcome_Done_iff)
  have none1: "cache_view K (pending_packets s1) k = None"
    using read_step_parked[OF assms, of "fst f" "snd f" s] step Cons.prems(2,3) by auto
  show ?case
  proof (cases going)
    case True
    with rest obtain ex' out' where "read_from_server K fs s1 = Done (ex', out', s')"
      by (auto simp: bind_outcome_Done_iff)
    from Cons.IH[OF this _ none1] Cons.prems(2) show ?thesis by auto
  qed (use rest none1 in simp)
qed simp

subsection \<open>Responses\<close>

text \<open>What the protocol owes for each packet, and which packets end the loop.\<close>

fun response_of :: "variable_packet \<Rightarrow> variable_packet option" where
  "response_of (PublishPacket q) =
     (case pp_qos q of QLevel0 \<Rightarrow> None
      | QLevel1 i \<Rightarrow> Some (PubackPacket i) | QLevel2 i \<Rightarrow> Some (PubrecPacket i))"
| "response_of (PubrecPacket i) = Some (PubrelPacket i)"
| "response_of (PubrelPacket i) = Some (PubcompPacket i)"
| "response_of _ = None"

fun ends_loop :: "variable_packet \<Rightarrow> bool" where
  "ends_loop (PublishPacket q) = False"
| "ends_loop (PubackPacket i) = False"
| "ends_loop (PubrecPacket i) = False"
| "ends_loop (PubrelPacket i) = False"
| "ends_loop (PubcompPacket i) = False"
| "ends_loop (SubackPacket i cs) = False"
| "ends_loop (UnsubackPacket i) = False"
| "ends_loop PingrespPacket = False"
| "ends_loop _ = True"

lemma handle_publish_Done:
  assumes "codec_laws K"
  shows "\<exists>s'. handle_publish K q s = Done (response_of (PublishPacket q), s')"
  using codec_laws_split[OF assms] by (cases "pp_qos q") (simp_all add: handle_publish_def Let_def)

lemma dispatch_packet_response:
  assumes "codec_laws K"
  shows "\<exists>s'. dispatch_packet K p s =
    Done (if ends_loop p then Break
          else (case response_of p of None \<Rightarrow> Continue | Some r \<Rightarrow> Respond r), s')"
proof (cases p)
  case (PublishPacket q)
  then show ?thesis using handle_publish_Done[OF assms, of q s] by auto
next
  case (PubrelPacket i)
  then show ?thesis by (auto simp: handle_pubrel_def split_beta Let_def)
qed (auto simp: handle_pubrec_def)

lemma read_step_response:
  assumes "codec_laws K" and "\<not> ends_loop p"
  shows "\<exists>s'. read_step K (Frame p, True) s =
    Done (True, case response_of p of None \<Rightarrow> [] | Some r \<Rightarrow> [r], s')"
proof -
  obtain s' where "dispatch_packet K p s =
      Done (case response_of p of None \<Rightarrow> Continue | Some r \<Rightarrow> Respond r, s')"
    using dispatch_packet_response[OF assms(1), of p s] assms(2) by auto
  then show ?thesis by (cases "response_of p") simp_all
qed

subsection \<open>Properties\<close>

text \<open>
  The read loop never panics on what the codec decodes, handles every packet of a connection
  that stays up, and answers exactly what the protocol owes: PUBACK and PUBREC by the level of a
  PUBLISH, PUBREL for PUBREC, PUBCOMP for PUBREL, with the same identifier and in the order read.
\<close>

lemma read_loop_replies:
  assumes "codec_laws K" and "\<forall>p \<in> set ps. \<not> ends_loop p"
  shows "\<exists>s'. read_from_server K (map (\<lambda>p. (Frame p, True)) ps) s =
    Done (False, List.map_filter response_of ps, s')"
  using assms(2)
proof (induction ps arbitrary: s)
  case (Cons p ps)
  obtain s1 where "read_step K (Frame p, True) s =
      Done (True, case response_of p of None \<Rightarrow> [] | Some r \<Rightarrow> [r], s1)"
    using read_step_response[OF assms(1)] Cons.prems by fastforce
  moreover obtain s2 where "read_from_server K (map (\<lambda>p. (Frame p, True)) ps) s1 =
      Done (False, List.map_filter response_of ps, s2)"
    using Cons.IH Cons.prems by fastforce
  ultimately show ?case by (auto simp: map_filter_simps split: option.split)
qed (simp add: map_filter_simps)

text \<open>
  An incoming PUBLISH of level 0 or 1 spawns one handler call per matched subscription, in the
  order of the search and with the packet's own fields; one of level 2 spawns nothing.
\<close>

lemma publish_spawns_matches:
  assumes "codec_laws K"
  shows "\<exists>s'. handle_publish K q s = Done (response_of (PublishPacket q), s') \<and>
    spawned s' = spawned s @
      (case pp_qos q of QLevel2 i \<Rightarrow> []
       | _ \<Rightarrow> map (\<lambda>x. (sub_handler x, message_from K q))
                (concat (map (tm_subs_at (topic_manager s)) (candidate_texts (pp_topic_name q)))))"
  using codec_laws_split[OF assms]
  by (cases "pp_qos q") (simp_all add: handle_publish_def Let_def tm_match_candidates)


text \<open>
  C31. Exactly-once: after a PUBREL, whatever the server sends except a new level 2 PUBLISH with
  that identifier, another PUBREL for it delivers nothing.
\<close>

theorem qos2_delivered_once:
  assumes "codec_laws K" and "cache_laws K"
    and "read_from_server K fs (snd (handle_pubrel K k s)) = Done (ex, out, s2)"
    and "\<forall>p. Frame p \<in> fst ` set fs \<longrightarrow> \<not> parks k p"
  shows "spawned (snd (handle_pubrel K k s2)) = spawned s2"
proof -
  have "cache_view K (pending_packets (snd (handle_pubrel K k s))) k = None"
    by (simp add: handle_pubrel_pending cache_remove_absent[OF assms(2)])
  from read_from_server_parked[OF assms(1,2,3,4) this]
  have "fst (cache_remove K k (pending_packets s2)) = None"
    by (simp add: cache_remove_fst[OF assms(2)])
  then show ?thesis by (simp add: handle_pubrel_def split_beta Let_def)
qed

text \<open>
  A PUBACK completes, without an error of its own, whatever operation holds its identifier
  (also a subscribe or an unsubscribe) and frees the identifier; one that nobody holds
  changes nothing.
\<close>

lemma puback_completes:
  assumes "state_inv s"
  shows "(case get_token k (packet_ids s) of
      None \<Rightarrow> handle_puback k s = s
    | Some t \<Rightarrow>
        tok_done (handle_puback k s) (token_addr t) \<and>
        tok_err (handle_puback k s) (token_addr t) = tok_err s (token_addr t) \<and>
        get_token k (packet_ids (handle_puback k s)) = None \<and>
        (\<forall>j. j = k \<or> get_token j (packet_ids (handle_puback k s)) = get_token j (packet_ids s)))"
proof (cases "get_token k (packet_ids s)")
  case (Some t)
  then have "tok_live s (token_addr t)"
    using state_invD(5)[OF assms Some] by (auto simp: token_typed_def tok_view_defs)
  with Some show ?thesis
    by (auto simp: handle_puback_def tok_simps get_token_def free_id_def)
qed (simp add: handle_puback_def)

text \<open>
  A SUBACK stores exactly the subscriptions it accepts: in the trie, after those already
  there; in the map of subscriptions, the last one per topic; the token is completed with its
  results and the identifier freed.
\<close>

lemma suback_registers_accepted:
  assumes "get_token k (packet_ids s) = Some (Subscribe a)"
    and "data_at s a = Some (SubscribeData ss rs)"
  shows "tm_subs_at (topic_manager (handle_suback k codes s)) f =
      tm_subs_at (topic_manager s) f @ filter (\<lambda>x. sub_topic x = f) (accepted ss codes) \<and>
    map_of (subscriptions (handle_suback k codes s)) f =
      (case filter (\<lambda>x. sub_topic x = f) (accepted ss codes) of
         [] \<Rightarrow> map_of (subscriptions s) f | ys \<Rightarrow> Some (last ys)) \<and>
    subscribe_result (handle_suback k codes s) a = result_updates ss codes rs \<and>
    tok_done (handle_suback k codes s) a \<and>
    tok_err (handle_suback k codes s) a = tok_err s a \<and>
    get_token k (packet_ids (handle_suback k codes s)) = None"
proof -
  have "tok_live s a" using assms(2) by (auto simp: tok_view_defs)
  with assms suback_loop_effect[OF assms(2), of 0 codes] show ?thesis
    by (simp add: handle_suback_def tok_simps fold_tm_add map_of_file_subs subscribe_result_def)
      (simp add: get_token_def free_id_def)
qed

text \<open>
  An UNSUBACK removes every subscription of the token's topics from the trie and completes the
  token, but the map of subscriptions that a reconnection restores from is left as it was.
\<close>

lemma unsuback_removes_topics:
  assumes "get_token k (packet_ids s) = Some (Unsubscribe a)"
    and "data_at s a = Some (UnsubscribeData ts)"
  shows "tm_subs_at (topic_manager (handle_unsuback k s)) f =
      (if f \<in> set ts then [] else tm_subs_at (topic_manager s) f) \<and>
    subscriptions (handle_unsuback k s) = subscriptions s \<and>
    tok_done (handle_unsuback k s) a \<and>
    get_token k (packet_ids (handle_unsuback k s)) = None"
proof -
  have "tok_live s a" using assms(2) by (auto simp: tok_view_defs)
  with assms show ?thesis
    by (simp add: handle_unsuback_def tok_simps fold_tm_remove unsubscribe_topics_def)
      (simp add: get_token_def free_id_def)
qed

text \<open>The packets the write loop has put on the wire, and the iterations that succeed.\<close>

fun write_ok :: "write_event \<Rightarrow> bool" where
  "write_ok (MsgRecv (Some p) (WriteOk now)) = True"
| "write_ok (OutRecv (Some out) (WriteOk now)) = True"
| "write_ok _ = False"

fun event_packets :: "write_event \<Rightarrow> variable_packet list" where
  "event_packets (MsgRecv (Some p) r) = [p]"
| "event_packets (OutRecv (Some out) r) = [pt_packet out]"
| "event_packets _ = []"

lemma write_step_going:
  "fst (write_step e s) = write_ok e"
  "fst (snd (write_step e s)) = (if write_ok e then event_packets e else [])"
  by (cases "(e, s)" rule: write_step.cases; simp)+

text \<open>
  The write loop is first-in first-out: it writes the packets of the iterations before the first
  failure, in the order in which the channels yielded them, and exits exactly at that failure
  (a closed channel or a failed write).
\<close>

lemma write_loop_fifo:
  "fst (snd (write_to_server es s)) = concat (map event_packets (takeWhile write_ok es)) \<and>
   fst (write_to_server es s) = (\<not> list_all write_ok es)"
proof (induction es arbitrary: s)
  case (Cons e es)
  obtain going out s' where step: "write_step e s = (going, out, s')" by (cases "write_step e s")
  then have "going = write_ok e" "out = (if write_ok e then event_packets e else [])"
    using write_step_going[of e s] by simp_all
  with step Cons.IH[of s'] show ?case
    by (cases "write_to_server es s'") auto
qed simp

text \<open>
  After a successful write of an outgoing packet the only tokens that become complete are its own
  publish token of level 0 or its disconnect token, and no error changes; after a failed write its
  token carries the I/O error and the loop exits.
\<close>

lemma write_step_settles:
  "tok_done (snd (snd (write_step (OutRecv (Some out) (WriteOk now)) s))) a =
     (tok_done s a \<or> tok_live s a \<and>
       (pt_token out = Some (Publish a) \<and> publish_qos s a = Some Level0 \<or>
        pt_token out = Some (Disconnect a))) \<and>
   tok_err (snd (snd (write_step (OutRecv (Some out) (WriteOk now)) s))) a = tok_err s a \<and>
   fst (write_step (OutRecv (Some out) (WriteErr e)) s) = False \<and>
   tok_err (snd (snd (write_step (OutRecv (Some out) (WriteErr e)) s))) a =
     (if (\<exists>t. pt_token out = Some t \<and> token_addr t = a) \<and> tok_live s a
      then Some (IOError e) else tok_err s a)"
proof -
  have qos: "publish_qos (s\<lparr>last_sent_packet_at := now\<rparr>) b = publish_qos s b" for b
    by (simp add: publish_qos_def)
  show ?thesis
    by (auto simp: complete_written_def qos tok_simps dest: tok_done_live
        split: option.split token.split)
qed

text \<open>The loop \<open>keep_alive\<close>: the actions taken, one element of inputs per iteration.\<close>

fun keep_alive ::
  "duration \<Rightarrow> (bool \<times> instant \<times> instant \<times> bool) list \<Rightarrow> ('c, 'a) state_scheme \<Rightarrow>
   (keep_alive_action list \<times> ('c, 'a) state_scheme) outcome" where
  "keep_alive dur [] s = Done ([], s)"
| "keep_alive dur ((exit_flag, now, now2, sent) # inputs) s =
     bind_outcome (keep_alive_step dur exit_flag now now2 sent s)
       (\<lambda>(act, s'). if act = Exit then Done ([act], s')
          else bind_outcome (keep_alive dur inputs s') (\<lambda>(acts, s''). Done (act # acts, s'')))"

text \<open>
  The keep-alive task pings exactly when the connection has been idle for the keep-alive time,
  and otherwise sleeps to the instant at which it would have been; it never panics while the channel
  exists.
\<close>

lemma keep_alive_pings_when_idle:
  assumes "outgoing_tx s = Some ch" and "last_sent_packet_at s \<le> now"
  shows "keep_alive_step dur False now now sent s =
    (if last_sent_packet_at s + dur \<le> now
     then Done (PingThenSleep dur, send_outgoing sent (packet_and_token_new PingreqPacket) s)
     else Done (SleepUntil (last_sent_packet_at s + dur), s))"
  using assms by (auto simp: keep_alive_step_def Let_def)

subsection \<open>Witnesses\<close>

lemma state_new_view:
  "packet_ids (state_new K now h) = packet_ids_new"
  "topic_manager (state_new K now h) = topic_manager_new"
  "subscriptions (state_new K now h) = []"
  "pending_packets (state_new K now h) = cache_new K"
  "spawned (state_new K now h) = []"
  "outgoing (state_new K now h) = []"
  "cells (state_new K now h) = cells h"
  "next_addr (state_new K now h) = next_addr h"
  by (simp_all add: state_new_def heap.extend_def)

lemma state_inv_new: "heap_ok h \<Longrightarrow> state_inv (state_new K now h)"
  by (simp add: state_inv_def state_new_view get_token_def packet_ids_new_def heap_ok_def tok_live_def
      pid_ok_def PKID_MIN_def)

definition sample_state :: "(u16 \<Rightarrow> publish_packet option) state" where
  "sample_state = (state_new sample_libs 0 empty_heap)
     \<lparr>cells := [0 \<mapsto> inner_default (SubscribeData [subscription_new ''a/#'' Level1 5] []),
                1 \<mapsto> inner_default (UnsubscribeData [''b''])],
      next_addr := 2,
      packet_ids := \<lparr>index = [(2, Subscribe 0), (3, Unsubscribe 1)], last_issued_id = 3\<rparr>,
      outgoing_tx := Some 0\<rparr>"

definition sample_publish :: "qos_with_packet_identifier \<Rightarrow> publish_packet" where
  "sample_publish q = \<lparr>pp_topic_name = ''a/b'', pp_qos = q, pp_payload = [1], pp_dup = False, pp_retain = False\<rparr>"

lemma sample_state_inv: "state_inv sample_state"
  by (auto simp: state_inv_def sample_state_def state_new_view heap_ok_def tok_live_def pid_ok_def
      distinct_keys_def get_token_def token_typed_def data_at_def inner_default_def split: if_splits)


lemma qos2_delivered_once_witness:
  "spawned (snd (handle_pubrel sample_libs 7 (snd (handle_pubrel sample_libs 7 sample_state)))) =
   spawned (snd (handle_pubrel sample_libs 7 sample_state))"
  by (rule qos2_delivered_once[OF sample_libs_codec sample_libs_cache, of "[]" 7 sample_state False "[]"])
    simp_all

end
