(* ===== verification/Client_Ops.thy ===== *)
theory Client_Ops
  imports Options Net
begin

section \<open>The client's operations\<close>

text \<open>
  \<^verbatim>\<open>src/src/client.rs\<close>: the struct \<open>MqttClient\<close> and its implementation of the trait \<open>Client\<close>
  (\<^verbatim>\<open>src/src/lib.rs\<close>). The record \<open>mqtt_client\<close> extends the shared state it holds an \<open>Arc\<close> of.
  Each operation is a function that returns the address of its token and the client, or \<open>Panic\<close>;
  what it awaits outside the program (the transport, the server's first frame, whether the channel
  took a packet) is an argument. \<open>wire\<close> lists the packets \<open>connect\<close> wrote itself.
\<close>

datatype connect_status = Connected | Disconnected | Connecting

record 'c mqtt_client = "'c state" +
  options :: client_options
  connect_status :: connect_status
  notify_permit :: bool
  manual_disconnect :: bool
  wire :: "variable_packet list"

definition mqtt_client_new :: "'c libs \<Rightarrow> instant \<Rightarrow> heap \<Rightarrow> client_options \<Rightarrow> 'c mqtt_client" where
  "mqtt_client_new K now h opts =
     state.extend (state_new K now h)
       \<lparr>options = opts, connect_status = Disconnected, notify_permit = False,
        manual_disconnect = False, wire = []\<rparr>"

definition set_connect_status :: "connect_status \<Rightarrow> 'c mqtt_client \<Rightarrow> 'c mqtt_client" where
  "set_connect_status st c = c\<lparr>connect_status := st\<rparr>"

definition is_connected :: "'c mqtt_client \<Rightarrow> bool" where
  "is_connected c \<longleftrightarrow> connect_status c = Connected"

subsection \<open>The CONNECT packet\<close>

fun qos_as_u8 :: "quality_of_service \<Rightarrow> u8" where
  "qos_as_u8 Level0 = 0"
| "qos_as_u8 Level1 = 1"
| "qos_as_u8 Level2 = 2"

text \<open>\<open>as u16\<close> keeps the low 16 bits of the seconds. An invalid will panics in \<open>unwrap\<close>.\<close>

definition build_connect_packet :: "'c libs \<Rightarrow> client_options \<Rightarrow> connect_call list outcome" where
  "build_connect_packet K opts =
     (let base = [NewConnect (get_client_id opts), SetCleanSession (get_clean_session opts),
                  SetKeepAlive (of_nat (as_secs (get_keep_alive opts)))];
          tail = (if get_username opts \<noteq> [] then [SetUsername (get_username opts)] else []) @
                 (if get_password opts \<noteq> [] then [SetPassword (get_password opts)] else [])
      in if get_will_enabled opts
         then bind_outcome (unwrap_option (last_will_new K (get_will_topic opts) (get_will_payload opts)))
                (\<lambda>(t, m). Done (base @ [SetWillQos (qos_as_u8 (get_will_qos opts)),
                                 SetWillRetain (get_will_retained opts), SetWill t m] @ tail))
         else Done (base @ tail))"

subsection \<open>connect\<close>

text \<open>The first frame read after CONNECT.\<close>

datatype first_frame = FirstPacket variable_packet | FirstError string | FirstNone

text \<open>
  What the transport does when it is called: it panics, returns an error, or a connection. With a connection comes
  whether \<open>frame_writer.send\<close> writes the CONNECT packet; the code ignores that (\<open>let _ =\<close>).
\<close>

datatype network = NetPanic | NetError token_error | NetOpen bool

definition connect_written :: "bool \<Rightarrow> connect_call list \<Rightarrow> variable_packet list" where
  "connect_written sent calls = (if sent then [ConnectPacket calls] else [])"

text \<open>
  The accepted branch, before the tasks are spawned: a new \<open>State\<close> that takes over the identifiers,
  subscriptions, topics and parked packets of the old one, with a new channel (number \<open>ch\<close>).
\<close>

definition adopt_state :: "instant \<Rightarrow> nat \<Rightarrow> 'c mqtt_client \<Rightarrow> 'c mqtt_client" where
  "adopt_state now ch c =
     c\<lparr>outgoing_tx := Some ch, last_sent_packet_at := now, outgoing := []\<rparr>"

text \<open>The accepted branch, after the tasks are spawned.\<close>

definition finish_connect :: "bool \<Rightarrow> addr \<Rightarrow> 'c mqtt_client \<Rightarrow> 'c mqtt_client" where
  "finish_connect session_present token c =
     (let c1 = c\<lparr>connect_status := Connected, manual_disconnect := False\<rparr>;
          c2 = (if session_present then connect_set_session_present token c1 else c1)
      in tok_flow_complete token c2)"

definition refuse_connect :: "token_error \<Rightarrow> addr \<Rightarrow> 'c mqtt_client \<Rightarrow> 'c mqtt_client" where
  "refuse_connect e token c = tok_set_error e token (set_connect_status Disconnected c)"

definition connect_reply :: "first_frame \<Rightarrow> instant \<Rightarrow> nat \<Rightarrow> addr \<Rightarrow> 'c mqtt_client \<Rightarrow> 'c mqtt_client" where
  "connect_reply first now ch token c =
     (case first of
        FirstPacket packet \<Rightarrow>
          (case packet of
             ConnackPacket code session_present \<Rightarrow>
               (case code of
                  ConnectionAccepted \<Rightarrow> finish_connect session_present token (adopt_state now ch c)
                | RefusedCode n \<Rightarrow>
                    refuse_connect (ConnectFailed n) token (connect_set_return_code code token c))
           | _ \<Rightarrow> refuse_connect (PacketError ''Not Connack Packet'') token c)
      | FirstError e \<Rightarrow> refuse_connect (PacketError e) token c
      | FirstNone \<Rightarrow> refuse_connect (ConnectFailed 0) token c)"

definition connect ::
  "'c libs \<Rightarrow> network \<Rightarrow> first_frame \<Rightarrow> instant \<Rightarrow> nat \<Rightarrow> 'c mqtt_client \<Rightarrow>
   (addr \<times> 'c mqtt_client) outcome" where
  "connect K net first now ch c =
     (let (token, c1) = new_token connect_default c
      in case connect_status c1 of
           Connected \<Rightarrow> Done (token, connect_set_return_code ConnectionAccepted token c1)
         | Connecting \<Rightarrow> Done (token, tok_set_error Reconnecting token c1)
         | Disconnected \<Rightarrow>
             let c2 = set_connect_status Connecting c1
             in case net of
                  NetPanic \<Rightarrow> Panic
                | NetError e \<Rightarrow> Done (token, refuse_connect e token c2)
                | NetOpen sent \<Rightarrow>
                    bind_outcome (build_connect_packet K (options c2))
                      (\<lambda>calls. Done (token, connect_reply first now ch token
                         (c2\<lparr>wire := wire c2 @ connect_written sent calls\<rparr>))))"

subsection \<open>The outgoing channel\<close>

text \<open>\<open>outgoing_tx.clone().unwrap().send(..).await\<close>; a closed channel settles the token.\<close>

definition offer ::
  "bool \<Rightarrow> variable_packet \<Rightarrow> token \<Rightarrow> 'c mqtt_client \<Rightarrow> 'c mqtt_client outcome" where
  "offer ok packet token c =
     bind_outcome (unwrap_option (outgoing_tx c))
       (\<lambda>_. Done (if ok then send_outgoing True (packet_and_token_new_with packet token) c
                  else tok_set_error InternalServerError (token_addr token) c))"

subsection \<open>disconnect\<close>

definition disconnect :: "bool \<Rightarrow> 'c mqtt_client \<Rightarrow> (addr \<times> 'c mqtt_client) outcome" where
  "disconnect ok c =
     (let (token, c1) = new_token DisconnectData c
      in if \<not> is_connected c1 then Done (token, tok_set_error ConnectionLost token c1)
         else bind_outcome
                (offer ok DisconnectPacket (Disconnect token) (c1\<lparr>manual_disconnect := True\<rparr>))
                (\<lambda>c2. Done (token, c2)))"

subsection \<open>publish\<close>

text \<open>
  The \<open>match qos\<close>: the packet identifier of levels 1 and 2, \<open>None\<close> in the first component for
  \<open>pkid == 0\<close>.
\<close>

definition publish_qos_id ::
  "'c libs \<Rightarrow> quality_of_service \<Rightarrow> addr \<Rightarrow> 'c mqtt_client \<Rightarrow>
   (qos_with_packet_identifier option \<times> 'c mqtt_client) outcome" where
  "publish_qos_id K q token c =
     (case q of
        Level0 \<Rightarrow> Done (Some QLevel0, c)
      | Level1 \<Rightarrow>
          bind_outcome (get_id (overflow_checks K) (Publish token) (packet_ids c))
            (\<lambda>(pkid, ids). Done (if pkid = 0 then None else Some (QLevel1 pkid), c\<lparr>packet_ids := ids\<rparr>))
      | Level2 \<Rightarrow>
          bind_outcome (get_id (overflow_checks K) (Publish token) (packet_ids c))
            (\<lambda>(pkid, ids). Done (if pkid = 0 then None else Some (QLevel2 pkid), c\<lparr>packet_ids := ids\<rparr>)))"

definition publish_packet_new ::
  "string \<Rightarrow> qos_with_packet_identifier \<Rightarrow> u8 list \<Rightarrow> bool \<Rightarrow> publish_packet" where
  "publish_packet_new topic_name q payload retained =
     \<lparr>pp_topic_name = topic_name, pp_qos = q, pp_payload = payload, pp_dup = False, pp_retain = retained\<rparr>"

definition publish ::
  "'c libs \<Rightarrow> bool \<Rightarrow> string \<Rightarrow> quality_of_service \<Rightarrow> bool \<Rightarrow> u8 list \<Rightarrow> 'c mqtt_client \<Rightarrow>
   (addr \<times> 'c mqtt_client) outcome" where
  "publish K ok topic q retained payload c =
     (let (token, c0) = new_token publish_default c;
          c1 = publish_set_qos q token c0
      in if \<not> is_connected c1 then Done (token, tok_set_error ConnectionLost token c1)
         else bind_outcome (publish_qos_id K q token c1)
           (\<lambda>(qos, c2). case qos of
              None \<Rightarrow> Done (token, tok_set_error PacketIdError token c2)
            | Some qos \<Rightarrow>
                (case topic_name_new K topic of
                   None \<Rightarrow> Done (token, tok_set_error InvalidTopic token c2)
                 | Some tn \<Rightarrow>
                     bind_outcome
                       (offer ok (PublishPacket (publish_packet_new tn qos payload retained))
                         (Publish token) c2)
                       (\<lambda>c3. Done (token, c3)))))"

subsection \<open>subscribe and subscribe_multiple\<close>

text \<open>
  The lookup of conflicting subscriptions only feeds a log message and is left out. The
  subscriptions are added to the token after the packet has been handed to the channel:
  \<open>subscribe_send\<close> is the operation up to there.
\<close>

definition subscribe_send ::
  "'c libs \<Rightarrow> bool \<Rightarrow> string \<Rightarrow> quality_of_service \<Rightarrow> 'c mqtt_client \<Rightarrow>
   (bool \<times> addr \<times> 'c mqtt_client) outcome" where
  "subscribe_send K ok topic q c =
     (let (token, c1) = new_token subscribe_default c
      in if \<not> is_connected c1 then Done (False, token, tok_set_error ConnectionLost token c1)
         else bind_outcome (get_id (overflow_checks K) (Subscribe token) (packet_ids c1))
           (\<lambda>(pkid, ids).
              let c2 = c1\<lparr>packet_ids := ids\<rparr>
              in if pkid = 0 then Done (False, token, tok_set_error PacketIdError token c2)
                 else case topic_filter_new K topic of
                        None \<Rightarrow> Done (False, token, tok_set_error InvalidTopic token c2)
                      | Some tf \<Rightarrow>
                          bind_outcome
                            (offer ok (SubscribePacket pkid [(tf, q)]) (Subscribe token) c2)
                            (\<lambda>c3. Done (True, token, c3))))"

definition subscribe ::
  "'c libs \<Rightarrow> bool \<Rightarrow> string \<Rightarrow> quality_of_service \<Rightarrow> handler \<Rightarrow> 'c mqtt_client \<Rightarrow>
   (addr \<times> 'c mqtt_client) outcome" where
  "subscribe K ok topic q callback c =
     bind_outcome (subscribe_send K ok topic q c)
       (\<lambda>(sent, token, c1). Done (token,
          if sent then add_subscriptions [subscription_new topic q callback] token c1 else c1))"

text \<open>The loop over the topics: \<open>None\<close> at the first invalid filter.\<close>

fun collect_filters ::
  "'c libs \<Rightarrow> handler \<Rightarrow> (string \<times> quality_of_service) list \<Rightarrow>
   ((string \<times> quality_of_service) list \<times> subscription list) option" where
  "collect_filters K callback [] = Some ([], [])"
| "collect_filters K callback ((topic, q) # topics) =
     (case topic_filter_new K topic of
        None \<Rightarrow> None
      | Some tf \<Rightarrow>
          (case collect_filters K callback topics of
             None \<Rightarrow> None
           | Some (subscribes, subs) \<Rightarrow>
               Some ((tf, q) # subscribes, subscription_new topic q callback # subs)))"

definition subscribe_multiple ::
  "'c libs \<Rightarrow> bool \<Rightarrow> (string \<times> quality_of_service) list \<Rightarrow> handler \<Rightarrow> 'c mqtt_client \<Rightarrow>
   (addr \<times> 'c mqtt_client) outcome" where
  "subscribe_multiple K ok topics callback c =
     (let (token, c1) = new_token subscribe_default c
      in if \<not> is_connected c1 then Done (token, tok_set_error ConnectionLost token c1)
         else bind_outcome (get_id (overflow_checks K) (Subscribe token) (packet_ids c1))
           (\<lambda>(pkid, ids).
              let c2 = c1\<lparr>packet_ids := ids\<rparr>
              in if pkid = 0 then Done (token, tok_set_error PacketIdError token c2)
                 else case collect_filters K callback topics of
                        None \<Rightarrow> Done (token, tok_set_error InvalidTopic token c2)
                      | Some (subscribes, subs) \<Rightarrow>
                          bind_outcome (offer ok (SubscribePacket pkid subscribes) (Subscribe token) c2)
                            (\<lambda>c3. Done (token, add_subscriptions subs token c3))))"

subsection \<open>unsubscribe\<close>

text \<open>The loop over the topics: each valid one is also added to the token before the next is read.\<close>

fun unsubscribe_loop ::
  "'c libs \<Rightarrow> string list \<Rightarrow> addr \<Rightarrow> 'c mqtt_client \<Rightarrow> string list option \<times> 'c mqtt_client" where
  "unsubscribe_loop K [] token c = (Some [], c)"
| "unsubscribe_loop K (topic # topics) token c =
     (case topic_filter_new K topic of
        None \<Rightarrow> (None, c)
      | Some tf \<Rightarrow>
          (case unsubscribe_loop K topics token (unsubscribe_add_topic topic token c) of
             (None, c') \<Rightarrow> (None, c')
           | (Some tfs, c') \<Rightarrow> (Some (tf # tfs), c')))"

definition unsubscribe ::
  "'c libs \<Rightarrow> bool \<Rightarrow> string list \<Rightarrow> 'c mqtt_client \<Rightarrow> (addr \<times> 'c mqtt_client) outcome" where
  "unsubscribe K ok topics c =
     (let (token, c1) = new_token unsubscribe_default c
      in if \<not> is_connected c1 then Done (token, tok_set_error ConnectionLost token c1)
         else bind_outcome (get_id (overflow_checks K) (Unsubscribe token) (packet_ids c1))
           (\<lambda>(pkid, ids).
              let c2 = c1\<lparr>packet_ids := ids\<rparr>
              in if pkid = 0 then Done (token, tok_set_error PacketIdError token c2)
                 else case unsubscribe_loop K topics token c2 of
                        (None, c3) \<Rightarrow> Done (token, tok_set_error InvalidTopic token c3)
                      | (Some tfs, c3) \<Rightarrow>
                          bind_outcome (offer ok (UnsubscribePacket pkid tfs) (Unsubscribe token) c3)
                            (\<lambda>c4. Done (token, c4))))"

subsection \<open>The supervising task\<close>

text \<open>
  The end of the task that \<open>connect\<close> spawned, once both loops are over: it runs under the lock of
  \<open>connect_status\<close>, so it is one step.
\<close>

definition connection_over :: "'c mqtt_client \<Rightarrow> 'c mqtt_client" where
  "connection_over c =
     (let c1 = set_connect_status Disconnected c;
          (ids, c2) = clean_up (packet_ids c1) c1
      in c2\<lparr>packet_ids := ids\<rparr>)"

end
