(* ===== verification/Client_Contract.thy ===== *)
theory Client_Contract
  imports Client_Ops
begin

section \<open>The contract of the client's requests\<close>

text \<open>
  What every operation of the trait \<open>Client\<close> except \<open>connect\<close> promises, stated once in the locale
  \<open>client_request\<close>: it allocates one token, touches no other, and either hands exactly one packet
  with that token to the channel, leaving the token pending, or settles the token with an error and
  sends nothing. The five operations interpret it.
\<close>

subsection \<open>Frame lemmas for the client's own fields\<close>

lemma client_frame_tok [simp]:
  "options (tok_set_error e a c) = options c"
  "connect_status (tok_set_error e a c) = connect_status c"
  "notify_permit (tok_set_error e a c) = notify_permit c"
  "manual_disconnect (tok_set_error e a c) = manual_disconnect c"
  "wire (tok_set_error e a c) = wire c"
  "options (tok_flow_complete a c) = options c"
  "connect_status (tok_flow_complete a c) = connect_status c"
  "notify_permit (tok_flow_complete a c) = notify_permit c"
  "manual_disconnect (tok_flow_complete a c) = manual_disconnect c"
  "wire (tok_flow_complete a c) = wire c"
  "options (map_data f a c) = options c"
  "connect_status (map_data f a c) = connect_status c"
  "notify_permit (map_data f a c) = notify_permit c"
  "manual_disconnect (map_data f a c) = manual_disconnect c"
  "wire (map_data f a c) = wire c"
  by (simp_all add: tok_set_error_def tok_flow_complete_def map_data_def split: option.split)

lemma client_frame_new [simp]:
  "options (snd (new_token d c)) = options c"
  "connect_status (snd (new_token d c)) = connect_status c"
  "notify_permit (snd (new_token d c)) = notify_permit c"
  "manual_disconnect (snd (new_token d c)) = manual_disconnect c"
  "wire (snd (new_token d c)) = wire c"
  "options (send_outgoing ok pt c) = options c"
  "connect_status (send_outgoing ok pt c) = connect_status c"
  "notify_permit (send_outgoing ok pt c) = notify_permit c"
  "manual_disconnect (send_outgoing ok pt c) = manual_disconnect c"
  "wire (send_outgoing ok pt c) = wire c"
  by (simp_all add: new_token_def send_outgoing_def)

lemma client_updates_view [simp]:
  "tok_live (c\<lparr>connect_status := x\<rparr>) a = tok_live c a"
  "tok_live (c\<lparr>manual_disconnect := b\<rparr>) a = tok_live c a"
  "tok_live (c\<lparr>notify_permit := b\<rparr>) a = tok_live c a"
  "tok_live (c\<lparr>wire := w\<rparr>) a = tok_live c a"
  "tok_done (c\<lparr>connect_status := x\<rparr>) a = tok_done c a"
  "tok_done (c\<lparr>manual_disconnect := b\<rparr>) a = tok_done c a"
  "tok_done (c\<lparr>notify_permit := b\<rparr>) a = tok_done c a"
  "tok_done (c\<lparr>wire := w\<rparr>) a = tok_done c a"
  "tok_err (c\<lparr>connect_status := x\<rparr>) a = tok_err c a"
  "tok_err (c\<lparr>manual_disconnect := b\<rparr>) a = tok_err c a"
  "tok_err (c\<lparr>notify_permit := b\<rparr>) a = tok_err c a"
  "tok_err (c\<lparr>wire := w\<rparr>) a = tok_err c a"
  "data_at (c\<lparr>connect_status := x\<rparr>) a = data_at c a"
  "data_at (c\<lparr>manual_disconnect := b\<rparr>) a = data_at c a"
  "data_at (c\<lparr>notify_permit := b\<rparr>) a = data_at c a"
  "data_at (c\<lparr>wire := w\<rparr>) a = data_at c a"
  by (simp_all add: tok_view_defs)

lemma client_updates_inv [simp]:
  "state_inv (c\<lparr>connect_status := x\<rparr>) = state_inv c"
  "state_inv (c\<lparr>manual_disconnect := b\<rparr>) = state_inv c"
  "state_inv (c\<lparr>notify_permit := b\<rparr>) = state_inv c"
  "state_inv (c\<lparr>wire := w\<rparr>) = state_inv c"
  "state_inv (c\<lparr>outgoing_tx := ch\<rparr>) = state_inv c"
  "state_inv (c\<lparr>outgoing := q\<rparr>) = state_inv c"
  by (simp_all add: state_inv_def heap_ok_def token_typed_def)

subsection \<open>The client invariant\<close>

text \<open>A connected client has a channel, so \<open>outgoing_tx.unwrap()\<close> does not panic.\<close>

definition client_inv :: "'c mqtt_client \<Rightarrow> bool" where
  "client_inv c \<longleftrightarrow> state_inv c \<and> (is_connected c \<longrightarrow> outgoing_tx c \<noteq> None)"

lemma state_inv_new_token:
  assumes "state_inv s"
  shows "state_inv (snd (new_token d s))"
proof -
  have "token_typed (snd (new_token d s)) t" if "token_typed s t" for t
  proof -
    from that have "tok_live s (token_addr t)"
      by (auto simp: token_typed_def tok_view_defs)
    with state_invD(1)[OF assms] have "token_addr t \<noteq> next_addr s"
      by (auto simp: heap_ok_def)
    with that show ?thesis by (simp add: token_typed_def tok_simps)
  qed
  with assms show ?thesis by (simp add: state_inv_def)
qed

lemma state_inv_map_data:
  assumes "state_inv s" and "\<And>t d. kind_ok t d \<Longrightarrow> kind_ok t (f d)"
  shows "state_inv (map_data f a s)"
  using assms(1) by (simp add: state_inv_def) (blast intro: map_data_typed assms(2))

lemma state_inv_get_id:
  assumes "state_inv s" and get: "get_id checks t (packet_ids s) = Done (i, ids)" and "token_typed s t"
  shows "state_inv (s\<lparr>packet_ids := ids\<rparr>)"
proof -
  have "token_typed s u" if "map_of (index ids) j = Some u" for j u
  proof (cases "i = 0")
    case True
    then have "ids = packet_ids s" using get_id_Done[OF get] by simp
    with that state_invD(5)[OF assms(1), of j u] show ?thesis by (simp add: get_token_def)
  next
    case False
    then have "map_of (index ids) = (map_of (index (packet_ids s)))(i \<mapsto> t)"
      using pid.acquire_lookup[OF get] by simp
    with that assms(3) state_invD(5)[OF assms(1), of j u] show ?thesis
      by (auto simp: get_token_def split: if_splits)
  qed
  with assms(1) pid_ok_get_id[OF _ get] show ?thesis
    by (simp add: state_inv_def get_token_def)
qed

subsection \<open>Requests\<close>

text \<open>A request under way: its token is allocated and pending, nothing has been sent.\<close>

definition untouched :: "'c mqtt_client \<Rightarrow> 'c mqtt_client \<Rightarrow> bool" where
  "untouched c c' \<longleftrightarrow>
     (\<forall>a. a \<noteq> next_addr c \<longrightarrow> cells c' a = cells c a) \<and>
     next_addr c' = Suc (next_addr c) \<and> connect_status c' = connect_status c \<and>
     outgoing_tx c' = outgoing_tx c \<and> topic_manager c' = topic_manager c \<and>
     subscriptions c' = subscriptions c \<and> pending_packets c' = pending_packets c \<and>
     spawned c' = spawned c \<and> options c' = options c \<and>
     last_sent_packet_at c' = last_sent_packet_at c"

definition prepared :: "'c mqtt_client \<Rightarrow> 'c mqtt_client \<Rightarrow> bool" where
  "prepared c c' \<longleftrightarrow>
     client_inv c' \<and> untouched c c' \<and> outgoing c' = outgoing c \<and>
     tok_live c' (next_addr c) \<and> \<not> tok_done c' (next_addr c) \<and> tok_err c' (next_addr c) = None"

text \<open>What a request returns: its token is settled and nothing sent, or it is pending and sent.\<close>

definition settled_request :: "'c mqtt_client \<Rightarrow> addr \<Rightarrow> 'c mqtt_client \<Rightarrow> bool" where
  "settled_request c t c' \<longleftrightarrow> outgoing c' = outgoing c \<and> tok_done c' t \<and> tok_err c' t \<noteq> None"

definition sent_request :: "'c mqtt_client \<Rightarrow> addr \<Rightarrow> 'c mqtt_client \<Rightarrow> bool" where
  "sent_request c t c' \<longleftrightarrow>
     is_connected c \<and> \<not> tok_done c' t \<and> tok_err c' t = None \<and>
     (\<exists>p tk. outgoing c' = outgoing c @ [packet_and_token_new_with p tk] \<and> token_addr tk = t)"

definition request_post :: "'c mqtt_client \<Rightarrow> bool \<Rightarrow> addr \<times> 'c mqtt_client \<Rightarrow> bool" where
  "request_post c ok r \<longleftrightarrow>
     fst r = next_addr c \<and> client_inv (snd r) \<and> untouched c (snd r) \<and>
     (settled_request c (fst r) (snd r) \<or> ok \<and> sent_request c (fst r) (snd r))"

lemma client_invD: "client_inv c \<Longrightarrow> state_inv c"
  by (simp add: client_inv_def)

lemma cells_new_token: "a \<noteq> next_addr h \<Longrightarrow> cells (snd (new_token d h)) a = cells h a"
  by (simp add: new_token_def)

lemma prepared_new: "client_inv c \<Longrightarrow> prepared c (snd (new_token d c))"
  by (simp add: prepared_def untouched_def client_inv_def state_inv_new_token is_connected_def
      tok_simps cells_new_token)

lemma prepared_connected: "prepared c c' \<Longrightarrow> is_connected c' = is_connected c"
  by (simp add: prepared_def untouched_def is_connected_def)

lemma map_data_untouched: "untouched c c' \<Longrightarrow> untouched c (map_data f (next_addr c) c')"
  by (auto simp: untouched_def tok_simps) (simp add: map_data_def split: option.split)

lemma map_data_inv:
  "client_inv c \<Longrightarrow> (\<And>t d. kind_ok t d \<Longrightarrow> kind_ok t (f d)) \<Longrightarrow> client_inv (map_data f a c)"
  by (simp add: client_inv_def state_inv_map_data is_connected_def)

lemma prepared_map_data:
  assumes "prepared c c'" and "\<And>t d. kind_ok t d \<Longrightarrow> kind_ok t (f d)"
  shows "prepared c (map_data f (next_addr c) c')"
  using assms map_data_untouched[of c c' f] map_data_inv[of c' f "next_addr c"]
  by (simp add: prepared_def tok_simps)

lemma prepared_get_id:
  assumes "prepared c c'" and "get_id checks t (packet_ids c') = Done (i, ids)" and "token_typed c' t"
  shows "prepared c (c'\<lparr>packet_ids := ids\<rparr>)"
proof -
  have "client_inv c'" using assms(1) by (simp add: prepared_def)
  then have "client_inv (c'\<lparr>packet_ids := ids\<rparr>)"
    using state_inv_get_id[OF _ assms(2,3)] by (simp add: client_inv_def is_connected_def)
  with assms(1) show ?thesis by (simp add: prepared_def untouched_def)
qed

lemma set_error_request:
  assumes "prepared c c'"
  shows "request_post c ok (next_addr c, tok_set_error e (next_addr c) c')"
proof -
  have "untouched c (tok_set_error e (next_addr c) c')"
    using assms by (auto simp: prepared_def untouched_def tok_simps)
      (simp add: tok_set_error_def split: option.split)
  then show ?thesis
    using assms
    by (simp add: request_post_def settled_request_def prepared_def client_inv_def is_connected_def tok_simps)
qed

lemma offer_request:
  assumes "prepared c c'" and "is_connected c" and "token_addr tk = next_addr c"
    and "offer ok p tk c' = Done c2"
  shows "request_post c ok (next_addr c, c2)"
proof (cases ok)
  case True
  with assms have "c2 = send_outgoing True (packet_and_token_new_with p tk) c'"
    by (auto simp: offer_def bind_outcome_Done_iff)
  with True assms show ?thesis
    by (auto simp: request_post_def sent_request_def prepared_def client_inv_def is_connected_def untouched_def)
next
  case False
  with assms have "c2 = tok_set_error InternalServerError (next_addr c) c'"
    by (auto simp: offer_def bind_outcome_Done_iff)
  with set_error_request[OF assms(1)] show ?thesis by simp
qed

lemma request_post_map_data:
  assumes "request_post c ok (t, c')" and "\<And>u d. kind_ok u d \<Longrightarrow> kind_ok u (f d)"
  shows "request_post c ok (t, map_data f t c')"
  using assms map_data_untouched[of c c' f] map_data_inv[of c' f t]
  by (auto simp: request_post_def settled_request_def sent_request_def tok_simps)

lemma offer_not_panic:
  "client_inv c \<Longrightarrow> is_connected c \<Longrightarrow> offer ok p tk c \<noteq> Panic"
  by (auto simp: offer_def client_inv_def)

lemma get_id_not_panic: "get_id False t ids \<noteq> Panic"
  by (simp add: get_id_release Let_def)

subsection \<open>The interface\<close>

locale client_request =
  fixes run :: "bool \<Rightarrow> 'c mqtt_client \<Rightarrow> (addr \<times> 'c mqtt_client) outcome"
    and checks :: bool
  assumes post: "client_inv c \<Longrightarrow> run ok c = Done r \<Longrightarrow> request_post c ok r"
    and lost: "client_inv c \<Longrightarrow> \<not> is_connected c \<Longrightarrow>
      \<exists>c'. run ok c = Done (next_addr c, c') \<and> tok_err c' (next_addr c) = Some ConnectionLost \<and>
        packet_ids c' = packet_ids c"
    and returns: "client_inv c \<Longrightarrow> \<not> checks \<Longrightarrow> run ok c \<noteq> Panic"
begin

lemma keeps_inv: "client_inv c \<Longrightarrow> run ok c = Done (t, c') \<Longrightarrow> client_inv c'"
  using post[of c ok "(t, c')"] by (simp add: request_post_def)

lemma token_fresh: "client_inv c \<Longrightarrow> run ok c = Done (t, c') \<Longrightarrow> t = next_addr c \<and> \<not> tok_live c t"
  using post[of c ok "(t, c')"] by (auto simp: request_post_def client_inv_def state_inv_def heap_ok_def)

lemma others_undisturbed:
  "client_inv c \<Longrightarrow> run ok c = Done (t, c') \<Longrightarrow> a \<noteq> t \<Longrightarrow> cells c' a = cells c a"
  using post[of c ok "(t, c')"] by (auto simp: request_post_def untouched_def)

text \<open>The caller's first poll tells whether the packet was handed over.\<close>

lemma pending_iff_sent:
  assumes "client_inv c" and "run ok c = Done (t, c')"
  shows "fst (tok_poll t w c') = Pending \<longleftrightarrow> outgoing c' \<noteq> outgoing c"
  using post[OF assms]
  by (auto simp: request_post_def settled_request_def sent_request_def tok_simps)

lemma closed_channel_settles:
  "client_inv c \<Longrightarrow> run False c = Done (t, c') \<Longrightarrow> tok_done c' t \<and> outgoing c' = outgoing c"
  using post[of c False "(t, c')"] by (auto simp: request_post_def settled_request_def)

lemma done_obtain:
  assumes "client_inv c" and "\<not> checks"
  obtains c' where "run ok c = Done (next_addr c, c')"
proof (cases "run ok c")
  case Panic
  with returns[OF assms, of ok] show ?thesis by simp
next
  case (Done r)
  obtain t c' where r: "r = (t, c')" by (cases r)
  with Done token_fresh[OF assms(1)] have "t = next_addr c" by simp
  with Done r that show ?thesis by simp
qed

end

subsection \<open>Interpretations\<close>

lemmas request_defs = disconnect_def publish_def subscribe_def subscribe_send_def
  subscribe_multiple_def unsubscribe_def publish_qos_id_def Let_def
lemmas data_op_defs = publish_set_qos_def add_subscriptions_def unsubscribe_add_topic_def

lemma fst_new_token: "fst (new_token d h) = next_addr h"
  by (simp add: new_token_def Let_def)

lemma token_typed_new: "kind_ok t d \<Longrightarrow> token_addr t = next_addr h \<Longrightarrow> token_typed (snd (new_token d h)) t"
  by (simp add: token_typed_def tok_simps)

lemma kind_ok_add_topic: "kind_ok t d \<Longrightarrow> kind_ok t (case d of UnsubscribeData ts \<Rightarrow> UnsubscribeData (ts @ [x]) | _ \<Rightarrow> d)"
  by (cases t; cases d) simp_all

lemma kind_ok_add_subs: "kind_ok t d \<Longrightarrow> kind_ok t (case d of SubscribeData ss rs \<Rightarrow> SubscribeData (ss @ x) rs | _ \<Rightarrow> d)"
  by (cases t; cases d) simp_all

lemma kind_ok_set_qos: "kind_ok t d \<Longrightarrow> kind_ok t (case d of PublishData _ \<Rightarrow> PublishData q | _ \<Rightarrow> d)"
  by (cases t; cases d) simp_all

lemma prepared_set_qos:
  "prepared c c1 \<Longrightarrow> prepared c (publish_set_qos q (next_addr c) c1)"
  unfolding publish_set_qos_def by (erule prepared_map_data) (rule kind_ok_set_qos)

lemma prepared_unsubscribe_loop:
  "prepared c c1 \<Longrightarrow> unsubscribe_loop K topics (next_addr c) c1 = (r, c2) \<Longrightarrow> prepared c c2"
proof (induction topics arbitrary: c1 r)
  case (Cons topic topics)
  have "prepared c (unsubscribe_add_topic topic (next_addr c) c1)"
    unfolding unsubscribe_add_topic_def
    using Cons.prems(1) by (rule prepared_map_data) (rule kind_ok_add_topic)
  with Cons show ?case by (auto split: option.splits prod.splits)
qed simp

lemma request_post_add_subs:
  "request_post c ok (t, c1) \<Longrightarrow> request_post c ok (t, add_subscriptions ss t c1)"
  unfolding add_subscriptions_def by (erule request_post_map_data) (rule kind_ok_add_subs)

lemma is_connected_new [simp]: "is_connected (snd (new_token d c)) = is_connected c"
  by (simp add: is_connected_def)

lemma is_connected_set_qos [simp]: "is_connected (publish_set_qos q a c) = is_connected c"
  by (simp add: is_connected_def publish_set_qos_def)

lemma prepared_client_inv: "prepared c c1 \<Longrightarrow> client_inv c1"
  by (simp add: prepared_def)

lemma prepared_manual: "prepared c c1 \<Longrightarrow> prepared c (c1\<lparr>manual_disconnect := b\<rparr>)"
  by (simp add: prepared_def untouched_def client_inv_def is_connected_def) (elim conjE; simp)

text \<open>An outcome within the contract; only a build with overflow checks may panic.\<close>

definition outcome_ok :: "bool \<Rightarrow> 'c mqtt_client \<Rightarrow> bool \<Rightarrow> (addr \<times> 'c mqtt_client) outcome \<Rightarrow> bool" where
  "outcome_ok checks c ok m \<longleftrightarrow> (case m of Panic \<Rightarrow> checks | Done r \<Rightarrow> request_post c ok r)"

lemma outcome_okD:
  "outcome_ok checks c ok m \<Longrightarrow> m = Done r \<Longrightarrow> request_post c ok r"
  "outcome_ok checks c ok m \<Longrightarrow> \<not> checks \<Longrightarrow> m \<noteq> Panic"
  by (auto simp: outcome_ok_def)

lemma outcome_ok_error:
  "prepared c c1 \<Longrightarrow> outcome_ok checks c ok (Done (next_addr c, tok_set_error e (next_addr c) c1))"
  by (simp add: outcome_ok_def set_error_request)

lemma outcome_ok_offer:
  assumes "prepared c c1" and "is_connected c" and "token_addr tk = next_addr c"
    and "\<And>c2. request_post c ok (next_addr c, c2) \<Longrightarrow> request_post c ok (next_addr c, f c2)"
  shows "outcome_ok checks c ok (bind_outcome (offer ok p tk c1) (\<lambda>c2. Done (next_addr c, f c2)))"
proof (cases "offer ok p tk c1")
  case Panic
  with offer_not_panic[OF prepared_client_inv[OF assms(1)]] prepared_connected[OF assms(1)] assms(2)
  show ?thesis by simp
next
  case (Done c2)
  with assms(4) offer_request[OF assms(1-3) Done] show ?thesis by (simp add: outcome_ok_def)
qed

lemma outcome_ok_get_id:
  assumes "prepared c c1" and "token_typed c1 tk"
    and "\<And>i ids. prepared c (c1\<lparr>packet_ids := ids\<rparr>) \<Longrightarrow> outcome_ok checks c ok (f (i, ids))"
  shows "outcome_ok checks c ok (bind_outcome (get_id checks tk (packet_ids c1)) f)"
proof (cases "get_id checks tk (packet_ids c1)")
  case Panic
  with get_id_not_panic[of tk "packet_ids c1"] show ?thesis by (cases checks) (simp_all add: outcome_ok_def)
next
  case (Done r)
  obtain i ids where "r = (i, ids)" by (cases r)
  with Done assms(3)[OF prepared_get_id[OF assms(1) _ assms(2)]] show ?thesis by simp
qed

text \<open>The operations with the address of their token written out.\<close>

lemma disconnect_eq:
  "disconnect ok c =
     (let c1 = snd (new_token DisconnectData c)
      in if \<not> is_connected c then Done (next_addr c, tok_set_error ConnectionLost (next_addr c) c1)
         else bind_outcome
           (offer ok DisconnectPacket (Disconnect (next_addr c)) (c1\<lparr>manual_disconnect := True\<rparr>))
           (\<lambda>c2. Done (next_addr c, c2)))"
  by (simp add: disconnect_def Let_def case_prod_beta fst_new_token)

lemma disconnect_ok:
  "client_inv c \<Longrightarrow> outcome_ok checks c ok (disconnect ok c)"
  unfolding disconnect_eq Let_def
  by (auto intro!: outcome_ok_error outcome_ok_offer prepared_manual prepared_new)

definition publish_start :: "quality_of_service \<Rightarrow> 'c mqtt_client \<Rightarrow> 'c mqtt_client" where
  "publish_start q c = publish_set_qos q (next_addr c) (snd (new_token publish_default c))"

lemma publish_start:
  "client_inv c \<Longrightarrow> prepared c (publish_start q c)"
  "token_typed (publish_start q c) (Publish (next_addr c))"
proof -
  show "client_inv c \<Longrightarrow> prepared c (publish_start q c)"
    unfolding publish_start_def by (intro prepared_set_qos prepared_new)
  show "token_typed (publish_start q c) (Publish (next_addr c))"
    by (simp add: publish_start_def token_typed_def publish_set_qos_def publish_default_def tok_simps)
qed

lemma publish_eq:
  "publish K ok topic q retained payload c =
     (let t = next_addr c; c1 = publish_start q c
      in if \<not> is_connected c then Done (t, tok_set_error ConnectionLost t c1)
         else bind_outcome (publish_qos_id K q t c1)
           (\<lambda>r. case fst r of
              None \<Rightarrow> Done (t, tok_set_error PacketIdError t (snd r))
            | Some qos \<Rightarrow>
                (case topic_name_new K topic of
                   None \<Rightarrow> Done (t, tok_set_error InvalidTopic t (snd r))
                 | Some tn \<Rightarrow>
                     bind_outcome (offer ok (PublishPacket (publish_packet_new tn qos payload retained))
                       (Publish t) (snd r)) (\<lambda>c3. Done (t, c3)))))"
  unfolding publish_def Let_def case_prod_beta fst_new_token publish_start_def by simp

lemma outcome_ok_qos_id:
  assumes "prepared c c1" and "token_typed c1 (Publish a)"
    and "\<And>qos c2. prepared c c2 \<Longrightarrow> outcome_ok (overflow_checks K) c ok (f (qos, c2))"
  shows "outcome_ok (overflow_checks K) c ok (bind_outcome (publish_qos_id K q a c1) f)"
  using assms
  by (cases q) (simp_all add: publish_qos_id_def bind_assoc_outcome outcome_ok_get_id)

lemma publish_ok:
  assumes "client_inv c"
  shows "outcome_ok (overflow_checks K) c ok (publish K ok topic q retained payload c)"
  unfolding publish_eq Let_def
  by (auto intro!: outcome_ok_error publish_start assms outcome_ok_qos_id outcome_ok_offer
      split: option.split)

definition subscribe_start :: "'c mqtt_client \<Rightarrow> 'c mqtt_client" where
  "subscribe_start c = snd (new_token subscribe_default c)"

lemma subscribe_start:
  "client_inv c \<Longrightarrow> prepared c (subscribe_start c)"
  "token_typed (subscribe_start c) (Subscribe (next_addr c))"
  by (simp_all add: subscribe_start_def prepared_new token_typed_new subscribe_default_def)

lemma subscribe_eq:
  "subscribe K ok topic q callback c =
     (let t = next_addr c; c1 = subscribe_start c
      in if \<not> is_connected c then Done (t, tok_set_error ConnectionLost t c1)
         else bind_outcome (get_id (overflow_checks K) (Subscribe t) (packet_ids c1))
           (\<lambda>r. if fst r = 0 then Done (t, tok_set_error PacketIdError t (c1\<lparr>packet_ids := snd r\<rparr>))
              else case topic_filter_new K topic of
                     None \<Rightarrow> Done (t, tok_set_error InvalidTopic t (c1\<lparr>packet_ids := snd r\<rparr>))
                   | Some tf \<Rightarrow>
                       bind_outcome (offer ok (SubscribePacket (fst r) [(tf, q)]) (Subscribe t)
                         (c1\<lparr>packet_ids := snd r\<rparr>))
                       (\<lambda>c3. Done (t, add_subscriptions [subscription_new topic q callback] t c3))))"
  unfolding subscribe_def subscribe_send_def Let_def case_prod_beta fst_new_token subscribe_start_def
  by (cases "topic_filter_new K topic")
    (simp_all add: bind_assoc_outcome if_distrib[where f = "\<lambda>m. bind_outcome m f" for f] cong: if_cong)

lemma subscribe_ok:
  assumes "client_inv c"
  shows "outcome_ok (overflow_checks K) c ok (subscribe K ok topic q callback c)"
  unfolding subscribe_eq Let_def
  by (auto intro!: outcome_ok_error subscribe_start assms outcome_ok_get_id outcome_ok_offer
      request_post_add_subs split: option.split)

lemma subscribe_multiple_eq:
  "subscribe_multiple K ok topics callback c =
     (let t = next_addr c; c1 = subscribe_start c
      in if \<not> is_connected c then Done (t, tok_set_error ConnectionLost t c1)
         else bind_outcome (get_id (overflow_checks K) (Subscribe t) (packet_ids c1))
           (\<lambda>r. if fst r = 0 then Done (t, tok_set_error PacketIdError t (c1\<lparr>packet_ids := snd r\<rparr>))
              else case collect_filters K callback topics of
                     None \<Rightarrow> Done (t, tok_set_error InvalidTopic t (c1\<lparr>packet_ids := snd r\<rparr>))
                   | Some s \<Rightarrow>
                       bind_outcome (offer ok (SubscribePacket (fst r) (fst s)) (Subscribe t)
                         (c1\<lparr>packet_ids := snd r\<rparr>))
                       (\<lambda>c3. Done (t, add_subscriptions (snd s) t c3))))"
  unfolding subscribe_multiple_def Let_def case_prod_beta fst_new_token subscribe_start_def by simp

lemma subscribe_multiple_ok:
  assumes "client_inv c"
  shows "outcome_ok (overflow_checks K) c ok (subscribe_multiple K ok topics callback c)"
  unfolding subscribe_multiple_eq Let_def
  by (auto intro!: outcome_ok_error subscribe_start assms outcome_ok_get_id outcome_ok_offer
      request_post_add_subs split: option.split)

definition unsubscribe_start :: "'c mqtt_client \<Rightarrow> 'c mqtt_client" where
  "unsubscribe_start c = snd (new_token unsubscribe_default c)"

lemma unsubscribe_start:
  "client_inv c \<Longrightarrow> prepared c (unsubscribe_start c)"
  "token_typed (unsubscribe_start c) (Unsubscribe (next_addr c))"
  by (simp_all add: unsubscribe_start_def prepared_new token_typed_new unsubscribe_default_def)

lemma unsubscribe_eq:
  "unsubscribe K ok topics c =
     (let t = next_addr c; c1 = unsubscribe_start c
      in if \<not> is_connected c then Done (t, tok_set_error ConnectionLost t c1)
         else bind_outcome (get_id (overflow_checks K) (Unsubscribe t) (packet_ids c1))
           (\<lambda>r. if fst r = 0 then Done (t, tok_set_error PacketIdError t (c1\<lparr>packet_ids := snd r\<rparr>))
              else case unsubscribe_loop K topics t (c1\<lparr>packet_ids := snd r\<rparr>) of
                     (None, c3) \<Rightarrow> Done (t, tok_set_error InvalidTopic t c3)
                   | (Some tfs, c3) \<Rightarrow>
                       bind_outcome (offer ok (UnsubscribePacket (fst r) tfs) (Unsubscribe t) c3)
                         (\<lambda>c4. Done (t, c4))))"
  unfolding unsubscribe_def Let_def case_prod_beta fst_new_token unsubscribe_start_def by simp

lemma unsubscribe_ok:
  assumes "client_inv c"
  shows "outcome_ok (overflow_checks K) c ok (unsubscribe K ok topics c)"
  unfolding unsubscribe_eq Let_def
  by (auto intro!: outcome_ok_error unsubscribe_start assms outcome_ok_get_id outcome_ok_offer
      elim: prepared_unsubscribe_loop split: option.split prod.split)

lemmas request_eqs = disconnect_eq publish_eq subscribe_eq subscribe_multiple_eq unsubscribe_eq

text \<open>Without a connection each of them only allocates its token and settles it.\<close>

definition lost_outcome :: "'c mqtt_client \<Rightarrow> (addr \<times> 'c mqtt_client) outcome \<Rightarrow> bool" where
  "lost_outcome c m \<longleftrightarrow>
     (\<exists>c'. m = Done (next_addr c, c') \<and> tok_err c' (next_addr c) = Some ConnectionLost \<and>
       packet_ids c' = packet_ids c)"

lemma lost_outcomes:
  assumes "\<not> is_connected c"
  shows "lost_outcome c (disconnect ok c)"
    and "lost_outcome c (publish K ok topic q retained payload c)"
    and "lost_outcome c (subscribe K ok topic q callback c)"
    and "lost_outcome c (subscribe_multiple K ok topics callback c)"
    and "lost_outcome c (unsubscribe K ok ts c)"
  using assms
  by (simp_all add: lost_outcome_def request_eqs Let_def tok_simps publish_start_def publish_set_qos_def
      subscribe_start_def unsubscribe_start_def)

lemma client_requestI:
  assumes "\<And>c ok. client_inv c \<Longrightarrow> outcome_ok checks c ok (run ok c)"
    and "\<And>c ok. \<not> is_connected c \<Longrightarrow> lost_outcome c (run ok c)"
  shows "client_request run checks"
  using outcome_okD[OF assms(1)] assms(2) by (simp add: client_request_def lost_outcome_def)

interpretation disconnect_op: client_request disconnect False
  by (rule client_requestI) (simp_all add: disconnect_ok lost_outcomes)

interpretation publish_op:
  client_request "\<lambda>ok. publish K ok topic q retained payload" "overflow_checks K"
  for K topic q retained payload
  by (rule client_requestI) (simp_all add: publish_ok lost_outcomes)

interpretation subscribe_op:
  client_request "\<lambda>ok. subscribe K ok topic q callback" "overflow_checks K"
  for K topic q callback
  by (rule client_requestI) (simp_all add: subscribe_ok lost_outcomes)

interpretation subscribe_multiple_op:
  client_request "\<lambda>ok. subscribe_multiple K ok topics callback" "overflow_checks K"
  for K topics callback
  by (rule client_requestI) (simp_all add: subscribe_multiple_ok lost_outcomes)

interpretation unsubscribe_op:
  client_request "\<lambda>ok. unsubscribe K ok topics" "overflow_checks K"
  for K topics
  by (rule client_requestI) (simp_all add: unsubscribe_ok lost_outcomes)

end
