(* ===== verification/Client_Requests.thy ===== *)
theory Client_Requests
  imports Client_Contract
begin

section \<open>Requests of the client\<close>

text \<open>
  The calls of the trait \<open>Client\<close> (\<^verbatim>\<open>src/src/lib.rs\<close>) as data, a run of them on one client, and
  what each call does on its branches. \<open>connect\<close> is in the theory \<open>Client_Connect\<close>.
\<close>

datatype request =
    ReqDisconnect
  | ReqPublish string quality_of_service bool "u8 list"
  | ReqSubscribe string quality_of_service handler
  | ReqSubscribeMultiple "(string \<times> quality_of_service) list" handler
  | ReqUnsubscribe "string list"

fun do_request :: "'c libs \<Rightarrow> request \<Rightarrow> bool \<Rightarrow> 'c mqtt_client \<Rightarrow> (addr \<times> 'c mqtt_client) outcome" where
  "do_request K ReqDisconnect ok = disconnect ok"
| "do_request K (ReqPublish topic q retained payload) ok = publish K ok topic q retained payload"
| "do_request K (ReqSubscribe topic q callback) ok = subscribe K ok topic q callback"
| "do_request K (ReqSubscribeMultiple topics callback) ok = subscribe_multiple K ok topics callback"
| "do_request K (ReqUnsubscribe topics) ok = unsubscribe K ok topics"

text \<open>Each call with whether the channel took its packet; the tokens returned, in order.\<close>

fun requests ::
  "'c libs \<Rightarrow> (bool \<times> request) list \<Rightarrow> 'c mqtt_client \<Rightarrow> (addr list \<times> 'c mqtt_client) outcome" where
  "requests K [] c = Done ([], c)"
| "requests K ((ok, req) # reqs) c =
     bind_outcome (do_request K req ok c)
       (\<lambda>(t, c1). bind_outcome (requests K reqs c1) (\<lambda>(ts, c2). Done (t # ts, c2)))"

lemma do_request_ok: "client_inv c \<Longrightarrow> outcome_ok (overflow_checks K) c ok (do_request K req ok c)"
  by (cases req)
    (simp_all add: disconnect_ok publish_ok subscribe_ok subscribe_multiple_ok unsubscribe_ok)

lemma do_request_lost: "\<not> is_connected c \<Longrightarrow> lost_outcome c (do_request K req ok c)"
  by (cases req) (simp_all add: lost_outcomes)

interpretation req: client_request "do_request K req" "overflow_checks K" for K req
  by (rule client_requestI) (simp_all add: do_request_ok do_request_lost)

text \<open>The tokens of the packets handed to the channel since.\<close>

definition sent_tokens :: "'c mqtt_client \<Rightarrow> 'c mqtt_client \<Rightarrow> addr option list" where
  "sent_tokens c c' = map (\<lambda>p. map_option token_addr (pt_token p)) (drop (length (outgoing c)) (outgoing c'))"

definition extends_outgoing :: "'c mqtt_client \<Rightarrow> 'c mqtt_client \<Rightarrow> bool" where
  "extends_outgoing c c' \<longleftrightarrow> take (length (outgoing c)) (outgoing c') = outgoing c"

lemma sent_tokens_trans:
  assumes "extends_outgoing c c1" and "extends_outgoing c1 c2"
  shows "extends_outgoing c c2 \<and> sent_tokens c c2 = sent_tokens c c1 @ sent_tokens c1 c2"
proof -
  obtain xs where xs: "outgoing c1 = outgoing c @ xs"
    using assms(1) by (metis append_take_drop_id extends_outgoing_def)
  obtain ys where "outgoing c2 = outgoing c1 @ ys"
    using assms(2) by (metis append_take_drop_id extends_outgoing_def)
  with xs show ?thesis by (simp add: extends_outgoing_def sent_tokens_def)
qed

lemma request_post_sent:
  "request_post c ok (t, c') \<Longrightarrow>
     extends_outgoing c c' \<and> sent_tokens c c' = (if tok_done c' t then [] else [Some t])"
  by (auto simp: request_post_def settled_request_def sent_request_def sent_tokens_def
      extends_outgoing_def packet_and_token_new_with_def)

text \<open>
  The library form of the run: cells below the first new token are untouched.
\<close>

lemma requests_run:
  assumes "client_inv c" and "requests K reqs c = Done (ts, c')"
  shows "client_inv c' \<and> ts = [next_addr c..<next_addr c + length reqs] \<and>
    next_addr c' = next_addr c + length reqs \<and> extends_outgoing c c' \<and>
    (\<forall>a < next_addr c. cells c' a = cells c a) \<and>
    sent_tokens c c' = map Some (filter (\<lambda>t. \<not> tok_done c' t) ts)"
  using assms
proof (induction reqs arbitrary: c ts)
  case Nil
  then show ?case by (simp add: sent_tokens_def extends_outgoing_def)
next
  case (Cons r reqs)
  obtain ok q where r: "r = (ok, q)" by (cases r)
  with Cons.prems obtain t c1 ts' where
    first: "do_request K q ok c = Done (t, c1)" and rest: "requests K reqs c1 = Done (ts', c')"
    and ts: "ts = t # ts'"
    by (auto simp: bind_outcome_Done_iff)
  note post = req.post[OF Cons.prems(1) first]
  then have t: "t = next_addr c" and inv1: "client_inv c1"
    and cells1: "\<And>a. a \<noteq> t \<Longrightarrow> cells c1 a = cells c a" and next1: "next_addr c1 = Suc t"
    by (auto simp: request_post_def untouched_def)
  note IH = Cons.IH[OF inv1 rest]
  have done_t: "tok_done c' t = tok_done c1 t"
    using IH next1 by (simp add: tok_done_def)
  have "[t..<t + length (r # reqs)] = t # [Suc t..<Suc t + length reqs]"
    by (simp add: upt_conv_Cons del: upt_Suc)
  moreover have "extends_outgoing c c' \<and> sent_tokens c c' = sent_tokens c c1 @ sent_tokens c1 c'"
    by (rule sent_tokens_trans) (use request_post_sent[OF post] IH in simp_all)
  moreover have "\<forall>a < next_addr c. cells c' a = cells c a"
    using IH next1 cells1 t by (metis less_SucI less_irrefl)
  ultimately show ?case
    using IH ts t next1 done_t request_post_sent[OF post] by simp
qed

lemma requests_return:
  "client_inv c \<Longrightarrow> \<not> overflow_checks K \<Longrightarrow> \<exists>ts c'. requests K reqs c = Done (ts, c')"
proof (induction reqs arbitrary: c)
  case (Cons r reqs)
  obtain ok q where r: "r = (ok, q)" by (cases r)
  obtain c1 where first: "do_request K q ok c = Done (next_addr c, c1)"
    by (rule req.done_obtain[OF Cons.prems])
  then have "client_inv c1" by (rule req.keeps_inv[OF Cons.prems(1)])
  from Cons.IH[OF this Cons.prems(2)] r first show ?case by (auto simp: bind_outcome_Done_iff)
qed simp

subsection \<open>Properties of every request\<close>

text \<open>
  C2. In a release build any sequence of requests on a client returns: the tokens are fresh and
  distinct, one per call, the invariant holds again, tokens handed out before are untouched, and the
  packets handed to the channel are exactly those of the tokens still pending, in the order of the
  calls. Every other token is settled.
\<close>

theorem requests_send_or_settle:
  assumes "client_inv c" and "\<not> overflow_checks K"
  shows "\<exists>ts c'. requests K reqs c = Done (ts, c') \<and> client_inv c' \<and>
    ts = [next_addr c..<next_addr c + length reqs] \<and>
    take (length (outgoing c)) (outgoing c') = outgoing c \<and>
    (\<forall>a. a < next_addr c \<longrightarrow> cells c' a = cells c a) \<and>
    sent_tokens c c' = map Some (filter (\<lambda>t. \<not> tok_done c' t) ts)"
proof -
  from requests_return[OF assms] obtain ts c' where "requests K reqs c = Done (ts, c')" by blast
  with requests_run[OF assms(1) this] show ?thesis by (auto simp: extends_outgoing_def)
qed

text \<open>
  Without a connection every request fails at once: its token is settled with
  \<open>ConnectionLost\<close>, nothing is handed to the channel, no packet identifier is taken, and no other
  token changes.
\<close>

lemma requests_need_connection:
  assumes "client_inv c" and "\<not> is_connected c"
  shows "\<exists>c'. do_request K req ok c = Done (next_addr c, c') \<and>
    fst (tok_poll (next_addr c) w c') = Ready (Some ConnectionLost) \<and>
    outgoing c' = outgoing c \<and> packet_ids c' = packet_ids c \<and>
    cells c' = (cells c)(next_addr c := cells c' (next_addr c))"
proof -
  from req.lost[OF assms] obtain c' where run: "do_request K req ok c = Done (next_addr c, c')"
    and err: "tok_err c' (next_addr c) = Some ConnectionLost" and ids: "packet_ids c' = packet_ids c"
    by blast
  have "settled_request c (next_addr c) c'"
    using req.post[OF assms(1) run] assms(2) by (auto simp: request_post_def sent_request_def)
  then have "outgoing c' = outgoing c \<and> tok_done c' (next_addr c)"
    by (simp add: settled_request_def)
  moreover have "cells c' = (cells c)(next_addr c := cells c' (next_addr c))"
    using req.others_undisturbed[OF assms(1) run] by (simp add: fun_eq_iff)
  ultimately show ?thesis using run err ids by (simp add: tok_simps)
qed

subsection \<open>Publishing\<close>

text \<open>The identifier a publish at level 1 or 2 gets in a release build, if any is vacant.\<close>

definition next_id :: "'c mqtt_client \<Rightarrow> u16" where
  "next_id c = first_vacant (index (packet_ids c)) (cyclic_ids (last_issued_id (packet_ids c)))"

definition ids_left :: "'c mqtt_client \<Rightarrow> bool" where
  "ids_left c \<longleftrightarrow> next_id c \<noteq> 0"

definition bind_id :: "u16 \<Rightarrow> token \<Rightarrow> packet_ids \<Rightarrow> packet_ids" where
  "bind_id i t ids = ids\<lparr>index := AList.update i t (index ids), last_issued_id := i\<rparr>"

lemma get_id_next:
  "packet_ids c1 = packet_ids c \<Longrightarrow> get_id False t (packet_ids c1) =
     Done (if ids_left c then (next_id c, bind_id (next_id c) t (packet_ids c)) else (0, packet_ids c))"
  by (simp add: get_id_release Let_def ids_left_def next_id_def bind_id_def)

lemma next_id_vacant: "ids_left c \<Longrightarrow> get_token (next_id c) (packet_ids c) = None"
  by (simp add: ids_left_def next_id_def get_token_def first_vacant_free)

lemma ids_left_iff: "ids_left c \<longleftrightarrow> (\<exists>n \<in> {1..65535}. vacant (index (packet_ids c)) n)"
  using first_vacant_0_iff[of "cyclic_ids (last_issued_id (packet_ids c))" "index (packet_ids c)"]
  by (auto simp: ids_left_def next_id_def set_cyclic_ids)

lemma get_token_bind_id [simp]:
  "get_token j (bind_id i t ids) = (if j = i then Some t else get_token j ids)"
  by (simp add: bind_id_def get_token_def)

definition qos_with :: "quality_of_service \<Rightarrow> u16 \<Rightarrow> qos_with_packet_identifier" where
  "qos_with q i = (case q of Level0 \<Rightarrow> QLevel0 | Level1 \<Rightarrow> QLevel1 i | Level2 \<Rightarrow> QLevel2 i)"

lemma publish_qos_id_release:
  assumes "\<not> overflow_checks K" and "packet_ids c1 = packet_ids c"
  shows "publish_qos_id K q a c1 = Done (
    if q = Level0 then (Some QLevel0, c1)
    else if ids_left c
    then (Some (qos_with q (next_id c)), c1\<lparr>packet_ids := bind_id (next_id c) (Publish a) (packet_ids c)\<rparr>)
    else (None, c1\<lparr>packet_ids := packet_ids c\<rparr>))"
  using assms get_id_next[OF assms(2), of "Publish a"]
  by (cases q) (auto simp: publish_qos_id_def qos_with_def ids_left_def)

lemma publish_start_view [simp]:
  "packet_ids (publish_start q c) = packet_ids c"
  "outgoing_tx (publish_start q c) = outgoing_tx c"
  "outgoing (publish_start q c) = outgoing c"
  "tok_live (publish_start q c) (next_addr c)"
  "\<not> tok_done (publish_start q c) (next_addr c)"
  "data_at (publish_start q c) (next_addr c) = Some (PublishData q)"
  by (simp_all add: publish_start_def publish_set_qos_def publish_default_def tok_simps)

text \<open>
  A publish with a valid topic on a connected client hands exactly one PUBLISH to the channel,
  carrying the topic, payload, retain flag and level asked for; at levels 1 and 2 it carries an
  identifier that was not in use and now maps to the call's token, at level 0 the table is
  unchanged.
\<close>

lemma publish_hands_over:
  assumes "client_inv c" and "is_connected c" and "\<not> overflow_checks K"
    and "topic_name_new K topic = Some tn" and "q = Level0 \<or> ids_left c"
  shows "\<exists>c'. publish K True topic q retained payload c = Done (next_addr c, c') \<and>
    outgoing c' = outgoing c @ [\<lparr>pt_packet = PublishPacket \<lparr>pp_topic_name = tn,
        pp_qos = qos_with q (next_id c), pp_payload = payload, pp_dup = False, pp_retain = retained\<rparr>,
      pt_token = Some (Publish (next_addr c))\<rparr>] \<and>
    publish_qos c' (next_addr c) = Some q \<and> \<not> tok_done c' (next_addr c) \<and>
    (if q = Level0 then packet_ids c' = packet_ids c
     else get_token (next_id c) (packet_ids c) = None \<and>
       get_token (next_id c) (packet_ids c') = Some (Publish (next_addr c)))"
proof -
  obtain ch where ch: "outgoing_tx c = Some ch"
    using assms(1,2) by (auto simp: client_inv_def)
  show ?thesis
    using assms(2,4,5) ch next_id_vacant[of c]
    by (cases "q = Level0")
      (simp_all add: publish_eq Let_def publish_qos_id_release[OF assms(3), where c = c] offer_def
        packet_and_token_new_with_def publish_packet_new_def publish_qos_def qos_with_def)
qed

text \<open>
  A publish at level 1 or 2 with an invalid topic reports \<open>InvalidTopic\<close> and sends nothing, but
  keeps the identifier it took: the token stays in the table although no answer can free it.
\<close>

lemma publish_invalid_topic_keeps_id:
  assumes "is_connected c" and "\<not> overflow_checks K" and "topic_name_new K topic = None"
    and "q \<noteq> Level0" and "ids_left c"
  shows "\<exists>c'. publish K ok topic q retained payload c = Done (next_addr c, c') \<and>
    tok_err c' (next_addr c) = Some InvalidTopic \<and> outgoing c' = outgoing c \<and>
    packet_ids c' = bind_id (next_id c) (Publish (next_addr c)) (packet_ids c) \<and>
    get_token (next_id c) (packet_ids c) = None"
  using assms next_id_vacant[OF assms(5)]
  by (simp add: publish_eq Let_def publish_qos_id_release[OF assms(2), where c = c] tok_simps)

text \<open>Identifiers are left exactly while fewer than 65535 are in use.\<close>

definition ids_in_use :: "'c mqtt_client \<Rightarrow> nat" where
  "ids_in_use c = length (index (packet_ids c))"

lemma length_AList_update: "map_of xs k = None \<Longrightarrow> length (AList.update k v xs) = Suc (length xs)"
  by (induction xs) (auto split: if_splits)

lemma card_ids: "card (UNIV - {0 :: u16}) = 65535"
proof -
  have "card (UNIV :: u16 set) = 65536" by (subst card_word) simp
  then show ?thesis by (subst card_Diff_singleton) simp_all
qed

lemma ids_left_in_use:
  assumes "pid_ok (packet_ids c)"
  shows "ids_left c \<longleftrightarrow> ids_in_use c < 65535" and "ids_in_use c \<le> 65535"
proof -
  let ?keys = "fst ` set (index (packet_ids c))"
  have len: "ids_in_use c = card ?keys"
    using assms distinct_card[of "map fst (index (packet_ids c))"]
    by (simp add: ids_in_use_def pid_ok_def distinct_keys_def)
  have sub: "?keys \<subseteq> UNIV - {0}"
    using assms by (auto simp: pid_ok_def map_of_eq_None_iff)
  have fin: "finite (UNIV - {0 :: u16})" by (rule finite)
  show "ids_in_use c \<le> 65535"
    using card_mono[OF fin sub] unfolding len card_ids .
  have "ids_left c \<longleftrightarrow> (\<exists>i :: u16. i \<noteq> 0 \<and> i \<notin> ?keys)"
  proof
    assume "ids_left c"
    then show "\<exists>i :: u16. i \<noteq> 0 \<and> i \<notin> ?keys"
      using next_id_vacant[of c] by (auto simp: ids_left_def get_token_def map_of_eq_None_iff)
  next
    assume "\<exists>i :: u16. i \<noteq> 0 \<and> i \<notin> ?keys"
    then obtain i :: u16 where i: "i \<noteq> 0" "i \<notin> ?keys" by blast
    then have "vacant (index (packet_ids c)) (unat i)" by (simp add: map_of_eq_None_iff)
    moreover have "unat i \<in> {1..65535}"
      using i(1) unat_u16_bound[of i] by (simp add: Suc_le_eq unat_gt_0)
    ultimately show "ids_left c" unfolding ids_left_iff by blast
  qed
  also have "\<dots> \<longleftrightarrow> ?keys \<noteq> UNIV - {0}" using sub by auto
  also have "\<dots> \<longleftrightarrow> card ?keys < 65535"
    using card_mono[OF fin sub] card_subset_eq[OF fin sub] unfolding card_ids by (metis card_ids le_neq_implies_less less_irrefl)
  finally show "ids_left c \<longleftrightarrow> ids_in_use c < 65535" using len by simp
qed

lemma publish_no_id:
  assumes "is_connected c" and "\<not> overflow_checks K" and "q \<noteq> Level0" and "\<not> ids_left c"
  shows "\<exists>c'. publish K ok topic q retained payload c = Done (next_addr c, c') \<and>
    tok_err c' (next_addr c) = Some PacketIdError \<and> outgoing c' = outgoing c"
  using assms
  by (simp add: publish_eq Let_def publish_qos_id_release[OF assms(2), where c = c] tok_simps)

lemma invalid_publishes_fill:
  assumes "\<not> overflow_checks K" and "topic_name_new K bad = None"
  shows "client_inv c \<Longrightarrow> is_connected c \<Longrightarrow> ids_in_use c + n = 65535 \<Longrightarrow>
    \<exists>ts c'. requests K (replicate n (True, ReqPublish bad Level1 False [])) c = Done (ts, c') \<and>
      client_inv c' \<and> is_connected c' \<and> \<not> ids_left c' \<and> outgoing c' = outgoing c"
proof (induction n arbitrary: c)
  case 0
  then show ?case
    using ids_left_in_use(1)[of c] state_invD(2)[of c] by (simp add: client_inv_def)
next
  case (Suc n)
  have left: "ids_left c"
    using Suc.prems ids_left_in_use(1)[of c] state_invD(2)[of c] by (simp add: client_inv_def)
  obtain c1 where run: "publish K True bad Level1 False [] c = Done (next_addr c, c1)"
    and out: "outgoing c1 = outgoing c"
    and ids: "packet_ids c1 = bind_id (next_id c) (Publish (next_addr c)) (packet_ids c)"
    using publish_invalid_topic_keeps_id[OF Suc.prems(2) assms _ left, of Level1 True False "[]"] by blast
  have "request_post c True (next_addr c, c1)"
    by (rule publish_op.post[OF Suc.prems(1) run])
  then have inv1: "client_inv c1" and conn1: "is_connected c1"
    using Suc.prems(2) by (simp_all add: request_post_def untouched_def is_connected_def)
  have "ids_in_use c1 = Suc (ids_in_use c)"
    using next_id_vacant[OF left]
    by (simp add: ids_in_use_def ids bind_id_def length_AList_update get_token_def)
  with Suc.prems(3) have "ids_in_use c1 + n = 65535" by simp
  from Suc.IH[OF inv1 conn1 this] run out show ?case by (auto simp: bind_outcome_Done_iff)
qed

text \<open>
  C35. Publishes with an invalid topic alone use up the identifiers of a connection: after as many
  of them as identifiers were free, with nothing sent, every further publish at level 1 or 2 fails
  with \<open>PacketIdError\<close>, its topic valid or not.
\<close>

theorem invalid_topics_exhaust_ids:
  assumes "client_inv c" and "is_connected c" and "\<not> overflow_checks K"
    and "topic_name_new K bad = None" and "q \<noteq> Level0"
  shows "\<exists>ts c' c''.
    requests K (replicate (65535 - ids_in_use c) (True, ReqPublish bad Level1 False [])) c = Done (ts, c') \<and>
    outgoing c' = outgoing c \<and> is_connected c' \<and>
    publish K ok topic q retained payload c' = Done (next_addr c', c'') \<and>
    tok_err c'' (next_addr c') = Some PacketIdError"
proof -
  have "ids_in_use c + (65535 - ids_in_use c) = 65535"
    using ids_left_in_use(2)[of c] state_invD(2)[of c] assms(1) by (simp add: client_inv_def)
  from invalid_publishes_fill[OF assms(3,4,1,2) this] obtain ts c' where
    c': "requests K (replicate (65535 - ids_in_use c) (True, ReqPublish bad Level1 False [])) c = Done (ts, c')"
    "is_connected c'" "\<not> ids_left c'" "outgoing c' = outgoing c" by blast
  from publish_no_id[OF c'(2) assms(3,5) c'(3), of ok topic retained payload] c' show ?thesis by blast
qed

subsection \<open>Subscribing\<close>

lemma subscribe_start_view [simp]:
  "packet_ids (subscribe_start c) = packet_ids c"
  "outgoing_tx (subscribe_start c) = outgoing_tx c"
  "outgoing (subscribe_start c) = outgoing c"
  "topic_manager (subscribe_start c) = topic_manager c"
  "subscriptions (subscribe_start c) = subscriptions c"
  "tok_live (subscribe_start c) (next_addr c)"
  "\<not> tok_done (subscribe_start c) (next_addr c)"
  "tok_err (subscribe_start c) (next_addr c) = None"
  "data_at (subscribe_start c) (next_addr c) = Some (SubscribeData [] [])"
  "is_connected (subscribe_start c) = is_connected c"
  by (simp_all add: subscribe_start_def subscribe_default_def tok_simps)

text \<open>The state in which the SUBSCRIBE has just been handed to the channel.\<close>

definition subscribe_sent :: "string \<Rightarrow> quality_of_service \<Rightarrow> 'c mqtt_client \<Rightarrow> 'c mqtt_client" where
  "subscribe_sent tf q c =
     send_outgoing True
       (packet_and_token_new_with (SubscribePacket (next_id c) [(tf, q)]) (Subscribe (next_addr c)))
       ((subscribe_start c)\<lparr>packet_ids := bind_id (next_id c) (Subscribe (next_addr c)) (packet_ids c)\<rparr>)"

lemma subscribe_send_release:
  assumes "client_inv c" and "is_connected c" and "\<not> overflow_checks K"
    and "topic_filter_new K topic = Some tf" and "ids_left c"
  shows "subscribe_send K True topic q c = Done (True, next_addr c, subscribe_sent tf q c)"
proof -
  obtain ch where "outgoing_tx c = Some ch"
    using assms(1,2) by (auto simp: client_inv_def)
  with assms get_id_next[of "subscribe_start c" c "Subscribe (next_addr c)"] show ?thesis
    by (simp add: subscribe_send_def Let_def case_prod_beta fst_new_token offer_def
        subscribe_sent_def ids_left_def flip: subscribe_start_def)
qed

lemma handle_suback_known:
  assumes "get_token i (packet_ids s) = Some (Subscribe t)" and "data_at s t = Some (SubscribeData ss rs)"
    and "tok_live s t"
  shows "topic_manager (handle_suback i codes s) = fold tm_add (accepted ss codes) (topic_manager s)"
    and "subscriptions (handle_suback i codes s) = file_subs (accepted ss codes) (subscriptions s)"
    and "data_at (handle_suback i codes s) t = Some (SubscribeData ss (result_updates ss codes rs))"
    and "tok_done (handle_suback i codes s) t"
    and "tok_err (handle_suback i codes s) t = tok_err s t"
    and "get_token i (packet_ids (handle_suback i codes s)) = None"
  using assms suback_loop_effect[OF assms(2), of 0 codes]
  by (simp_all add: handle_suback_def tok_simps free_id_def get_token_def)

lemma subscribe_sent_view:
  "get_token (next_id c) (packet_ids (subscribe_sent tf q c)) = Some (Subscribe (next_addr c))"
  "data_at (subscribe_sent tf q c) (next_addr c) = Some (SubscribeData [] [])"
  "tok_live (subscribe_sent tf q c) (next_addr c)"
  "tok_err (subscribe_sent tf q c) (next_addr c) = None"
  "topic_manager (subscribe_sent tf q c) = topic_manager c"
  "subscriptions (subscribe_sent tf q c) = subscriptions c"
  by (simp_all add: subscribe_sent_def)

text \<open>
  A subscription whose SUBACK accepts it takes effect: the request handed over one SUBSCRIBE
  with the filter, and once the answer is handled the topic manager delivers to the callback under
  that topic and the client files it for re-subscription, the token completes without an error and
  reports the server's code, and the packet identifier is free again.
\<close>

lemma subscribe_takes_effect:
  assumes "client_inv c" and "is_connected c" and "\<not> overflow_checks K"
    and "topic_filter_new K topic = Some tf" and "ids_left c" and "code \<noteq> Failure"
  shows "\<exists>c1. subscribe K True topic q callback c = Done (next_addr c, c1) \<and>
    outgoing c1 = outgoing c @
      [packet_and_token_new_with (SubscribePacket (next_id c) [(tf, q)]) (Subscribe (next_addr c))] \<and>
    (let c2 = handle_suback (next_id c) [code] c1; x = subscription_new topic q callback in
       tm_subs_at (topic_manager c2) topic = tm_subs_at (topic_manager c) topic @ [x] \<and>
       map_of (subscriptions c2) topic = Some x \<and>
       tok_done c2 (next_addr c) \<and> tok_err c2 (next_addr c) = None \<and>
       subscribe_result c2 (next_addr c) = [(topic, code)] \<and>
       get_token (next_id c) (packet_ids c2) = None)"
proof -
  let ?x = "subscription_new topic q callback"
  let ?c1 = "add_subscriptions [?x] (next_addr c) (subscribe_sent tf q c)"
  have run: "subscribe K True topic q callback c = Done (next_addr c, ?c1)"
    by (simp add: subscribe_def subscribe_send_release[OF assms(1-5)])
  have view: "get_token (next_id c) (packet_ids ?c1) = Some (Subscribe (next_addr c))"
    "data_at ?c1 (next_addr c) = Some (SubscribeData [?x] [])" "tok_live ?c1 (next_addr c)"
    by (simp_all add: add_subscriptions_def subscribe_sent_view tok_simps)
  have rest: "topic_manager ?c1 = topic_manager c" "subscriptions ?c1 = subscriptions c"
    "tok_err ?c1 (next_addr c) = None"
    by (simp_all add: add_subscriptions_def subscribe_sent_view tok_simps)
  have out: "outgoing ?c1 = outgoing c @
      [packet_and_token_new_with (SubscribePacket (next_id c) [(tf, q)]) (Subscribe (next_addr c))]"
    by (simp add: add_subscriptions_def subscribe_sent_def)
  show ?thesis
    using run out handle_suback_known[OF view, of "[code]"] rest assms(6)
    by (simp add: Let_def subscribe_result_def result_updates_def fold_tm_add)
qed

text \<open>
  C34. \<open>subscribe\<close> tells its token about the subscription only after the packet is in the channel.
  If the SUBACK is handled in between, the token completes without an error, as after a success,
  but the subscription is neither delivered to nor filed, and stays so after \<open>subscribe\<close> returns.
\<close>

theorem early_suback_loses_subscription:
  assumes "client_inv c" and "is_connected c" and "\<not> overflow_checks K"
    and "topic_filter_new K topic = Some tf" and "ids_left c"
  shows "\<exists>c1. subscribe_send K True topic q c = Done (True, next_addr c, c1) \<and>
    (let c2 = handle_suback (next_id c) [MaximumQoS q] c1;
         c3 = add_subscriptions [subscription_new topic q callback] (next_addr c) c2 in
       tok_done c3 (next_addr c) \<and> tok_err c3 (next_addr c) = None \<and>
       topic_manager c3 = topic_manager c \<and> subscriptions c3 = subscriptions c \<and>
       get_token (next_id c) (packet_ids c3) = None)"
  using subscribe_send_release[OF assms] handle_suback_known[OF subscribe_sent_view(1-3), of c "[MaximumQoS q]" tf q]
  by (simp add: Let_def add_subscriptions_def subscribe_sent_view tok_simps)

subsection \<open>Witnesses\<close>

definition sample_client :: "(u16 \<Rightarrow> publish_packet option) mqtt_client" where
  "sample_client = (mqtt_client_new sample_libs 0 empty_heap options_default)
     \<lparr>connect_status := Connected, outgoing_tx := Some 0\<rparr>"

lemma state_inv_extend: "state_inv (state.extend s r) = state_inv s"
  by (simp add: state_inv_def state.extend_def heap_ok_def token_typed_def tok_view_defs)

lemma sample_client_view:
  "client_inv sample_client" "is_connected sample_client" "next_addr sample_client = 0"
  "packet_ids sample_client = packet_ids_new" "outgoing sample_client = []"
  "topic_manager sample_client = topic_manager_new"
proof -
  have "heap_ok empty_heap" by (simp add: heap_ok_def empty_heap_def tok_live_def)
  then show "client_inv sample_client"
    by (simp add: client_inv_def sample_client_def mqtt_client_new_def state_inv_extend state_inv_new)
qed (simp_all add: sample_client_def mqtt_client_new_def state.extend_def state_new_view
    is_connected_def empty_heap_def)

lemma sample_client_next: "ids_left sample_client \<and> next_id sample_client = 2"
proof -
  have "get_id False (Publish 0) packet_ids_new =
      Done (if ids_left sample_client
        then (next_id sample_client, bind_id (next_id sample_client) (Publish 0) packet_ids_new)
        else (0, packet_ids_new))"
    using get_id_next[of sample_client sample_client "Publish 0"] by (simp add: sample_client_view)
  then show ?thesis by (simp add: get_id_new split: if_splits)
qed

lemma sample_libs_flags: "\<not> overflow_checks sample_libs" "topic_name_new sample_libs ''a/b'' = Some ''a/b''"
  "topic_name_new sample_libs ''a/#'' = None" "topic_filter_new sample_libs ''a/#'' = Some ''a/#''"
  by (simp_all add: sample_libs_def)

lemma requests_send_or_settle_witness:
  "\<exists>ts c'. requests sample_libs [(True, ReqUnsubscribe [''a'']), (False, ReqDisconnect)] sample_client =
     Done (ts, c') \<and> client_inv c' \<and> ts = [0, 1]"
  using requests_send_or_settle[OF sample_client_view(1) sample_libs_flags(1),
      of "[(True, ReqUnsubscribe [''a'']), (False, ReqDisconnect)]"]
  by (simp add: sample_client_view(3) upt_rec numeral_2_eq_2 del: requests.simps) blast

lemma invalid_topics_exhaust_ids_witness:
  "\<exists>ts c' c''. outgoing c' = [] \<and>
     requests sample_libs (replicate (65535 - ids_in_use sample_client)
       (True, ReqPublish ''a/#'' Level1 False [])) sample_client = Done (ts, c') \<and>
     publish sample_libs True ''a/b'' Level1 False [] c' = Done (next_addr c', c'')"
  using invalid_topics_exhaust_ids[OF sample_client_view(1,2) sample_libs_flags(1,3), of Level1 True "''a/b''" False "[]"]
  unfolding sample_client_view(5) by blast

lemma early_suback_loses_subscription_witness:
  "\<exists>c1. subscribe_send sample_libs True ''a/#'' Level1 sample_client = Done (True, 0, c1) \<and>
     topic_manager (add_subscriptions [subscription_new ''a/#'' Level1 5] 0
       (handle_suback 2 [MaximumQoS Level1] c1)) = topic_manager_new"
  using early_suback_loses_subscription[OF sample_client_view(1,2) sample_libs_flags(1,4), of Level1 5]
    sample_client_next
  by (auto simp: Let_def sample_client_view)

end
