(* ===== verification/Client_Connect.thy ===== *)
theory Client_Connect
  imports Client_Requests
begin

section \<open>Connecting and losing the connection\<close>

text \<open>
  \<open>connect\<close>, the packet it writes, and the end of a connection, on the client invariant of
  \<open>Client_Contract\<close>.
\<close>

subsection \<open>Which tokens the network tasks settle\<close>

definition bound_tokens :: "packet_ids \<Rightarrow> addr set" where
  "bound_tokens ids = {token_addr t | t i. get_token i ids = Some t}"

lemma bound_tokens_index: "distinct_keys (index ids) \<Longrightarrow> bound_tokens ids = token_addr ` snd ` set (index ids)"
  by (force simp: bound_tokens_def get_token_def distinct_keys_def image_iff map_of_eq_Some_iff)

lemma bound_tokens_free: "bound_tokens (free_id i ids) \<subseteq> bound_tokens ids"
  using get_token_free[of _ i ids] by (auto simp: bound_tokens_def)

lemma bound_tokensI: "get_token i ids = Some t \<Longrightarrow> token_addr t \<in> bound_tokens ids"
  by (auto simp: bound_tokens_def)

text \<open>One packet settles at most one token, and that one is in the table.\<close>

definition settles_bound :: "('c, 'a) state_scheme \<Rightarrow> ('c, 'a) state_scheme \<Rightarrow> bool" where
  "settles_bound s s' \<longleftrightarrow>
     bound_tokens (packet_ids s') \<subseteq> bound_tokens (packet_ids s) \<and>
     (\<forall>a. a \<notin> bound_tokens (packet_ids s) \<longrightarrow> tok_done s' a = tok_done s a \<and> tok_err s' a = tok_err s a)"

lemma settles_bound_refl [simp]: "settles_bound s s"
  by (simp add: settles_bound_def)

lemma settles_bound_trans: "settles_bound s s1 \<Longrightarrow> settles_bound s1 s2 \<Longrightarrow> settles_bound s s2"
  by (auto simp: settles_bound_def)

lemma settles_bound_ops:
  "settles_bound s (handle_puback i s)"
  "settles_bound s (handle_pubcomp i s)"
  "settles_bound s (handle_suback i codes s)"
  "settles_bound s (handle_unsuback i s)"
  using bound_tokens_free[of i "packet_ids s"] bound_tokensI[of i "packet_ids s"]
  by (auto simp: settles_bound_def handle_puback_def handle_pubcomp_def handle_suback_def
      handle_unsuback_def tok_simps split: option.split token.split)

lemma spawn_handlers_view [simp]:
  "tok_done (spawn_handlers subs msg s) a = tok_done s a"
  "tok_err (spawn_handlers subs msg s) a = tok_err s a"
  by (simp_all add: tok_view_cells[of "spawn_handlers subs msg s" s])

lemma settles_bound_pubrel: "settles_bound s (snd (handle_pubrel K i s))"
  by (auto simp: settles_bound_def handle_pubrel_def split_beta Let_def split: option.split)

lemma settles_bound_publish: "handle_publish K q s = Done (r, s') \<Longrightarrow> settles_bound s s'"
  by (auto simp: settles_bound_def handle_publish_def split_beta Let_def bind_outcome_Done_iff
      split: quality_of_service.splits)

lemma settles_bound_dispatch: "dispatch_packet K p s = Done (d, s') \<Longrightarrow> settles_bound s s'"
  using settles_bound_pubrel[of s K]
  by (cases p) (auto simp: bind_outcome_Done_iff settles_bound_ops split_beta
      dest: settles_bound_publish)

lemma settles_bound_read_step: "read_step K f s = Done (going, out, s') \<Longrightarrow> settles_bound s s'"
proof -
  assume step: "read_step K f s = Done (going, out, s')"
  obtain fr sent where f: "f = (fr, sent)" by (cases f)
  show ?thesis
  proof (cases fr)
    case (Frame p)
    with f step show ?thesis by (metis read_step_Frame settles_bound_dispatch)
  qed (use f step in simp_all)
qed

lemma settles_bound_read: "read_from_server K fs s = Done (ex, out, s') \<Longrightarrow> settles_bound s s'"
proof (induction fs arbitrary: s ex out)
  case (Cons f fs)
  then obtain going out1 s1 where step: "read_step K f s = Done (going, out1, s1)"
    and rest: "(if going then bind_outcome (read_from_server K fs s1)
        (\<lambda>(exited, out', s''). Done (exited, out1 @ out', s'')) else Done (True, out1, s1)) =
        Done (ex, out, s')"
    by (auto simp: bind_outcome_Done_iff)
  show ?case
  proof (cases going)
    case True
    with rest obtain ex' out' where "read_from_server K fs s1 = Done (ex', out', s')"
      by (auto simp: bind_outcome_Done_iff)
    from settles_bound_trans[OF settles_bound_read_step[OF step] Cons.IH[OF this]] show ?thesis .
  qed (use rest settles_bound_read_step[OF step] in simp)
qed simp

subsection \<open>The end of a connection\<close>

lemma fold_set_error_frame [simp]:
  "packet_ids (fold (token_set_error e) ts c) = packet_ids c"
  "topic_manager (fold (token_set_error e) ts c) = topic_manager c"
  "subscriptions (fold (token_set_error e) ts c) = subscriptions c"
  "pending_packets (fold (token_set_error e) ts c) = pending_packets c"
  "outgoing_tx (fold (token_set_error e) ts c) = outgoing_tx c"
  "outgoing (fold (token_set_error e) ts c) = outgoing c"
  "heap_ok (fold (token_set_error e) ts c) = heap_ok c"
  "state_inv (fold (token_set_error e) ts c) = state_inv c"
  by (induction ts arbitrary: c) simp_all

lemma fold_set_error_client [simp]:
  "connect_status (fold (token_set_error e) ts c) = connect_status c"
  "options (fold (token_set_error e) ts c) = options c"
  "manual_disconnect (fold (token_set_error e) ts c) = manual_disconnect c"
  "notify_permit (fold (token_set_error e) ts c) = notify_permit c"
  by (induction ts arbitrary: c) simp_all

lemma connection_over_view:
  "connect_status (connection_over c) = Disconnected"
  "index (packet_ids (connection_over c)) = []"
  "subscriptions (connection_over c) = subscriptions c"
  "topic_manager (connection_over c) = topic_manager c"
  "options (connection_over c) = options c"
  "manual_disconnect (connection_over c) = manual_disconnect c"
  "next_addr (connection_over c) = next_addr c"
  "outgoing (connection_over c) = outgoing c"
  "cells (connection_over c) = (\<lambda>a.
     if a \<in> token_addr ` snd ` set (index (packet_ids c)) then map_option settle_lost (cells c a)
     else cells c a)"
  by (simp_all add: connection_over_def clean_up_def set_connect_status_def Let_def fun_eq_iff
      cells_set_error_all)

lemma state_inv_clear:
  "state_inv s \<Longrightarrow> packet_ids s = ids \<Longrightarrow> state_inv (s\<lparr>packet_ids := ids\<lparr>index := []\<rparr>\<rparr>)"
  by (auto simp: state_inv_def get_token_def pid_ok_def distinct_keys_def)

lemma connection_over_inv: "client_inv c \<Longrightarrow> client_inv (connection_over c)"
  using connection_over_view(1)[of c]
  by (auto simp: client_inv_def is_connected_def connection_over_def clean_up_def set_connect_status_def
      Let_def intro!: state_inv_clear)

lemma settle_lost_done: "complete (tok_state (settle_lost x))" "tok_error (settle_lost x) = Some ConnectionLost"
  by (simp_all add: settle_lost_def)

lemma connection_over_done:
  assumes "client_inv c"
  shows "tok_done (connection_over c) a \<longleftrightarrow> tok_done c a \<or> a \<in> bound_tokens (packet_ids c)"
    and "tok_err (connection_over c) a =
      (if a \<in> bound_tokens (packet_ids c) then Some ConnectionLost else tok_err c a)"
proof -
  have bound: "bound_tokens (packet_ids c) = token_addr ` snd ` set (index (packet_ids c))"
    using assms by (simp add: bound_tokens_index client_inv_def state_inv_def pid_ok_def)
  have live: "\<exists>x. cells c a = Some x" if "a \<in> bound_tokens (packet_ids c)"
    using that state_invD(5)[OF client_invD[OF assms]]
    by (auto simp: bound_tokens_def token_typed_def tok_view_defs)
  show "tok_done (connection_over c) a \<longleftrightarrow> tok_done c a \<or> a \<in> bound_tokens (packet_ids c)"
    and "tok_err (connection_over c) a =
      (if a \<in> bound_tokens (packet_ids c) then Some ConnectionLost else tok_err c a)"
    using live unfolding bound
    by (cases "a \<in> token_addr ` snd ` set (index (packet_ids c))";
        force simp: tok_view_defs connection_over_view settle_lost_done)+
qed

text \<open>
  When a connection is over, the client is disconnected with an empty identifier table, and
  exactly the operations that held a packet identifier are settled, with \<open>ConnectionLost\<close>: the
  token of a publish at level 0 or of a disconnect whose packet was still in the channel is not.
  Subscriptions and topics are kept for the next connection.
\<close>

lemma connection_over_settles_bound:
  assumes "client_inv c"
  shows "client_inv (connection_over c) \<and> \<not> is_connected (connection_over c) \<and>
    (\<forall>i. get_token i (packet_ids (connection_over c)) = None) \<and>
    (\<forall>a. tok_done (connection_over c) a \<longleftrightarrow>
       tok_done c a \<or> (\<exists>i t. get_token i (packet_ids c) = Some t \<and> token_addr t = a)) \<and>
    (\<forall>i t. get_token i (packet_ids c) = Some t \<longrightarrow>
       tok_err (connection_over c) (token_addr t) = Some ConnectionLost) \<and>
    subscriptions (connection_over c) = subscriptions c \<and>
    topic_manager (connection_over c) = topic_manager c"
  using connection_over_inv[OF assms] connection_over_done[OF assms]
  by (auto simp: is_connected_def connection_over_view get_token_def bound_tokens_def)

subsection \<open>The CONNECT packet\<close>

lemma build_connect_packet_panics:
  "build_connect_packet K opts = Panic \<longleftrightarrow>
     will_enabled opts \<and> last_will_new K (will_topic opts) (will_payload opts) = None"
  by (cases "last_will_new K (will_topic opts) (will_payload opts)")
    (auto simp: build_connect_packet_def Let_def)

lemma u16_of_nat_iff: "unat (k :: u16) = n mod 65536 \<longleftrightarrow> k = of_nat n"
  by (simp add: word_unat_eq_iff unat_of_nat)


subsection \<open>connect\<close>

text \<open>
  What the caller of \<open>connect\<close> is told, unless the transport panics: \<open>None\<close> for an accepted connection.
\<close>

fun reply_error :: "first_frame \<Rightarrow> token_error option" where
  "reply_error (FirstPacket (ConnackPacket ConnectionAccepted sp)) = None"
| "reply_error (FirstPacket (ConnackPacket (RefusedCode n) sp)) = Some (ConnectFailed n)"
| "reply_error (FirstPacket _) = Some (PacketError ''Not Connack Packet'')"
| "reply_error (FirstError e) = Some (PacketError e)"
| "reply_error FirstNone = Some (ConnectFailed 0)"

fun connect_error :: "network \<Rightarrow> first_frame \<Rightarrow> token_error option" where
  "connect_error NetPanic first = None"
| "connect_error (NetError e) first = Some e"
| "connect_error (NetOpen sent) first = reply_error first"

definition connect_start :: "'c mqtt_client \<Rightarrow> 'c mqtt_client" where
  "connect_start c = snd (new_token connect_default c)"

lemma connect_start_view [simp]:
  "connect_status (connect_start c) = connect_status c"
  "options (connect_start c) = options c"
  "wire (connect_start c) = wire c"
  "packet_ids (connect_start c) = packet_ids c"
  "subscriptions (connect_start c) = subscriptions c"
  "topic_manager (connect_start c) = topic_manager c"
  "pending_packets (connect_start c) = pending_packets c"
  "outgoing_tx (connect_start c) = outgoing_tx c"
  "outgoing (connect_start c) = outgoing c"
  "tok_live (connect_start c) (next_addr c)"
  "\<not> tok_done (connect_start c) (next_addr c)"
  "tok_err (connect_start c) (next_addr c) = None"
  "data_at (connect_start c) (next_addr c) = Some connect_default"
  by (simp_all add: connect_start_def tok_simps)

lemma connect_eq:
  "connect K net first now ch c =
     (let t = next_addr c; c1 = connect_start c
      in case connect_status c of
           Connected \<Rightarrow> Done (t, connect_set_return_code ConnectionAccepted t c1)
         | Connecting \<Rightarrow> Done (t, tok_set_error Reconnecting t c1)
         | Disconnected \<Rightarrow>
             let c2 = set_connect_status Connecting c1
             in case net of
                  NetPanic \<Rightarrow> Panic
                | NetError e \<Rightarrow> Done (t, refuse_connect e t c2)
                | NetOpen sent \<Rightarrow>
                    bind_outcome (build_connect_packet K (options c))
                      (\<lambda>calls. Done (t, connect_reply first now ch t
                         (c2\<lparr>wire := wire c2 @ connect_written sent calls\<rparr>))))"
  unfolding connect_def Let_def case_prod_beta fst_new_token
  by (cases "connect_status c") (simp_all add: connect_start_def set_connect_status_def split: network.split)

text \<open>The client with \<open>connect\<close> waiting for the server's first frame.\<close>

definition awaiting_connack :: "variable_packet list \<Rightarrow> 'c mqtt_client \<Rightarrow> 'c mqtt_client" where
  "awaiting_connack out c =
     (set_connect_status Connecting (connect_start c))\<lparr>wire := wire c @ out\<rparr>"

lemma connect_reached:
  "connect_status c = Disconnected \<Longrightarrow> build_connect_packet K (options c) = Done calls \<Longrightarrow>
   connect K (NetOpen sent) first now ch c =
     Done (next_addr c, connect_reply first now ch (next_addr c) (awaiting_connack (connect_written sent calls) c))"
  by (simp add: connect_eq awaiting_connack_def set_connect_status_def Let_def)

lemma kind_ok_connect:
  "kind_ok t d \<Longrightarrow> kind_ok t (case d of ConnectData _ sp \<Rightarrow> ConnectData code sp | _ \<Rightarrow> d)"
  "kind_ok t d \<Longrightarrow> kind_ok t (case d of ConnectData code' _ \<Rightarrow> ConnectData code' b | _ \<Rightarrow> d)"
  by (cases t; cases d; simp)+

lemma connect_data_inv [simp]:
  "state_inv s \<Longrightarrow> state_inv (connect_set_return_code code a s)"
  "state_inv s \<Longrightarrow> state_inv (connect_set_session_present a s)"
  unfolding connect_set_return_code_def connect_set_session_present_def
  by (intro state_inv_map_data kind_ok_connect; assumption)+

lemma connect_data_view [simp]:
  "tok_live (connect_set_return_code code a s) b = tok_live s b"
  "tok_done (connect_set_return_code code a s) b = tok_done s b"
  "tok_err (connect_set_return_code code a s) b = tok_err s b"
  "tok_live (connect_set_session_present a s) b = tok_live s b"
  "tok_done (connect_set_session_present a s) b = tok_done s b"
  "tok_err (connect_set_session_present a s) b = tok_err s b"
  by (simp_all add: connect_set_return_code_def connect_set_session_present_def tok_simps)

lemma connect_data_frame [simp]:
  "connect_status (connect_set_return_code code a c) = connect_status c"
  "outgoing_tx (connect_set_return_code code a c) = outgoing_tx c"
  "outgoing (connect_set_return_code code a c) = outgoing c"
  "wire (connect_set_return_code code a c) = wire c"
  "packet_ids (connect_set_return_code code a c) = packet_ids c"
  "connect_status (connect_set_session_present a c) = connect_status c"
  "outgoing_tx (connect_set_session_present a c) = outgoing_tx c"
  "outgoing (connect_set_session_present a c) = outgoing c"
  "wire (connect_set_session_present a c) = wire c"
  "packet_ids (connect_set_session_present a c) = packet_ids c"
  "manual_disconnect (connect_set_session_present a c) = manual_disconnect c"
  "subscriptions (connect_set_session_present a c) = subscriptions c"
  "topic_manager (connect_set_session_present a c) = topic_manager c"
  "pending_packets (connect_set_session_present a c) = pending_packets c"
  by (simp_all add: connect_set_return_code_def connect_set_session_present_def)

lemmas connect_step_defs = connect_reply_def finish_connect_def adopt_state_def refuse_connect_def
  set_connect_status_def Let_def

lemma awaiting_view:
  "state_inv c \<Longrightarrow> state_inv (awaiting_connack out c)"
  "tok_live (awaiting_connack out c) (next_addr c)"
  "tok_err (awaiting_connack out c) (next_addr c) = None"
  "wire (awaiting_connack out c) = wire c @ out"
  by (simp_all add: awaiting_connack_def set_connect_status_def connect_start_def state_inv_new_token tok_simps)

lemma connect_reply_inv:
  assumes "state_inv c"
  shows "client_inv (connect_reply first now ch t c)"
  using assms
  by (auto simp: connect_step_defs client_inv_def is_connected_def
      split: first_frame.split variable_packet.split connect_return_code.split)

lemma connect_inv:
  assumes "client_inv c" and "connect K net first now ch c = Done (t, c')"
  shows "client_inv c'"
proof -
  have inv: "state_inv (connect_start c)"
    using assms(1) by (simp add: connect_start_def client_inv_def state_inv_new_token)
  show ?thesis
  proof (cases "connect_status c")
    case Disconnected
    show ?thesis
    proof (cases net)
      case (NetError e)
      with Disconnected inv assms(2) show ?thesis
        by (auto simp: connect_eq refuse_connect_def set_connect_status_def client_inv_def is_connected_def Let_def)
    next
      case (NetOpen sent)
      with Disconnected assms(2) obtain out where
        "c' = connect_reply first now ch t (awaiting_connack out c)"
        using connect_reached by (auto simp: connect_eq bind_outcome_Done_iff awaiting_connack_def
          set_connect_status_def Let_def)
      with connect_reply_inv awaiting_view(1) client_invD[OF assms(1)] show ?thesis by blast
    qed (use Disconnected assms(2) in \<open>simp add: connect_eq Let_def\<close>)
  qed (use assms inv in \<open>auto simp: connect_eq client_inv_def is_connected_def Let_def\<close>)
qed

lemma connect_reply_result:
  assumes "tok_live c t" and "tok_err c t = None"
  shows "tok_done (connect_reply first now ch t c) t"
    and "tok_err (connect_reply first now ch t c) t = reply_error first"
    and "connect_status (connect_reply first now ch t c) =
      (if reply_error first = None then Connected else Disconnected)"
    and "wire (connect_reply first now ch t c) = wire c"
  using assms
  by (auto simp: connect_step_defs tok_simps
      split: first_frame.split variable_packet.split connect_return_code.split)

text \<open>What a \<open>connect\<close> on a disconnected client comes to.\<close>

lemma connect_outcome:
  assumes "client_inv c" and "connect_status c = Disconnected"
    and "build_connect_packet K (options c) = Done calls" and "net \<noteq> NetPanic"
  shows "\<exists>c'. connect K net first now ch c = Done (next_addr c, c') \<and> client_inv c' \<and>
    fst (tok_poll (next_addr c) w c') = Ready (connect_error net first) \<and>
    connect_status c' = (if connect_error net first = None then Connected else Disconnected) \<and>
    wire c' = wire c @ (if net = NetOpen True then [ConnectPacket calls] else [])"
proof (cases net)
  case (NetError e)
  let ?c = "refuse_connect e (next_addr c) (set_connect_status Connecting (connect_start c))"
  have run: "connect K net first now ch c = Done (next_addr c, ?c)"
    using assms(2) NetError by (simp add: connect_eq Let_def)
  from connect_inv[OF assms(1) this] run NetError show ?thesis
    by (simp add: refuse_connect_def set_connect_status_def tok_simps)
next
  case (NetOpen sent)
  let ?out = "connect_written sent calls"
  from NetOpen have run: "connect K net first now ch c =
      Done (next_addr c, connect_reply first now ch (next_addr c) (awaiting_connack ?out c))"
    using connect_reached[OF assms(2,3)] by simp
  from connect_inv[OF assms(1) run] run NetOpen
    connect_reply_result[OF awaiting_view(2,3)[where c = c and out = ?out], of first now ch]
  show ?thesis by (simp add: tok_simps awaiting_view connect_written_def)
qed (use assms(4) in simp)

text \<open>The only panics are those of the transport and of an invalid will.\<close>

lemma connect_panics:
  "connect_status c = Disconnected \<Longrightarrow> connect K net first now ch c = Panic \<longleftrightarrow>
     net = NetPanic \<or> (\<exists>sent. net = NetOpen sent) \<and> build_connect_packet K (options c) = Panic"
  by (cases net; cases "build_connect_packet K (options c)") (simp_all add: connect_eq Let_def)

text \<open>
  C19. A \<open>connect\<close> on a disconnected client, once the transport and the server have answered: it panics exactly if the
  transport does or, with a connection, if the will of the options is invalid, and otherwise it returns. Then its token is
  settled with what the answers mean, the client ends connected exactly when the server accepted and disconnected
  otherwise, never connecting, and the invariant holds. The CONNECT packet is written if the transport connects and takes
  it; whether it does has no effect on anything else.
\<close>

theorem connect_settles:
  assumes "client_inv c" and "connect_status c = Disconnected"
  shows "(connect K net first now ch c = Panic \<longleftrightarrow>
      net = NetPanic \<or> (\<exists>sent. net = NetOpen sent) \<and> will_enabled (options c) \<and>
        last_will_new K (will_topic (options c)) (will_payload (options c)) = None) \<and>
    (\<forall>t c'. connect K net first now ch c = Done (t, c') \<longrightarrow>
      t = next_addr c \<and> client_inv c' \<and> fst (tok_poll t w c') = Ready (connect_error net first) \<and>
      connect_status c' = (if connect_error net first = None then Connected else Disconnected) \<and>
      (if net = NetOpen True
       then \<exists>calls. build_connect_packet K (options c) = Done calls \<and> wire c' = wire c @ [ConnectPacket calls]
       else wire c' = wire c))"
proof (intro conjI[OF _ allI[OF allI[OF impI]]])
  show "connect K net first now ch c = Panic \<longleftrightarrow> net = NetPanic \<or> (\<exists>sent. net = NetOpen sent) \<and> will_enabled (options c) \<and>
      last_will_new K (will_topic (options c)) (will_payload (options c)) = None"
    using connect_panics[OF assms(2)] by (simp add: build_connect_packet_panics)
  fix t c' assume run: "connect K net first now ch c = Done (t, c')"
  show "t = next_addr c \<and> client_inv c' \<and> fst (tok_poll t w c') = Ready (connect_error net first) \<and>
      connect_status c' = (if connect_error net first = None then Connected else Disconnected) \<and>
      (if net = NetOpen True
       then \<exists>calls. build_connect_packet K (options c) = Done calls \<and> wire c' = wire c @ [ConnectPacket calls]
       else wire c' = wire c)"
  proof (cases net)
    case NetPanic
    with run assms(2) show ?thesis by (simp add: connect_eq Let_def)
  next
    case (NetError e)
    from connect_inv[OF assms(1) run] run NetError assms(2) show ?thesis
      by (auto simp: connect_eq Let_def refuse_connect_def set_connect_status_def tok_simps)
  next
    case (NetOpen sent)
    with run connect_panics[OF assms(2), of K net first now ch] obtain calls where
      "build_connect_packet K (options c) = Done calls"
      by (cases "build_connect_packet K (options c)") auto
    with connect_outcome[OF assms this, of net first now ch w] NetOpen run show ?thesis by auto
  qed
qed

text \<open>
  An accepted \<open>connect\<close> keeps the session of the client: identifiers, subscriptions, topics and
  parked level 2 packets carry over; the channel is new and empty, a manual disconnect before is forgotten,
  and the token tells the server's session-present flag.
\<close>

lemma connect_keeps_session:
  assumes "connect_status c = Disconnected" and "build_connect_packet K (options c) = Done calls"
  shows "\<exists>c'. connect K (NetOpen sent) (FirstPacket (ConnackPacket ConnectionAccepted sp)) now ch c =
      Done (next_addr c, c') \<and>
    packet_ids c' = packet_ids c \<and> subscriptions c' = subscriptions c \<and>
    topic_manager c' = topic_manager c \<and> pending_packets c' = pending_packets c \<and>
    outgoing_tx c' = Some ch \<and> outgoing c' = [] \<and> \<not> manual_disconnect c' \<and>
    connect_session_present c' (next_addr c) = sp \<and>
    connect_return_code c' (next_addr c) = Some ConnectionAccepted"
  using connect_reached[OF assms, of sent "FirstPacket (ConnackPacket ConnectionAccepted sp)" now ch]
  by (simp add: connect_step_defs awaiting_connack_def connect_session_present_def
      connect_return_code_def connect_set_session_present_def connect_default_def tok_simps)

text \<open>
  While a connect is under way another \<open>connect\<close> fails with \<open>Reconnecting\<close>, and on a
  disconnected client the only panics are those of the transport and of an invalid will.
\<close>

lemma connect_reentry_and_panic:
  "case connect_status c of
     Connecting \<Rightarrow> \<exists>c'. connect K net first now ch c = Done (next_addr c, c') \<and>
        tok_done c' (next_addr c) \<and> tok_err c' (next_addr c) = Some Reconnecting \<and>
        connect_status c' = Connecting \<and> wire c' = wire c
   | Connected \<Rightarrow> connect K net first now ch c \<noteq> Panic
   | Disconnected \<Rightarrow>
      connect K net first now ch c = Panic \<longleftrightarrow>
        net = NetPanic \<or> (\<exists>sent. net = NetOpen sent) \<and> will_enabled (options c) \<and>
        last_will_new K (will_topic (options c)) (will_payload (options c)) = None"
proof (cases "connect_status c")
  case Disconnected
  with connect_panics[OF Disconnected] show ?thesis by (simp add: build_connect_packet_panics)
qed (simp_all add: connect_eq Let_def tok_simps)

lemma token_typed_live: "token_typed s t \<Longrightarrow> tok_live s (token_addr t)"
  by (auto simp: token_typed_def tok_view_defs)

lemma fresh_not_bound:
  assumes "state_inv c"
  shows "next_addr c \<notin> bound_tokens (packet_ids c)"
proof
  assume "next_addr c \<in> bound_tokens (packet_ids c)"
  then obtain t i where t: "token_addr t = next_addr c" "get_token i (packet_ids c) = Some t"
    by (auto simp: bound_tokens_def)
  from state_invD(5)[OF assms t(2)] have "tok_live c (token_addr t)" by (rule token_typed_live)
  with t(1) state_invD(1)[OF assms] show False by (auto simp: heap_ok_def)
qed

text \<open>
  \<open>connect\<close> on a client that is already connected returns a token that reads as accepted
  but is never completed: nothing was sent for it, no packet the server sends completes it, and
  neither does the end of the connection.
\<close>

lemma connect_again_never_completes:
  assumes "client_inv c" and "connect_status c = Connected"
  shows "\<exists>c'. connect K net first now ch c = Done (next_addr c, c') \<and>
    connect_return_code c' (next_addr c) = Some ConnectionAccepted \<and>
    outgoing c' = outgoing c \<and> wire c' = wire c \<and>
    fst (tok_poll (next_addr c) w c') = Pending \<and>
    \<not> tok_done (connection_over c') (next_addr c) \<and>
    (\<forall>fs ex out c''. read_from_server K fs c' = Done (ex, out, c'') \<longrightarrow> \<not> tok_done c'' (next_addr c))"
proof -
  let ?t = "next_addr c"
  let ?c = "connect_set_return_code ConnectionAccepted ?t (connect_start c)"
  have run: "connect K net first now ch c = Done (?t, ?c)"
    using assms(2) by (simp add: connect_eq Let_def)
  note inv = connect_inv[OF assms(1) run]
  have fresh: "?t \<notin> bound_tokens (packet_ids ?c)"
    using fresh_not_bound[OF client_invD[OF assms(1)]] by simp
  have code: "connect_return_code ?c ?t = Some ConnectionAccepted"
    by (simp add: connect_return_code_def connect_set_return_code_def connect_default_def tok_simps)
  have "\<not> tok_done (connection_over ?c) ?t"
    using connection_over_done(1)[OF inv] fresh by simp
  moreover have "\<not> tok_done c'' ?t" if "read_from_server K fs ?c = Done (ex, out, c'')" for fs ex out c''
    using settles_bound_read[OF that] fresh by (simp add: settles_bound_def)
  ultimately show ?thesis using run code by (simp add: tok_simps)
qed

subsection \<open>Witnesses\<close>

definition sample_idle :: "(u16 \<Rightarrow> publish_packet option) mqtt_client" where
  "sample_idle = set_connect_status Disconnected sample_client"

lemma sample_idle_view:
  "client_inv sample_idle" "connect_status sample_idle = Disconnected" "next_addr sample_idle = 0"
  "packet_ids sample_idle = packet_ids_new" "wire sample_idle = []"
  "build_connect_packet sample_libs (options sample_idle) =
     Done [NewConnect [], SetCleanSession False, SetKeepAlive 0]"
proof -
  show "client_inv sample_idle"
    using sample_client_view(1) by (simp add: sample_idle_def client_inv_def set_connect_status_def is_connected_def)
  show "build_connect_packet sample_libs (options sample_idle) =
     Done [NewConnect [], SetCleanSession False, SetKeepAlive 0]"
    by (simp add: sample_idle_def sample_client_def mqtt_client_new_def state.extend_def set_connect_status_def
        options_default_def build_connect_packet_def as_secs_def)
next
  show "wire sample_idle = []"
    by (simp add: sample_idle_def set_connect_status_def sample_client_def mqtt_client_new_def state.extend_def)
qed (simp_all add: sample_idle_def set_connect_status_def sample_client_view)

lemma connect_settles_witness:
  "(\<exists>c'. connect sample_libs (NetOpen False) (FirstPacket PingrespPacket) 9 1 sample_idle = Done (0, c') \<and>
     connect_status c' = Disconnected \<and> fst (tok_poll 0 3 c') = Ready (Some (PacketError ''Not Connack Packet'')) \<and>
     wire c' = []) \<and>
   connect sample_libs NetPanic FirstNone 9 1 sample_idle = Panic"
proof -
  note settles = connect_settles[OF sample_idle_view(1,2), where K = sample_libs and now = 9 and ch = 1 and w = 3]
  have "\<not> will_enabled (options sample_idle)"
    using sample_idle_view(6) build_connect_packet_panics[of sample_libs "options sample_idle"]
    by (auto simp: sample_libs_def sample_idle_def sample_client_def mqtt_client_new_def state.extend_def
        set_connect_status_def options_default_def)
  with settles[of "NetOpen False" "FirstPacket PingrespPacket"] obtain t c' where
    "connect sample_libs (NetOpen False) (FirstPacket PingrespPacket) 9 1 sample_idle = Done (t, c')"
    by (cases "connect sample_libs (NetOpen False) (FirstPacket PingrespPacket) 9 1 sample_idle") auto
  with settles[of "NetOpen False" "FirstPacket PingrespPacket"] settles[of NetPanic FirstNone] show ?thesis
    by (auto simp: sample_idle_view(3,5))
qed

end
