(* ===== verification/Transport.thy ===== *)
theory Transport
  imports Client_State
begin

section \<open>Transports\<close>

text \<open>
  \<^verbatim>\<open>src/src/transport.rs\<close>: the trait \<open>Transport\<close> and its three implementations. Resolving,
  dialling and the handshakes are library calls, here arguments of the definitions; the framed
  reader and writer they end in are one opaque value. An \<open>unwrap\<close> that fails is \<open>Panic\<close>, a failure the
  source converts into a \<open>TokenError\<close> is \<open>Inl\<close>.
\<close>

type_synonym 'n connection = "token_error + 'n"

text \<open>What \<open>timeout(connect_timeout, dial).await\<close> yields.\<close>

datatype 'n attempt = Dialed 'n | DialError string | DialTimeout

subsection \<open>Tcp\<close>

text \<open>The loop over the resolved addresses, with the variables \<open>network\<close> and \<open>error\<close>.\<close>

fun tcp_loop ::
  "('a \<Rightarrow> 'n attempt) \<Rightarrow> 'a list \<Rightarrow> 'n option \<times> token_error \<Rightarrow> 'n option \<times> token_error" where
  "tcp_loop dial [] (network, err) = (network, err)"
| "tcp_loop dial (a # addrs) (network, err) =
     (case dial a of
        Dialed n \<Rightarrow> (Some n, err)
      | DialError e \<Rightarrow> tcp_loop dial addrs (network, IOError e)
      | DialTimeout \<Rightarrow> tcp_loop dial addrs (network, ConnectTimeout))"

definition tcp_connect ::
  "(string \<Rightarrow> 'a list option) \<Rightarrow> (duration \<Rightarrow> 'a \<Rightarrow> 'n attempt) \<Rightarrow> string \<Rightarrow> duration \<Rightarrow>
   'n connection outcome" where
  "tcp_connect lookup_host dial addr connect_timeout =
     bind_outcome (unwrap_option (lookup_host addr))
       (\<lambda>addrs.
          let (network, err) = tcp_loop (dial connect_timeout) addrs (None, NetworkUnreachable)
          in Done (case network of Some n \<Rightarrow> Inr n | None \<Rightarrow> Inl err))"

subsection \<open>Ws\<close>

definition ws_connect ::
  "(string \<Rightarrow> 'u option) \<Rightarrow> ('u \<Rightarrow> 'r option) \<Rightarrow> ('r \<Rightarrow> string \<Rightarrow> string \<Rightarrow> 'r) \<Rightarrow>
   (duration \<Rightarrow> 'r \<Rightarrow> 'n attempt) \<Rightarrow> string \<Rightarrow> duration \<Rightarrow> 'n connection outcome" where
  "ws_connect parse_url into_request insert_header dial addr connect_timeout =
     bind_outcome (unwrap_option (parse_url addr))
       (\<lambda>url. bind_outcome (unwrap_option (into_request url))
          (\<lambda>request.
             let request = insert_header request ''Sec-WebSocket-Protocol'' ''mqtt''
             in Done (case dial connect_timeout request of
                  Dialed n \<Rightarrow> Inr n
                | DialError e \<Rightarrow> Inl NetworkUnreachable
                | DialTimeout \<Rightarrow> Inl ConnectTimeout)))"

subsection \<open>Quic\<close>

text \<open>
  The calls of \<^verbatim>\<open>s2n_quic\<close>: \<open>with_tls\<close> tells whether the certificate is accepted, the others
  give the text of their error.
\<close>

record ('a, 'k, 'n) quic_lib =
  with_tls :: "string \<Rightarrow> bool"
  with_io :: "string \<Rightarrow> string + unit"
  start_client :: "string + unit"
  parse_addr :: "string \<Rightarrow> string + 'a"
  quic_dial :: "'a \<Rightarrow> string \<Rightarrow> string + 'k"
  quic_keep_alive :: "'k \<Rightarrow> string + unit"
  open_stream :: "duration \<Rightarrow> 'k \<Rightarrow> 'n attempt"

record quic =
  quic_cert :: string

definition quic_new :: "string \<Rightarrow> quic" where
  "quic_new path = \<lparr>quic_cert = path\<rparr>"

definition quic_connect ::
  "('a, 'k, 'n) quic_lib \<Rightarrow> quic \<Rightarrow> string \<Rightarrow> duration \<Rightarrow> 'n connection outcome" where
  "quic_connect Q quic addr connect_timeout =
     (if \<not> with_tls Q (quic_cert quic) then Panic
      else Done (case with_io Q ''0.0.0.0:0'' of
        Inl e \<Rightarrow> Inl (IOError e)
      | Inr _ \<Rightarrow> (case start_client Q of
          Inl e \<Rightarrow> Inl (ConnectError e)
        | Inr _ \<Rightarrow> (case parse_addr Q addr of
            Inl e \<Rightarrow> Inl (ConnectError e)
          | Inr a \<Rightarrow> (case quic_dial Q a ''localhost'' of
              Inl e \<Rightarrow> Inl (ConnectionError e)
            | Inr k \<Rightarrow> (case quic_keep_alive Q k of
                Inl e \<Rightarrow> Inl (ConnectionError e)
              | Inr _ \<Rightarrow> (case open_stream Q connect_timeout k of
                  Dialed n \<Rightarrow> Inr n
                | DialError e \<Rightarrow> Inl (ConnectionError e)
                | DialTimeout \<Rightarrow> Inl ConnectTimeout)))))))"

subsection \<open>Lemmas\<close>

fun attempt_error :: "'n attempt \<Rightarrow> token_error option" where
  "attempt_error (Dialed n) = None"
| "attempt_error (DialError e) = Some (IOError e)"
| "attempt_error DialTimeout = Some ConnectTimeout"

lemma attempt_error_None: "attempt_error x = None \<longleftrightarrow> (\<exists>n. x = Dialed n)"
  by (cases x) simp_all

lemma tcp_loop_fails:
  "\<forall>a \<in> set pre. attempt_error (dial a) \<noteq> None \<Longrightarrow>
     tcp_loop dial (pre @ post) (network, err) =
     tcp_loop dial post (network, if pre = [] then err else the (attempt_error (dial (last pre))))"
proof (induction pre arbitrary: err)
  case (Cons a pre)
  then obtain e where e: "attempt_error (dial a) = Some e" by auto
  then have "tcp_loop dial (a # pre @ post) (network, err) = tcp_loop dial (pre @ post) (network, e)"
    by (cases "dial a") simp_all
  with Cons e show ?case by simp
qed simp

lemma first_dialed:
  "(\<forall>a \<in> set addrs. attempt_error (dial a) \<noteq> None) \<or>
   (\<exists>pre a post n. addrs = pre @ a # post \<and> dial a = Dialed n \<and> (\<forall>b \<in> set pre. attempt_error (dial b) \<noteq> None))"
proof (cases "\<exists>a \<in> set addrs. attempt_error (dial a) = None")
  case True
  then obtain pre a post where "addrs = pre @ a # post" "attempt_error (dial a) = None"
    "\<forall>b \<in> set pre. attempt_error (dial b) \<noteq> None"
    by (rule split_list_first_propE)
  then show ?thesis by (auto simp: attempt_error_None)
qed auto

subsection \<open>Properties\<close>

text \<open>
  The TCP transport tries the resolved addresses in order: it connects to the first that
  answers in time and tries none after it; when none does, the error is that of the last address
  tried, and \<open>NetworkUnreachable\<close> exactly when the name resolved to no address. A name that does not resolve panics.
\<close>

lemma tcp_first_address_or_last_error:
  "case lookup_host addr of
     None \<Rightarrow> tcp_connect lookup_host dial addr tmo = Panic
   | Some addrs \<Rightarrow>
       (if \<exists>a. a \<in> set addrs \<and> attempt_error (dial tmo a) = None
        then \<exists>pre a post n. addrs = pre @ a # post \<and> dial tmo a = Dialed n \<and>
          None \<notin> (\<lambda>b. attempt_error (dial tmo b)) ` set pre \<and>
          tcp_connect lookup_host dial addr tmo = Done (Inr n)
        else tcp_connect lookup_host dial addr tmo =
          Done (Inl (if addrs = [] then NetworkUnreachable
                     else the (attempt_error (dial tmo (last addrs))))))"
proof (cases "lookup_host addr")
  case (Some addrs)
  from first_dialed[of addrs "dial tmo"] show ?thesis
  proof
    assume "\<forall>a \<in> set addrs. attempt_error (dial tmo a) \<noteq> None"
    then show ?thesis
      using tcp_loop_fails[of addrs "dial tmo" "[]" None NetworkUnreachable] Some
      by (auto simp: tcp_connect_def)
  next
    assume "\<exists>pre a post n. addrs = pre @ a # post \<and> dial tmo a = Dialed n \<and>
      (\<forall>b \<in> set pre. attempt_error (dial tmo b) \<noteq> None)"
    then obtain pre a post n where split: "addrs = pre @ a # post" "dial tmo a = Dialed n"
      and pre: "\<forall>b \<in> set pre. attempt_error (dial tmo b) \<noteq> None" by blast
    then have "tcp_connect lookup_host dial addr tmo = Done (Inr n)"
      using tcp_loop_fails[OF pre, of "a # post" None NetworkUnreachable] Some
      by (simp add: tcp_connect_def)
    moreover have "\<exists>a. a \<in> set addrs \<and> attempt_error (dial tmo a) = None"
      using split by (auto simp: attempt_error_None)
    moreover have "None \<notin> (\<lambda>b. attempt_error (dial tmo b)) ` set pre"
      using pre by (metis imageE)
    ultimately show ?thesis using Some split by auto
  qed
qed (simp add: tcp_connect_def)

text \<open>
  The QUIC transport reports the first step that fails, with the error its type converts to,
  and yields a connection exactly when every step succeeds; it panics exactly for a certificate that is not accepted.
\<close>

lemma quic_connects_when_all_steps_do:
  "(quic_connect Q (quic_new cert) addr tmo = Panic \<longleftrightarrow> \<not> with_tls Q cert) \<and>
   (quic_connect Q (quic_new cert) addr tmo = Done (Inr n) \<longleftrightarrow>
      with_tls Q cert \<and> with_io Q ''0.0.0.0:0'' = Inr () \<and> start_client Q = Inr () \<and>
      (\<exists>a k. parse_addr Q addr = Inr a \<and> quic_dial Q a ''localhost'' = Inr k \<and>
        quic_keep_alive Q k = Inr () \<and> open_stream Q tmo k = Dialed n)) \<and>
   (quic_connect Q (quic_new cert) addr tmo = Done (Inl ConnectTimeout) \<longleftrightarrow>
      with_tls Q cert \<and> with_io Q ''0.0.0.0:0'' = Inr () \<and> start_client Q = Inr () \<and>
      (\<exists>a k. parse_addr Q addr = Inr a \<and> quic_dial Q a ''localhost'' = Inr k \<and>
        quic_keep_alive Q k = Inr () \<and> open_stream Q tmo k = DialTimeout))"
  by (auto simp: quic_connect_def quic_new_def split: sum.splits attempt.splits)

end
