(* ===== verification/Client_Transport.thy ===== *)
theory Client_Transport
  imports Client_Connect Transport
begin

section \<open>Connecting over a transport\<close>

text \<open>
  \<open>connect\<close> of \<^verbatim>\<open>src/src/client.rs\<close> over the transports of \<^verbatim>\<open>src/src/transport.rs\<close>: once the client is found
  disconnected, the transport is called with the server and the timeout of the options, and what it yields is the \<open>net\<close>
  of \<open>Client_Ops\<close>. \<open>sent\<close> tells whether a connection takes the CONNECT packet.
\<close>

type_synonym 'n transport = "string \<Rightarrow> duration \<Rightarrow> 'n connection outcome"

definition network_of :: "bool \<Rightarrow> 'n connection outcome \<Rightarrow> network" where
  "network_of sent r = (case r of Panic \<Rightarrow> NetPanic | Done (Inl e) \<Rightarrow> NetError e | Done (Inr n) \<Rightarrow> NetOpen sent)"

definition connect_over ::
  "'c libs \<Rightarrow> 'n transport \<Rightarrow> bool \<Rightarrow> first_frame \<Rightarrow> instant \<Rightarrow> nat \<Rightarrow> 'c mqtt_client \<Rightarrow> (addr \<times> 'c mqtt_client) outcome"
  where
  "connect_over K transport sent first now ch c =
     connect K (network_of sent (transport (get_server (options c)) (get_connect_timeout (options c)))) first now ch c"

text \<open>What the transport of a client that is connected or connecting would do has no effect: it is not called.\<close>

lemma connect_over_busy:
  "connect_status c \<noteq> Disconnected \<Longrightarrow>
     connect_over K transport sent first now ch c = connect_over K transport' sent' first now ch c"
  by (cases "connect_status c") (simp_all add: connect_over_def connect_eq Let_def)

lemma connect_over_outcome:
  assumes "client_inv c" and "connect_status c = Disconnected" and "build_connect_packet K (options c) = Done calls"
  shows "case transport (server (options c)) (connect_timeout (options c)) of
      Panic \<Rightarrow> connect_over K transport sent first now ch c = Panic
    | Done network \<Rightarrow> \<exists>c'. connect_over K transport sent first now ch c = Done (next_addr c, c') \<and> client_inv c' \<and>
        fst (tok_poll (next_addr c) w c') = Ready (case network of Inl e \<Rightarrow> Some e | Inr _ \<Rightarrow> reply_error first) \<and>
        (is_connected c' \<longleftrightarrow> (\<exists>n. network = Inr n) \<and> reply_error first = None) \<and>
        connect_status c' \<noteq> Connecting \<and>
        wire c' = wire c @ (if (\<exists>n. network = Inr n) \<and> sent then [ConnectPacket calls] else [])"
proof (cases "transport (server (options c)) (connect_timeout (options c))")
  case Panic
  with assms(2) show ?thesis by (simp add: connect_over_def network_of_def connect_eq Let_def)
next
  case (Done network)
  with connect_outcome[OF assms, of "network_of sent (Done network)" first now ch w] show ?thesis
    by (cases network) (auto simp: connect_over_def network_of_def is_connected_def split: if_splits)
qed

text \<open>
  C20. Connecting over TCP, with a valid will: if one of the addresses the server's name resolves to answers in time, the token's outcome is
  what the server's first frame means and the CONNECT packet has been written if the connection took it; if none does, it
  is the error of the last address tried, \<open>NetworkUnreachable\<close> exactly if there was none, the client is disconnected again
  and nothing has been written; but if the name does not resolve, the whole program panics, whatever it would do with an
  error.
\<close>

theorem connect_over_tcp:
  assumes "client_inv c" and "connect_status c = Disconnected" and "build_connect_packet K (options c) = Done calls"
  shows "case lookup_host (server (options c)) of
      None \<Rightarrow> connect_over K (tcp_connect lookup_host dial) sent first now ch c = Panic
    | Some addrs \<Rightarrow> \<exists>c'. connect_over K (tcp_connect lookup_host dial) sent first now ch c = Done (next_addr c, c') \<and>
        (if \<exists>a. a \<in> set addrs \<and> attempt_error (dial (connect_timeout (options c)) a) = None
         then fst (tok_poll (next_addr c) w c') = Ready (reply_error first) \<and>
           (is_connected c' \<longleftrightarrow> reply_error first = None) \<and>
           wire c' = wire c @ (if sent then [ConnectPacket calls] else [])
         else fst (tok_poll (next_addr c) w c') = Ready (Some (if addrs = [] then NetworkUnreachable
             else the (attempt_error (dial (connect_timeout (options c)) (last addrs))))) \<and>
           connect_status c' = Disconnected \<and> wire c' = wire c)"
proof -
  let ?tmo = "connect_timeout (options c)"
  note tcp = tcp_first_address_or_last_error[where lookup_host = lookup_host and addr = "server (options c)" and dial = dial and tmo = ?tmo]
  note outcome = connect_over_outcome[OF assms, of "tcp_connect lookup_host dial" sent first now ch w]
  show ?thesis
  proof (cases "lookup_host (server (options c))")
    case None
    with tcp outcome show ?thesis by simp
  next
    case (Some addrs)
    show ?thesis
    proof (cases "\<exists>a. a \<in> set addrs \<and> attempt_error (dial ?tmo a) = None")
      case True
      with tcp Some obtain n where "tcp_connect lookup_host dial (server (options c)) ?tmo = Done (Inr n)" by auto
      with outcome Some True show ?thesis by auto
    next
      case False
      with tcp Some have "tcp_connect lookup_host dial (server (options c)) ?tmo =
          Done (Inl (if addrs = [] then NetworkUnreachable else the (attempt_error (dial ?tmo (last addrs)))))"
        by simp
      with outcome obtain c' where c': "connect_over K (tcp_connect lookup_host dial) sent first now ch c = Done (next_addr c, c')"
        "fst (tok_poll (next_addr c) w c') = Ready (Some (if addrs = [] then NetworkUnreachable
          else the (attempt_error (dial ?tmo (last addrs)))))"
        "\<not> is_connected c'" "connect_status c' \<noteq> Connecting" "wire c' = wire c"
        by auto
      from c'(3,4) have "connect_status c' = Disconnected" by (cases "connect_status c'") (simp_all add: is_connected_def)
      with c' Some False show ?thesis by auto
    qed
  qed
qed

subsection \<open>Witness\<close>

lemma connect_over_tcp_witness:
  "(\<exists>c'. connect_over sample_libs (tcp_connect (\<lambda>_. Some [1, 2]) (\<lambda>tmo a. if a = (2 :: nat) then DialTimeout else DialError ''refused''))
        True FirstNone 9 1 sample_idle = Done (0, c') \<and>
      fst (tok_poll 0 3 c') = Ready (Some ConnectTimeout) \<and> connect_status c' = Disconnected) \<and>
   connect_over sample_libs (tcp_connect (\<lambda>_. None :: nat list option) (\<lambda>tmo a. DialTimeout)) True FirstNone 9 1 sample_idle = Panic"
  using connect_over_tcp[OF sample_idle_view(1,2,6), where lookup_host = "\<lambda>_. Some [1, 2]" and sent = True and first = FirstNone and now = 9 and ch = 1
      and w = 3 and dial = "\<lambda>tmo a. if a = (2 :: nat) then DialTimeout else DialError ''refused''"]
    connect_over_tcp[OF sample_idle_view(1,2,6), where lookup_host = "\<lambda>_. None :: nat list option" and sent = True and first = FirstNone and now = 9
      and ch = 1 and w = 3 and dial = "\<lambda>tmo a. DialTimeout"]
  by (auto simp: sample_idle_view(3) split: if_splits)

end
