(* ===== verification/System.thy ===== *)
theory System
  imports Client_Connect
begin

section \<open>The client together with its tasks\<close>

text \<open>
  The step relation of a running client: the caller's operations (\<^verbatim>\<open>src/src/client.rs\<close>) interleaved with the
  iterations of the read, write and keep-alive tasks (\<^verbatim>\<open>src/src/net.rs\<close>) and with the end of a
  connection. Every step is one the code takes under the locks it holds; what a step reads from
  outside is arbitrary.
\<close>

subsection \<open>The tasks leave the client's own fields alone\<close>

definition client_fields ::
  "'c mqtt_client \<Rightarrow> client_options \<times> connect_status \<times> bool \<times> bool \<times> variable_packet list \<times> nat option" where
  "client_fields c =
     (options c, connect_status c, notify_permit c, manual_disconnect c, wire c, outgoing_tx c)"

definition same_client :: "'c mqtt_client \<Rightarrow> 'c mqtt_client \<Rightarrow> bool" where
  "same_client c c' \<longleftrightarrow> client_fields c' = client_fields c"

lemma same_client_refl [simp]: "same_client c c"
  by (simp add: same_client_def)

lemma same_client_inv:
  "same_client c c' \<Longrightarrow> client_inv c \<Longrightarrow> state_inv c' \<Longrightarrow> client_inv c'"
  by (simp add: same_client_def client_inv_def is_connected_def client_fields_def)

lemma client_fields_updates [simp]:
  "client_fields (c\<lparr>packet_ids := x1\<rparr>) = client_fields c"
  "client_fields (c\<lparr>topic_manager := x2\<rparr>) = client_fields c"
  "client_fields (c\<lparr>subscriptions := x3\<rparr>) = client_fields c"
  "client_fields (c\<lparr>pending_packets := x4\<rparr>) = client_fields c"
  "client_fields (c\<lparr>last_sent_packet_at := x5\<rparr>) = client_fields c"
  "client_fields (spawn_handlers subs msg c) = client_fields c"
  "client_fields (send_outgoing ok pt c) = client_fields c"
  "client_fields (tok_set_error e a c) = client_fields c"
  "client_fields (tok_flow_complete a c) = client_fields c"
  "client_fields (map_data f a c) = client_fields c"
  by (simp_all add: client_fields_def) (simp_all add: spawn_handlers_def)

lemma suback_loop_fields [simp]: "client_fields (suback_loop i codes a c) = client_fields c"
proof (induction i codes a c rule: suback_loop.induct)
  case (2 i code codes a c)
  have "client_fields (suback_body i code a c) = client_fields c"
    by (simp add: suback_body_def Let_def set_result_def split: option.split)
  with 2 show ?case by simp
qed simp

lemma handlers_fields [simp]:
  "client_fields (handle_puback i c) = client_fields c"
  "client_fields (handle_pubcomp i c) = client_fields c"
  "client_fields (handle_suback i codes c) = client_fields c"
  "client_fields (handle_unsuback i c) = client_fields c"
  "client_fields (snd (handle_pubrel K i c)) = client_fields c"
  by (simp_all add: handle_puback_def handle_pubcomp_def handle_suback_def handle_unsuback_def
      handle_pubrel_def split_beta Let_def split: option.split token.split)

lemma handle_publish_fields:
  "handle_publish K q c = Done (r, c') \<Longrightarrow> client_fields c' = client_fields c"
  by (auto simp: handle_publish_def split_beta Let_def bind_outcome_Done_iff split: quality_of_service.splits)

lemma dispatch_same: "dispatch_packet K p c = Done (d, c') \<Longrightarrow> same_client c c'"
  by (cases p) (auto simp: same_client_def bind_outcome_Done_iff split_beta dest: handle_publish_fields)

lemma read_step_same: "read_step K f c = Done (going, out, c') \<Longrightarrow> same_client c c'"
proof -
  assume step: "read_step K f c = Done (going, out, c')"
  obtain fr sent where f: "f = (fr, sent)" by (cases f)
  show ?thesis
  proof (cases fr)
    case (Frame p)
    with f step show ?thesis by (metis read_step_Frame dispatch_same)
  qed (use f step in simp_all)
qed

lemma complete_written_inv [simp]: "state_inv (complete_written t s) = state_inv s"
  by (simp add: complete_written_def split: option.split token.split)

lemma complete_written_fields [simp]: "client_fields (complete_written t c) = client_fields c"
  by (simp add: complete_written_def split: option.split token.split)

lemma write_step_inv:
  "write_step e s = (going, out, s') \<Longrightarrow> state_inv s \<Longrightarrow> state_inv s'"
  by (elim write_stepE) (auto split: option.splits)

lemma write_step_same: "write_step e c = (going, out, c') \<Longrightarrow> same_client c c'"
  by (elim write_stepE)
    (auto simp: same_client_def split: option.splits)

lemma keep_alive_step_effect:
  "keep_alive_step dur fl now now2 sent s = Done (act, s') \<Longrightarrow>
     s' = s \<or> s' = send_outgoing sent (packet_and_token_new PingreqPacket) s"
  by (auto simp: keep_alive_step_def Let_def bind_outcome_Done_iff split: if_splits)

subsection \<open>Completion is final\<close>

definition grows :: "'a heap_scheme \<Rightarrow> 'b heap_scheme \<Rightarrow> bool" where
  "grows s s' \<longleftrightarrow>
     (\<forall>a. (tok_live s a \<longrightarrow> tok_live s' a) \<and> (tok_done s a \<longrightarrow> tok_done s' a)) \<and> next_addr s \<le> next_addr s'"

lemma grows_refl: "grows s s"
  by (simp add: grows_def)

lemma grows_trans: "grows s s1 \<Longrightarrow> grows s1 s2 \<Longrightarrow> grows s s2"
  by (auto simp: grows_def)

lemma grows_cells: "cells s' = cells s \<Longrightarrow> next_addr s' = next_addr s \<Longrightarrow> grows s s'"
  by (simp add: grows_def tok_view_defs)

lemma grows_ops:
  "grows s (tok_set_error e a s)" "grows s (tok_flow_complete a s)" "grows s (map_data f a s)"
  by (auto simp: grows_def tok_simps tok_done_live)

lemma grows_done:
  "(\<And>a. tok_live s' a = tok_live s a) \<Longrightarrow> next_addr s' = next_addr s \<Longrightarrow>
   (\<And>a. tok_done s a \<Longrightarrow> tok_done s' a) \<Longrightarrow> grows s s'"
  by (simp add: grows_def)

lemma grows_handlers:
  "grows s (handle_puback i s)" "grows s (handle_pubcomp i s)"
  "grows s (handle_suback i codes s)" "grows s (handle_unsuback i s)"
  by (auto simp: grows_def handle_puback_def handle_pubcomp_def handle_suback_def handle_unsuback_def
      tok_simps tok_done_live split: option.split token.split)

lemma grows_pubrel: "grows s (snd (handle_pubrel K i s))"
  by (rule grows_cells) (simp_all add: handle_pubrel_def split_beta Let_def split: option.split)

lemma grows_publish: "handle_publish K q s = Done (r, s') \<Longrightarrow> grows s s'"
  by (rule grows_cells)
    (auto simp: handle_publish_def split_beta Let_def bind_outcome_Done_iff split: quality_of_service.splits)

lemma grows_dispatch: "dispatch_packet K p s = Done (d, s') \<Longrightarrow> grows s s'"
  using grows_pubrel[of s K]
  by (cases p) (auto simp: bind_outcome_Done_iff grows_handlers grows_refl split_beta dest: grows_publish)

lemma grows_read_step: "read_step K f s = Done (going, out, s') \<Longrightarrow> grows s s'"
proof -
  assume step: "read_step K f s = Done (going, out, s')"
  obtain fr sent where f: "f = (fr, sent)" by (cases f)
  show ?thesis
  proof (cases fr)
    case (Frame p)
    with f step show ?thesis by (metis read_step_Frame grows_dispatch)
  qed (use f step grows_refl in simp_all)
qed

lemma grows_time: "grows s (s\<lparr>last_sent_packet_at := now\<rparr>)"
  by (rule grows_cells) simp_all

lemma grows_complete_written: "grows s (complete_written t s)"
  using grows_refl[of s] grows_ops(2)[of s]
  by (auto simp: complete_written_def split: option.split token.split)

lemma grows_write_step: "write_step e s = (going, out, s') \<Longrightarrow> grows s s'"
  by (elim write_stepE)
    (auto simp: grows_ops grows_refl grows_time intro: grows_trans[OF grows_time grows_complete_written]
      split: option.splits)

lemma grows_send: "grows s (send_outgoing ok pt s)"
  by (rule grows_cells) simp_all

lemma grows_connection_over: "client_inv c \<Longrightarrow> grows c (connection_over c)"
  by (auto simp: grows_def connection_over_done connection_over_view tok_live_def)

lemma grows_untouched:
  assumes "state_inv c" and "untouched c c'"
  shows "grows c c'"
proof -
  have "cells c' a = cells c a" if "tok_live c a" for a
    using that assms by (auto simp: untouched_def state_inv_def heap_ok_def)
  then show ?thesis
    using assms(2) tok_done_live[of c] by (auto simp: grows_def tok_live_def tok_done_def untouched_def)
qed

lemma grows_connect_data:
  "grows s (connect_set_return_code code a s)" "grows s (connect_set_session_present a s)"
  by (simp_all add: connect_set_return_code_def connect_set_session_present_def grows_ops)

lemma grows_new_token: "heap_ok s \<Longrightarrow> grows s (snd (new_token d s))"
  using tok_done_live[of s] by (auto simp: grows_def tok_simps heap_ok_def)

lemma grows_client_update:
  "grows c (c\<lparr>connect_status := x1\<rparr>)" "grows c (c\<lparr>wire := x2\<rparr>)" "grows c (adopt_state now ch c)"
  "grows c (c\<lparr>connect_status := x1, manual_disconnect := x3\<rparr>)"
  "grows c (c\<lparr>connect_status := x1, wire := x2\<rparr>)"
  by (rule grows_cells; simp add: adopt_state_def)+

lemma grows_refuse: "grows c (refuse_connect e t c)"
  unfolding refuse_connect_def set_connect_status_def
  by (rule grows_trans[OF grows_client_update(1) grows_ops(1)])

lemma grows_finish: "grows c (finish_connect sp t (adopt_state now ch c))"
proof -
  let ?c1 = "(adopt_state now ch c)\<lparr>connect_status := Connected, manual_disconnect := False\<rparr>"
  have "grows c ?c1" by (rule grows_trans[OF grows_client_update(3,4)])
  moreover have "grows ?c1 (if sp then connect_set_session_present t ?c1 else ?c1)"
    by (simp add: grows_refl grows_connect_data)
  ultimately show ?thesis
    unfolding finish_connect_def Let_def by (blast intro: grows_trans grows_ops(2))
qed

lemma grows_reply: "grows c (connect_reply first now ch t c)"
  unfolding connect_reply_def
  by (auto simp: grows_refuse grows_finish intro: grows_trans[OF grows_connect_data(1) grows_refuse]
      split: first_frame.split variable_packet.split connect_return_code.split)

lemma grows_connect:
  assumes "client_inv c" and "connect K net first now ch c = Done (t, c')"
  shows "grows c c'"
proof -
  have start: "grows c (connect_start c)"
    using assms(1) by (simp add: connect_start_def grows_new_token client_inv_def state_inv_def)
  show ?thesis
  proof (cases "connect_status c")
    case Disconnected
    have began: "grows c (set_connect_status Connecting (connect_start c))"
      unfolding set_connect_status_def by (rule grows_trans[OF start grows_client_update(1)])
    show ?thesis
    proof (cases net)
      case (NetError e)
      with Disconnected assms(2) grows_trans[OF began grows_refuse] show ?thesis
        by (auto simp: connect_eq Let_def)
    next
      case (NetOpen sent)
      with Disconnected assms(2) obtain out where
        "c' = connect_reply first now ch t (awaiting_connack out c)"
        by (auto simp: connect_eq bind_outcome_Done_iff awaiting_connack_def set_connect_status_def Let_def)
      moreover have "grows c (awaiting_connack out c)" for out
        unfolding awaiting_connack_def by (rule grows_trans[OF began grows_client_update(2)])
      ultimately show ?thesis using grows_trans grows_reply by blast
    qed (use Disconnected assms(2) in \<open>simp add: connect_eq Let_def\<close>)
  qed (use assms grows_trans[OF start grows_connect_data(1)] grows_trans[OF start grows_ops(1)] in
      \<open>auto simp: connect_eq Let_def\<close>)
qed

subsection \<open>The step relation\<close>

inductive client_step :: "'c libs \<Rightarrow> 'c mqtt_client \<Rightarrow> 'c mqtt_client \<Rightarrow> bool" for K where
  read: "read_step K f c = Done (going, out, c') \<Longrightarrow> client_step K c c'"
| wrote: "write_step e c = (going, out, c') \<Longrightarrow> client_step K c c'"
| pinged: "keep_alive_step dur flag now now2 sent c = Done (act, c') \<Longrightarrow> client_step K c c'"
| ended: "client_step K c (connection_over c)"
| requested: "do_request K req ok c = Done (t, c') \<Longrightarrow> client_step K c c'"
| connected: "connect K net first now ch c = Done (t, c') \<Longrightarrow> client_step K c c'"

inductive client_run :: "'c libs \<Rightarrow> 'c mqtt_client \<Rightarrow> 'c mqtt_client \<Rightarrow> bool" for K where
  run_refl: "client_run K c c"
| run_step: "client_run K c c1 \<Longrightarrow> client_step K c1 c2 \<Longrightarrow> client_run K c c2"

lemma client_step_sound:
  assumes "client_step K c c'" and "client_inv c"
  shows "client_inv c' \<and> grows c c'"
  using assms
proof cases
  case (read f going out)
  from read_step_inv[OF client_invD[OF assms(2)] read] have "state_inv c'" .
  with same_client_inv[OF read_step_same[OF read] assms(2)] grows_read_step[OF read] show ?thesis by simp
next
  case (wrote e going out)
  from write_step_inv[OF wrote client_invD[OF assms(2)]] have "state_inv c'" .
  with same_client_inv[OF write_step_same[OF wrote] assms(2)] grows_write_step[OF wrote] show ?thesis by simp
next
  case (pinged dur flag now now2 sent act)
  from keep_alive_step_effect[OF pinged] show ?thesis
  proof
    assume c': "c' = send_outgoing sent (packet_and_token_new PingreqPacket) c"
    have "client_inv c'"
      unfolding c' by (rule same_client_inv[OF _ assms(2)])
        (use client_invD[OF assms(2)] in \<open>simp_all add: same_client_def\<close>)
    then show ?thesis using grows_send c' by blast
  qed (use assms(2) grows_refl in simp)
next
  case ended
  then show ?thesis using connection_over_inv[OF assms(2)] grows_connection_over[OF assms(2)] by simp
next
  case (requested req ok t)
  from req.post[OF assms(2) requested] have "client_inv c'" "untouched c c'"
    by (simp_all add: request_post_def)
  then show ?thesis using grows_untouched[OF client_invD[OF assms(2)]] by simp
next
  case (connected net first now ch t)
  then show ?thesis using connect_inv[OF assms(2)] grows_connect[OF assms(2)] by blast
qed

lemma client_run_sound: "client_run K c c' \<Longrightarrow> client_inv c \<Longrightarrow> client_inv c' \<and> grows c c'"
  by (induction rule: client_run.induct) (auto simp: grows_refl intro: grows_trans dest: client_step_sound)

lemma mqtt_client_new_status [simp]: "connect_status (mqtt_client_new K now h opts) = Disconnected"
  by (simp add: mqtt_client_new_def state.extend_def)

lemma client_inv_new: "heap_ok h \<Longrightarrow> client_inv (mqtt_client_new K now h opts)"
  by (simp add: client_inv_def is_connected_def) (simp add: mqtt_client_new_def state_inv_extend state_inv_new)

lemma read_step_returns: "codec_laws K \<Longrightarrow> read_step K f s \<noteq> Panic"
proof -
  assume laws: "codec_laws K"
  obtain fr sent where f: "f = (fr, sent)" by (cases f)
  show ?thesis
  proof (cases fr)
    case (Frame p)
    from dispatch_packet_response[OF laws, of p s] obtain d s' where "dispatch_packet K p s = Done (d, s')"
      by blast
    with f Frame show ?thesis by simp
  qed (use f in simp_all)
qed

subsection \<open>Identifiers and connections\<close>

text \<open>A client that is not connected has no identifier in use.\<close>

definition quiet :: "'c mqtt_client \<Rightarrow> bool" where
  "quiet c \<longleftrightarrow> (is_connected c \<or> index (packet_ids c) = [])"

definition ids_shrink :: "('c, 'a) state_scheme \<Rightarrow> ('c, 'a) state_scheme \<Rightarrow> bool" where
  "ids_shrink s s' \<longleftrightarrow> (index (packet_ids s) = [] \<longrightarrow> index (packet_ids s') = [])"

lemma ids_shrink_ops [simp]:
  "ids_shrink s s"
  "ids_shrink s (handle_puback i s)" "ids_shrink s (handle_pubcomp i s)"
  "ids_shrink s (handle_suback i codes s)" "ids_shrink s (handle_unsuback i s)"
  "ids_shrink s (snd (handle_pubrel K i s))"
  by (auto simp: ids_shrink_def handle_puback_def handle_pubcomp_def handle_suback_def
      handle_unsuback_def handle_pubrel_def free_id_def split_beta Let_def
      split: option.split token.split)

lemma ids_shrink_publish: "handle_publish K q s = Done (r, s') \<Longrightarrow> ids_shrink s s'"
  by (auto simp: ids_shrink_def handle_publish_def split_beta Let_def bind_outcome_Done_iff
      split: quality_of_service.splits)

lemma ids_shrink_dispatch: "dispatch_packet K p s = Done (d, s') \<Longrightarrow> ids_shrink s s'"
  using ids_shrink_ops(6)[of s K]
  by (cases p) (auto simp: bind_outcome_Done_iff split_beta dest: ids_shrink_publish)

lemma ids_shrink_read_step: "read_step K f s = Done (going, out, s') \<Longrightarrow> ids_shrink s s'"
proof -
  assume step: "read_step K f s = Done (going, out, s')"
  obtain fr sent where f: "f = (fr, sent)" by (cases f)
  show ?thesis
  proof (cases fr)
    case (Frame p)
    with f step show ?thesis by (metis read_step_Frame ids_shrink_dispatch)
  qed (use f step in simp_all)
qed

lemma write_step_ids: "write_step e s = (going, out, s') \<Longrightarrow> packet_ids s' = packet_ids s"
  by (elim write_stepE)
    (auto simp: complete_written_def split: option.splits token.splits)

lemma same_client_quiet: "same_client c c' \<Longrightarrow> ids_shrink c c' \<Longrightarrow> quiet c \<Longrightarrow> quiet c'"
  by (auto simp: same_client_def client_fields_def quiet_def is_connected_def ids_shrink_def)

lemma connect_ids:
  assumes "connect_status c = Disconnected" and "connect K net first now ch c = Done (t, c')"
  shows "packet_ids c' = packet_ids c"
proof -
  have "packet_ids (connect_reply first now ch a d) = packet_ids d" for a and d :: "'a mqtt_client"
    by (simp add: connect_step_defs split: first_frame.split variable_packet.split connect_return_code.split)
  with assms show ?thesis
    by (auto simp: connect_eq Let_def refuse_connect_def set_connect_status_def
        bind_outcome_Done_iff split: network.splits)
qed

lemma connect_quiet:
  assumes "connect K net first now ch c = Done (t, c')" and "quiet c"
  shows "quiet c'"
proof (cases "connect_status c")
  case Connected
  with assms(1) show ?thesis by (auto simp: connect_eq Let_def quiet_def is_connected_def)
next
  case Connecting
  with assms show ?thesis by (auto simp: connect_eq Let_def quiet_def is_connected_def)
next
  case Disconnected
  with connect_ids[OF this assms(1)] assms(2) show ?thesis by (simp add: quiet_def is_connected_def)
qed

lemma client_step_quiet:
  assumes "client_step K c c'" and "client_inv c" and "quiet c"
  shows "quiet c'"
  using assms(1)
proof cases
  case (read f going out)
  show ?thesis by (rule same_client_quiet[OF read_step_same[OF read] ids_shrink_read_step[OF read] assms(3)])
next
  case (wrote e going out)
  have "ids_shrink c c'" using write_step_ids[OF wrote] by (simp add: ids_shrink_def)
  from same_client_quiet[OF write_step_same[OF wrote] this assms(3)] show ?thesis .
next
  case (pinged dur flag now now2 sent act)
  from keep_alive_step_effect[OF pinged] assms(3) show ?thesis
    by (auto simp: quiet_def is_connected_def)
next
  case ended
  then show ?thesis by (simp add: quiet_def connection_over_view)
next
  case (requested req ok t)
  show ?thesis
  proof (cases "is_connected c")
    case True
    have "untouched c c'" using req.post[OF assms(2) requested] by (simp add: request_post_def)
    with True show ?thesis by (simp add: quiet_def is_connected_def untouched_def)
  next
    case False
    from req.lost[OF assms(2) this, of K req ok] requested have "packet_ids c' = packet_ids c" by auto
    with False assms(3) show ?thesis by (simp add: quiet_def)
  qed
next
  case (connected net first now ch t)
  then show ?thesis using connect_quiet assms(3) by blast
qed

lemma client_run_quiet: "client_run K c c' \<Longrightarrow> client_inv c \<Longrightarrow> quiet c \<Longrightarrow> quiet c'"
proof (induction rule: client_run.induct)
  case (run_step c c1 c2)
  with client_run_sound[OF run_step.hyps(1)] show ?case by (blast intro: client_step_quiet)
qed

lemma quiet_new: "quiet (mqtt_client_new K now h opts)"
  by (simp add: quiet_def mqtt_client_new_def state.extend_def state_new_view packet_ids_new_def)

subsection \<open>Properties\<close>

text \<open>
  Every state a client can reach, by its caller's operations and its tasks in any interleaving
  and with any answers from outside, satisfies the invariant; in a release build no request and no
  packet panics there, and neither does the keep-alive task of a connected client.
\<close>

lemma reachable_states_are_safe:
  assumes "heap_ok h" and "client_run K (mqtt_client_new K now h opts) c"
    and "\<not> overflow_checks K" and "codec_laws K"
  shows "client_inv c \<and> do_request K req ok c \<noteq> Panic \<and> read_step K f c \<noteq> Panic \<and>
    (is_connected c \<longrightarrow> keep_alive_step dur flag n1 n2 sent c \<noteq> Panic)"
proof -
  have inv: "client_inv c"
    using client_run_sound[OF assms(2) client_inv_new[OF assms(1)]] by simp
  have "is_connected c \<longrightarrow> keep_alive_step dur flag n1 n2 sent c \<noteq> Panic"
    using inv by (auto simp: client_inv_def keep_alive_step_def Let_def)
  with inv req.returns[OF inv assms(3)] read_step_returns[OF assms(4)] show ?thesis by simp
qed

text \<open>
  C24. Completion is final: a token that is ready stays ready whatever the client, its tasks and
  the server do afterwards, and a cell once allocated is never freed or handed out again.
\<close>

theorem completion_is_final:
  assumes "client_inv c" and "client_run K c c'" and "tok_done c a"
  shows "(\<exists>r. fst (tok_poll a w c') = Ready r) \<and> a < next_addr c \<and> next_addr c \<le> next_addr c'"
proof -
  have "grows c c'" using client_run_sound[OF assms(2,1)] by simp
  moreover have "a < next_addr c"
    using assms(1,3) tok_done_live[of c a] by (auto simp: client_inv_def state_inv_def heap_ok_def)
  ultimately show ?thesis using assms(3) by (simp add: grows_def tok_simps)
qed

text \<open>
  In every reachable state a client that is not connected has no packet identifier in use, and a
  connect finds the table empty: the answers of one connection can never complete an operation of an
  earlier one.
\<close>

lemma no_ids_while_disconnected:
  assumes "heap_ok h" and "client_run K (mqtt_client_new K now h opts) c"
  shows "(is_connected c \<or> index (packet_ids c) = []) \<and>
    (connect_status c = Disconnected \<longrightarrow>
      connect K net first now' ch c = Done (t, c') \<longrightarrow> index (packet_ids c') = [])"
proof -
  have quiet: "quiet c"
    using client_run_quiet[OF assms(2) client_inv_new[OF assms(1)] quiet_new] .
  have "index (packet_ids c') = []"
    if "connect_status c = Disconnected" "connect K net first now' ch c = Done (t, c')"
    using connect_ids[OF that] quiet that(1) by (simp add: quiet_def is_connected_def)
  with quiet show ?thesis by (simp add: quiet_def)
qed

subsection \<open>Witnesses\<close>

lemma completion_is_final_witness:
  "\<exists>r. fst (tok_poll 0 7 (connection_over (tok_flow_complete 0 (connect_start sample_client)))) = Ready r"
proof -
  have "client_inv (tok_flow_complete 0 (connect_start sample_client))"
    using sample_client_view(1)
    by (simp add: client_inv_def connect_start_def state_inv_new_token is_connected_def)
  moreover have "tok_done (tok_flow_complete 0 (connect_start sample_client)) 0"
    using connect_start_view(10)[of sample_client] by (simp add: tok_simps sample_client_view(3))
  ultimately show ?thesis
    using completion_is_final[OF _ run_step[OF run_refl ended]] by blast
qed

end
