(* ===== verification/Block_Loop.thy ===== *)
theory Block_Loop
  imports System
begin

section \<open>The reconnect loop\<close>

text \<open>
  \<^verbatim>\<open>block\<close> of \<^verbatim>\<open>src/src/client.rs\<close>, as a state machine: a program counter, the counter \<open>cnt\<close> and the
  client. A step is the code between two waits; the event says which wait ended and what the
  world answered. While \<open>block\<close> waits the tasks of the connection run, but no other operation of the
  client does: \<open>block\<close> borrows it mutably.
\<close>

datatype block_pc =
    AtSelect
  | AwaitConnect addr
  | Resubscribe "(string \<times> subscription) list"
  | AwaitSubscribe addr "(string \<times> subscription) list"
  | BlockExit

datatype block_event =
    SleepElapsed
  | NotifiedThen "network" first_frame instant nat
  | PollToken waker
  | SubscribeNext bool

type_synonym 'c block_state = "block_pc \<times> u16 \<times> 'c mqtt_client"

text \<open>The head of the loop, which a \<open>continue\<close> and the end of the body go back to.\<close>

definition block_head :: "u16 \<Rightarrow> 'c mqtt_client \<Rightarrow> 'c block_state" where
  "block_head cnt c =
     (case get_max_connect_retry_times (options c) of
        Some m \<Rightarrow> (if m \<le> cnt then BlockExit else AtSelect, cnt, c)
      | None \<Rightarrow> (AtSelect, cnt, c))"

definition block_start :: "'c mqtt_client \<Rightarrow> 'c block_state" where
  "block_start c = block_head 0 c"

text \<open>The branch of the elapsed sleep.\<close>

definition block_sleep :: "u16 \<Rightarrow> 'c mqtt_client \<Rightarrow> 'c block_state" where
  "block_sleep cnt c =
     (case connect_status c of
        Connected \<Rightarrow> block_head cnt c
      | Disconnected \<Rightarrow>
          if \<not> manual_disconnect c
          then if get_auto_reconnect (options c) then block_head cnt (c\<lparr>notify_permit := True\<rparr>)
               else (BlockExit, cnt, c)
          else block_head cnt c
      | Connecting \<Rightarrow> block_head cnt c)"

text \<open>The branch of the notification, up to the wait for the token. \<open>cnt += 1\<close> may overflow.\<close>

definition block_notified ::
  "'c libs \<Rightarrow> network \<Rightarrow> first_frame \<Rightarrow> instant \<Rightarrow> nat \<Rightarrow> u16 \<Rightarrow> 'c mqtt_client \<Rightarrow>
   'c block_state outcome" where
  "block_notified K net first now ch cnt c =
     (if overflow_checks K \<and> cnt = 65535 then Panic
      else bind_outcome (connect K net first now ch (c\<lparr>notify_permit := False\<rparr>))
             (\<lambda>(token, c1). Done (AwaitConnect token, cnt + 1, c1)))"

text \<open>After the wait, with the token's error.\<close>

definition block_connected :: "token_error option \<Rightarrow> addr \<Rightarrow> u16 \<Rightarrow> 'c mqtt_client \<Rightarrow> 'c block_state" where
  "block_connected err token cnt c =
     (if err \<noteq> None then block_head cnt c
      else if \<not> connect_session_present c token
      then let (ids, c1) = clean_up (packet_ids c) c;
               c2 = c1\<lparr>packet_ids := ids\<rparr>;
               subs = subscriptions c2;
               c3 = c2\<lparr>topic_manager := tm_clear (topic_manager c2)\<rparr>
           in (Resubscribe subs, 0, c3)
      else block_head 0 c)"

text \<open>One step; \<open>None\<close> where the event cannot happen.\<close>

fun block_step :: "'c libs \<Rightarrow> block_event \<Rightarrow> 'c block_state \<Rightarrow> 'c block_state option outcome" where
  "block_step K SleepElapsed (AtSelect, cnt, c) = Done (Some (block_sleep cnt c))"
| "block_step K (NotifiedThen net first now ch) (AtSelect, cnt, c) =
     (if notify_permit c
      then bind_outcome (block_notified K net first now ch cnt c) (\<lambda>s. Done (Some s))
      else Done None)"
| "block_step K (PollToken w) (AwaitConnect token, cnt, c) =
     (case tok_poll token w c of
        (Ready err, c1) \<Rightarrow> Done (Some (block_connected err token cnt c1))
      | (Pending, c1) \<Rightarrow> Done (Some (AwaitConnect token, cnt, c1)))"
| "block_step K (SubscribeNext ok) (Resubscribe [], cnt, c) = Done (Some (block_head cnt c))"
| "block_step K (SubscribeNext ok) (Resubscribe ((topic, sub) # subs), cnt, c) =
     bind_outcome (subscribe K ok topic (sub_qos sub) (sub_handler sub) c)
       (\<lambda>(token, c1). Done (Some (AwaitSubscribe token subs, cnt, c1)))"
| "block_step K (PollToken w) (AwaitSubscribe token subs, cnt, c) =
     (case tok_poll token w c of
        (Ready _, c1) \<Rightarrow> Done (Some (Resubscribe subs, cnt, c1))
      | (Pending, c1) \<Rightarrow> Done (Some (AwaitSubscribe token subs, cnt, c1)))"
| "block_step K _ s = Done None"

text \<open>A run of events with nothing in between.\<close>

fun block_run :: "'c libs \<Rightarrow> block_event list \<Rightarrow> 'c block_state \<Rightarrow> 'c block_state option outcome" where
  "block_run K [] s = Done (Some s)"
| "block_run K (ev # evs) s =
     bind_outcome (block_step K ev s)
       (\<lambda>r. case r of None \<Rightarrow> Done None | Some s' \<Rightarrow> block_run K evs s')"

text \<open>The loop among the tasks of the connection.\<close>

inductive task_step :: "'c libs \<Rightarrow> 'c mqtt_client \<Rightarrow> 'c mqtt_client \<Rightarrow> bool" for K where
  "read_step K f c = Done (going, out, c') \<Longrightarrow> task_step K c c'"
| "write_step e c = (going, out, c') \<Longrightarrow> task_step K c c'"
| "keep_alive_step dur flag now now2 sent c = Done (act, c') \<Longrightarrow> task_step K c c'"
| "task_step K c (connection_over c)"

inductive blocking :: "'c libs \<Rightarrow> 'c mqtt_client \<Rightarrow> 'c block_state \<Rightarrow> bool" for K c0 where
  block_init: "blocking K c0 (block_start c0)"
| block_own: "blocking K c0 s \<Longrightarrow> block_step K ev s = Done (Some s') \<Longrightarrow> blocking K c0 s'"
| block_task: "blocking K c0 (pc, cnt, c) \<Longrightarrow> task_step K c c' \<Longrightarrow> blocking K c0 (pc, cnt, c')"

inductive_cases task_stepE: "task_step K c c'"

subsection \<open>What tasks and connects do to the loop's inputs\<close>

lemma task_step_effect:
  assumes "task_step K c c'" and "client_inv c"
  shows "client_inv c' \<and> grows c c' \<and> options c' = options c \<and> notify_permit c' = notify_permit c \<and>
    manual_disconnect c' = manual_disconnect c \<and> wire c' = wire c \<and>
    (connect_status c' = connect_status c \<or> connect_status c' = Disconnected)"
proof -
  have step: "client_step K c c'"
    using assms(1) by cases (auto intro: client_step.intros)
  have "same_client c c' \<or> c' = connection_over c"
    using assms(1)
  proof cases
    case 3
    then show ?thesis
      using keep_alive_step_effect[OF 3] by (auto simp: same_client_def)
  qed (auto intro: read_step_same write_step_same)
  then have "options c' = options c \<and> notify_permit c' = notify_permit c \<and>
    manual_disconnect c' = manual_disconnect c \<and> wire c' = wire c \<and>
    (connect_status c' = connect_status c \<or> connect_status c' = Disconnected)"
  proof
    assume "same_client c c'"
    then show ?thesis by (simp add: same_client_def client_fields_def)
  next
    assume c': "c' = connection_over c"
    have "wire (fold (token_set_error e) ts d) = wire d" for e ts and d :: "'a mqtt_client"
      by (induction ts arbitrary: d) simp_all
    then show ?thesis
      by (simp add: c' connection_over_def clean_up_def set_connect_status_def Let_def)
  qed
  with client_step_sound[OF step assms(2)] show ?thesis by blast
qed

lemma connect_data_fields [simp]:
  "options (connect_set_return_code code a c) = options c"
  "notify_permit (connect_set_return_code code a c) = notify_permit c"
  "manual_disconnect (connect_set_return_code code a c) = manual_disconnect c"
  "options (connect_set_session_present a c) = options c"
  "notify_permit (connect_set_session_present a c) = notify_permit c"
  by (simp_all add: connect_set_return_code_def connect_set_session_present_def)

lemma connect_start_fields [simp]:
  "notify_permit (connect_start c) = notify_permit c"
  "manual_disconnect (connect_start c) = manual_disconnect c"
  by (simp_all add: connect_start_def)

lemma connect_reply_fields:
  "options (connect_reply first now ch t c) = options c"
  "notify_permit (connect_reply first now ch t c) = notify_permit c"
  "reply_error first \<noteq> None \<Longrightarrow>
     manual_disconnect (connect_reply first now ch t c) = manual_disconnect c"
  by (auto simp: connect_step_defs split: first_frame.split variable_packet.split connect_return_code.split)

lemma connect_reply_session:
  assumes "tok_live c t" and "data_at c t = Some connect_default"
  shows "connect_session_present (connect_reply first now ch t c) t \<longleftrightarrow>
    first = FirstPacket (ConnackPacket ConnectionAccepted True)"
  using assms
  by (auto simp: connect_step_defs connect_session_present_def connect_set_session_present_def
      connect_set_return_code_def connect_default_def tok_simps
      split: first_frame.split variable_packet.split connect_return_code.split)

lemma connect_disconnected:
  assumes "connect_status c = Disconnected" and "connect K net first now ch c = Done (t, c')"
  shows "t = next_addr c \<and> tok_done c' t \<and> tok_err c' t = connect_error net first \<and>
    connect_status c' = (if connect_error net first = None then Connected else Disconnected) \<and>
    options c' = options c \<and> notify_permit c' = notify_permit c \<and>
    (connect_error net first \<noteq> None \<longrightarrow> manual_disconnect c' = manual_disconnect c)"
proof (cases net)
  case (NetError e)
  with assms show ?thesis
    by (auto simp: connect_eq Let_def refuse_connect_def set_connect_status_def tok_simps)
next
  case (NetOpen sent)
  with assms obtain out where c': "t = next_addr c"
    "c' = connect_reply first now ch t (awaiting_connack out c)"
    by (auto simp: connect_eq bind_outcome_Done_iff awaiting_connack_def set_connect_status_def Let_def)
  note view = awaiting_view(2,3)[where c = c and out = out]
  show ?thesis
    using connect_reply_result[OF view, of first now ch] connect_reply_fields[of first now ch t "awaiting_connack out c"]
      c' NetOpen
    by (simp add: awaiting_connack_def set_connect_status_def)
qed (use assms in \<open>simp add: connect_eq Let_def\<close>)

lemma connect_retry:
  assumes "connect_status c = Disconnected" and "build_connect_packet K (options c) = Done calls" and "net \<noteq> NetPanic"
  shows "\<exists>c'. connect K net first now ch c = Done (next_addr c, c')"
  using assms by (cases net) (auto simp: connect_eq Let_def)

subsection \<open>The invariant of the loop\<close>

text \<open>A permit is only there while disconnected, and the counter has not passed the limit.\<close>

definition cnt_within :: "u16 option \<Rightarrow> block_pc \<Rightarrow> u16 \<Rightarrow> bool" where
  "cnt_within lim pc cnt \<longleftrightarrow>
     (case lim of None \<Rightarrow> True
      | Some m \<Rightarrow> (case pc of
          AwaitConnect t \<Rightarrow> 0 < m \<and> cnt \<le> m
        | BlockExit \<Rightarrow> cnt \<le> m
        | _ \<Rightarrow> cnt < m))"

fun block_inv :: "'c block_state \<Rightarrow> bool" where
  "block_inv (pc, cnt, c) \<longleftrightarrow>
     client_inv c \<and> (notify_permit c \<longrightarrow> connect_status c = Disconnected) \<and>
     (case pc of AwaitConnect t \<Rightarrow> tok_done c t | _ \<Rightarrow> True) \<and>
     cnt_within (max_connect_retry_times (options c)) pc cnt"

lemma client_inv_updates [simp]:
  "client_inv (c\<lparr>notify_permit := b\<rparr>) = client_inv c"
  by (simp add: client_inv_def is_connected_def)

lemma block_head_inv:
  assumes "client_inv c" and "notify_permit c \<longrightarrow> connect_status c = Disconnected"
    and "\<And>m. max_connect_retry_times (options c) = Some m \<Longrightarrow> cnt \<le> m"
  shows "block_inv (block_head cnt c)"
  using assms by (auto simp: block_head_def cnt_within_def split: option.split)

lemma cnt_withinD: "cnt_within (Some m) pc cnt \<Longrightarrow> cnt \<le> m"
  by (auto simp: cnt_within_def split: block_pc.splits)

lemma block_sleep_inv:
  assumes "block_inv (AtSelect, cnt, c)"
  shows "block_inv (block_sleep cnt c)"
proof -
  have le: "\<And>m. max_connect_retry_times (options c) = Some m \<Longrightarrow> cnt \<le> m"
    using assms by (auto dest: cnt_withinD)
  then have "cnt_within (max_connect_retry_times (options c)) BlockExit cnt"
    by (simp add: cnt_within_def split: option.split)
  with assms le show ?thesis
    by (auto simp: block_sleep_def simp del: block_inv.simps intro!: block_head_inv split: connect_status.split)
      (auto simp: cnt_within_def)
qed

lemma block_notified_inv:
  assumes inv: "block_inv (AtSelect, cnt, c)" and permit: "notify_permit c"
    and run: "block_notified K net first now ch cnt c = Done s"
  shows "block_inv s"
proof -
  let ?c = "c\<lparr>notify_permit := False\<rparr>"
  obtain t c1 where conn: "connect K net first now ch ?c = Done (t, c1)" and s: "s = (AwaitConnect t, cnt + 1, c1)"
    using run by (auto simp: block_notified_def bind_outcome_Done_iff split: if_splits)
  have status: "connect_status ?c = Disconnected" and inv': "client_inv ?c" using inv permit by auto
  note D = connect_disconnected[OF status conn]
  have "cnt_within (max_connect_retry_times (options c)) (AwaitConnect t) (cnt + 1)"
    using inv by (auto simp: cnt_within_def intro: inc_le le_less_trans[OF word_zero_le] split: option.splits)
  with D connect_inv[OF inv' conn] show ?thesis by (auto simp: s)
qed

lemma heap_updates_topic [simp]: "client_inv c \<Longrightarrow> trie_ok m \<Longrightarrow> client_inv (c\<lparr>topic_manager := m\<rparr>)"
  by (simp add: client_inv_def is_connected_def state_inv_topics)

lemma clean_up_inv:
  assumes "client_inv c" and "clean_up (packet_ids c) c = (ids, c1)"
  shows "client_inv (c1\<lparr>packet_ids := ids\<rparr>)"
  using assms
  by (auto simp: clean_up_def client_inv_def is_connected_def intro!: state_inv_clear)

lemma tm_clear_ok: "trie_ok m \<Longrightarrow> trie_ok (tm_clear m)"
  by (simp add: tm_defs trie_ok_clear)

lemma clean_up_frame:
  assumes "clean_up (packet_ids c) c = (ids, c1)"
  shows "options c1 = options c" "connect_status c1 = connect_status c" "notify_permit c1 = notify_permit c"
    "subscriptions c1 = subscriptions c" "topic_manager c1 = topic_manager c" "index ids = []"
  using assms by (auto simp: clean_up_def)

lemma block_connected_inv:
  assumes "block_inv (AwaitConnect t, cnt, c)"
  shows "block_inv (block_connected err t cnt c)"
proof -
  have pos: "\<And>m. max_connect_retry_times (options c) = Some m \<Longrightarrow> 0 < m \<and> cnt \<le> m"
    using assms by (auto simp: cnt_within_def)
  obtain ids c1 where cu: "clean_up (packet_ids c) c = (ids, c1)" by (cases "clean_up (packet_ids c) c")
  note frame = clean_up_frame[OF cu]
  have "client_inv (c1\<lparr>packet_ids := ids, topic_manager := tm_clear (topic_manager c)\<rparr>)"
  proof -
    have "client_inv (c1\<lparr>packet_ids := ids\<rparr>)" using clean_up_inv[OF _ cu] assms by simp
    moreover have "trie_ok (tm_clear (topic_manager c))"
      using assms by (simp add: tm_clear_ok client_inv_def state_inv_def)
    ultimately show ?thesis by (rule heap_updates_topic)
  qed
  moreover have "cnt_within (max_connect_retry_times (options c)) (Resubscribe L) 0" for L
    using pos by (auto simp: cnt_within_def split: option.split)
  ultimately show ?thesis
    using assms pos frame
    by (auto simp: block_connected_def Let_def cu intro!: block_head_inv simp del: block_inv.simps)
      (auto)
qed

lemma tok_poll_frame [simp]:
  "options (snd (tok_poll a w c)) = options c"
  "connect_status (snd (tok_poll a w c)) = connect_status c"
  "notify_permit (snd (tok_poll a w c)) = notify_permit c"
  "outgoing_tx (snd (tok_poll a w c)) = outgoing_tx c"
  "subscriptions (snd (tok_poll a w c)) = subscriptions c"
  "manual_disconnect (snd (tok_poll a w c)) = manual_disconnect c"
  "wire (snd (tok_poll a w c)) = wire c"
  "packet_ids (snd (tok_poll a w c)) = packet_ids c"
  "topic_manager (snd (tok_poll a w c)) = topic_manager c"
  "next_addr (snd (tok_poll a w c)) = next_addr c"
  by (simp_all add: tok_poll_def split: option.split)

lemma tok_poll_inv: "client_inv c \<Longrightarrow> client_inv (snd (tok_poll a w c))"
  by (simp add: client_inv_def state_inv_def is_connected_def heap_ok_def token_typed_def tok_simps)

lemma block_step_inv:
  assumes "block_inv s" and "block_step K ev s = Done (Some s')"
  shows "block_inv s'"
  using assms
proof (induction K ev s rule: block_step.induct)
  case (1 K cnt c)
  then show ?case using block_sleep_inv by auto
next
  case (2 K net first now ch cnt c)
  then show ?case
    using block_notified_inv by (auto simp: bind_outcome_Done_iff simp del: block_inv.simps split: if_splits)
next
  case (3 K w t cnt c)
  have polled: "block_inv (AwaitConnect t, cnt, snd (tok_poll t w c))"
    using "3.prems"(1) by (simp add: tok_poll_inv tok_simps)
  obtain r c1 where poll: "tok_poll t w c = (r, c1)" by (cases "tok_poll t w c")
  with polled "3.prems"(2) block_connected_inv[of t cnt c1] show ?case
    by (cases r) (auto simp del: block_inv.simps)
next
  case (4 K ok cnt c)
  then show ?case by (auto dest: cnt_withinD intro!: block_head_inv)
next
  case (5 K ok topic x subs cnt c)
  then obtain t c1 where run: "subscribe K ok topic (sub_qos x) (sub_handler x) c = Done (t, c1)"
    and s': "s' = (AwaitSubscribe t subs, cnt, c1)"
    by (auto simp: bind_outcome_Done_iff)
  have inv: "client_inv c" using "5.prems"(1) by simp
  have "request_post c ok (t, c1)" by (rule subscribe_op.post[OF inv run])
  then have "client_inv c1" "connect_status c1 = connect_status c" "options c1 = options c"
    by (simp_all add: request_post_def untouched_def)
  moreover have "notify_permit c1 = notify_permit c"
    using run by (auto simp: subscribe_eq Let_def offer_def bind_outcome_Done_iff add_subscriptions_def
        subscribe_start_def split: if_splits option.splits)
  ultimately show ?case
    using "5.prems"(1) by (auto simp: s' cnt_within_def split: option.splits)
next
  case (6 K w t subs cnt c)
  obtain r c1 where poll: "tok_poll t w c = (r, c1)" by (cases "tok_poll t w c")
  have "client_inv c1" "options c1 = options c" "notify_permit c1 = notify_permit c"
    "connect_status c1 = connect_status c"
    using tok_poll_frame(1-3)[of t w c] tok_poll_inv[of c t w] "6.prems"(1) by (simp_all add: poll)
  with poll "6.prems" show ?case
    by (cases r) (auto simp: cnt_within_def split: option.splits)
qed auto

lemma task_block_inv:
  assumes "block_inv (pc, cnt, c)" and "task_step K c c'"
  shows "block_inv (pc, cnt, c')"
proof -
  have inv: "client_inv c" using assms(1) by simp
  from task_step_effect[OF assms(2) inv] assms(1) show ?thesis
    by (cases pc) (auto simp: grows_def)
qed

lemma block_start_inv:
  "client_inv c \<Longrightarrow> \<not> notify_permit c \<Longrightarrow> block_inv (block_start c)"
  unfolding block_start_def by (rule block_head_inv) simp_all

lemma blocking_inv:
  assumes "blocking K c0 s" and "client_inv c0" and "\<not> notify_permit c0"
  shows "block_inv s"
  using assms
proof (induction rule: blocking.induct)
  case block_init
  then show ?case by (rule block_start_inv)
next
  case (block_own s ev s')
  then show ?case using block_step_inv by blast
next
  case (block_task pc cnt c c')
  then show ?case using task_block_inv by blast
qed

subsection \<open>Failing and succeeding attempts\<close>

type_synonym attempt_input = "network \<times> first_frame \<times> instant \<times> nat"

fun attempt_events :: "attempt_input \<Rightarrow> block_event list" where
  "attempt_events (net, first, now, ch) = [SleepElapsed, NotifiedThen net first now ch, PollToken 0]"

fun attempt_fails :: "attempt_input \<Rightarrow> bool" where
  "attempt_fails (net, first, now, ch) \<longleftrightarrow> net \<noteq> NetPanic \<and> connect_error net first \<noteq> None"

lemma block_run_append:
  "block_run K (evs @ evs') s =
     bind_outcome (block_run K evs s) (\<lambda>r. case r of None \<Rightarrow> Done None | Some s' \<Rightarrow> block_run K evs' s')"
proof (induction evs arbitrary: s)
  case (Cons ev evs)
  show ?case
  proof (cases "block_step K ev s")
    case (Done r)
    with Cons show ?thesis by (cases r) simp_all
  qed simp
qed simp

text \<open>What the loop reads of the client between attempts.\<close>

definition retrying :: "'c libs \<Rightarrow> u16 \<Rightarrow> 'c mqtt_client \<Rightarrow> bool" where
  "retrying K m c \<longleftrightarrow>
     connect_status c = Disconnected \<and> \<not> manual_disconnect c \<and> auto_reconnect (options c) \<and>
     max_connect_retry_times (options c) = Some m \<and> build_connect_packet K (options c) \<noteq> Panic"

lemma tok_poll_done:
  "tok_done c t \<Longrightarrow> tok_poll t w c = (Ready (tok_err c t), c)"
  by (auto simp: tok_poll_def tok_view_defs split: option.splits)

lemma failing_attempt:
  assumes "retrying K m c" and "attempt_fails a" and "cnt < m"
  shows "\<exists>c'. block_run K (attempt_events a) (AtSelect, cnt, c) = Done (Some (block_head (cnt + 1) c')) \<and>
    retrying K m c'"
proof -
  obtain net first now ch where a: "a = (net, first, now, ch)" by (cases a)
  obtain calls where calls: "build_connect_packet K (options c) = Done calls"
    using assms(1) by (cases "build_connect_packet K (options c)") (auto simp: retrying_def)
  have no_wrap: "cnt \<noteq> 65535"
    using assms(3) by (metis PKID_MAX_def unat_PKID_MAX unat_u16_bound word_less_nat_alt not_le)
  let ?c1 = "c\<lparr>notify_permit := True\<rparr>" let ?c2 = "?c1\<lparr>notify_permit := False\<rparr>"
  have status: "connect_status ?c2 = Disconnected" using assms(1) by (simp add: retrying_def)
  have slept: "block_sleep cnt c = (AtSelect, cnt, ?c1)"
    using assms(1,3) by (auto simp: block_sleep_def block_head_def retrying_def)
  obtain c3 where conn: "connect K net first now ch ?c2 = Done (next_addr c, c3)"
    using connect_retry[OF status, of K calls net first now ch] calls assms(2) a by auto
  note D = connect_disconnected[OF status conn]
  let ?t = "next_addr c"
  have note_step: "block_notified K net first now ch cnt ?c1 = Done (AwaitConnect ?t, cnt + 1, c3)"
    using no_wrap conn by (simp add: block_notified_def)
  have poll: "tok_poll ?t 0 c3 = (Ready (connect_error net first), c3)"
    using D tok_poll_done[of c3 ?t 0] by simp
  have "connect_error net first \<noteq> None" using assms(2) a by simp
  then have run: "block_run K (attempt_events a) (AtSelect, cnt, c) = Done (Some (block_head (cnt + 1) c3))"
    by (simp add: a slept note_step poll block_connected_def)
  have "retrying K m c3"
    using D assms(1,2) a by (simp add: retrying_def)
  with run show ?thesis by blast
qed

lemma failing_attempts:
  "retrying K m c \<Longrightarrow> \<forall>a \<in> set as. attempt_fails a \<Longrightarrow> unat cnt + length as = unat m \<Longrightarrow>
   \<exists>c'. block_run K (concat (map attempt_events as)) (block_head cnt c) = Done (Some (BlockExit, m, c')) \<and>
     connect_status c' = Disconnected"
proof (induction as arbitrary: cnt c)
  case Nil
  then have "cnt = m" by (simp add: word_unat_eq_iff)
  with Nil show ?case by (auto simp: block_head_def retrying_def)
next
  case (Cons a as)
  then have lt: "cnt < m" by (simp add: word_less_nat_alt)
  have head: "block_head cnt c = (AtSelect, cnt, c)"
    using Cons.prems(1) lt by (auto simp: block_head_def retrying_def)
  from failing_attempt[OF Cons.prems(1) _ lt, of a] Cons.prems(2) obtain c1 where
    step: "block_run K (attempt_events a) (AtSelect, cnt, c) = Done (Some (block_head (cnt + 1) c1))"
    and again: "retrying K m c1" by auto
  have "unat (cnt + 1) = Suc (unat cnt)"
    using lt by (metis unat_succ less_le_not_le not_less unat_u16_bound word_less_nat_alt)
  with Cons.prems(3) have "unat (cnt + 1) + length as = unat m" by simp
  from Cons.IH[OF again _ this] Cons.prems(2) show ?case
    by (simp only: list.map concat.simps block_run_append head step) simp
qed

lemma awaiting_data: "data_at (awaiting_connack out c) (next_addr c) = Some connect_default"
  by (simp add: awaiting_connack_def set_connect_status_def)

lemma reconnected:
  assumes "connect_status c = Disconnected" and "build_connect_packet K (options c) = Done calls"
    and "cnt \<noteq> 65535"
  shows "\<exists>t c1 c2. block_notified K (NetOpen sent) (FirstPacket (ConnackPacket ConnectionAccepted False)) now ch cnt c =
      Done (AwaitConnect t, cnt + 1, c1) \<and>
    block_step K (PollToken w) (AwaitConnect t, cnt + 1, c1) =
      Done (Some (Resubscribe (subscriptions c), 0, c2)) \<and>
    is_connected c2 \<and> subscriptions c2 = subscriptions c \<and> index (packet_ids c2) = [] \<and>
    (\<forall>f. tm_subs_at (topic_manager c2) f = [])"
proof -
  let ?c = "c\<lparr>notify_permit := False\<rparr>" let ?f = "FirstPacket (ConnackPacket ConnectionAccepted False)"
  let ?t = "next_addr c" let ?out = "connect_written sent calls"
  let ?c1 = "connect_reply ?f now ch ?t (awaiting_connack ?out ?c)"
  have status: "connect_status ?c = Disconnected" and build: "build_connect_packet K (options ?c) = Done calls"
    using assms(1,2) by simp_all
  have run: "block_notified K (NetOpen sent) ?f now ch cnt c = Done (AwaitConnect ?t, cnt + 1, ?c1)"
    using connect_reached[OF status build, of sent ?f now ch] assms(3) by (simp add: block_notified_def)
  note D = connect_disconnected[OF status connect_reached[OF status build, of sent ?f now ch]]
  have session: "\<not> connect_session_present ?c1 ?t"
    using connect_reply_session[OF awaiting_view(2)[of ?out ?c] awaiting_data[of ?out ?c], of ?f now ch]
    by simp
  have subs: "subscriptions ?c1 = subscriptions c"
    by (simp add: connect_step_defs awaiting_connack_def)
  have poll: "tok_poll ?t w ?c1 = (Ready None, ?c1)"
    using D tok_poll_done[of ?c1 ?t w] by simp
  obtain ids c3 where cu: "clean_up (packet_ids ?c1) ?c1 = (ids, c3)" by (cases "clean_up (packet_ids ?c1) ?c1")
  note frame = clean_up_frame[OF cu]
  have "block_step K (PollToken w) (AwaitConnect ?t, cnt + 1, ?c1) = Done (Some (Resubscribe (subscriptions c), 0,
      c3\<lparr>packet_ids := ids, topic_manager := tm_clear (topic_manager c3)\<rparr>))"
    using session frame subs by (simp add: poll block_connected_def cu Let_def)
  moreover have "is_connected c3" using D frame(2) by (simp add: is_connected_def)
  ultimately show ?thesis
    using run frame subs by (fastforce simp: is_connected_def)
qed

subsection \<open>Properties\<close>

text \<open>
  Whatever the tasks do in between, \<open>block\<close> keeps the client's invariant, never connects while
  connected, so that the token it waits for after a connect is always ready, and its counter never passes
  the limit on retries, where there is one.
\<close>

lemma block_loop_invariant:
  assumes "blocking K c0 (pc, cnt, c)" and "client_inv c0" and "\<not> notify_permit c0"
  shows "client_inv c \<and> (\<forall>t. pc = AwaitConnect t \<longrightarrow> fst (tok_poll t w c) \<noteq> Pending) \<and>
    (\<forall>m. max_connect_retry_times (options c) = Some m \<longrightarrow> cnt \<le> m)"
  using blocking_inv[OF assms] by (auto simp: tok_simps dest: cnt_withinD)

text \<open>
  C23. \<open>block\<close> gives up: with automatic reconnection and a limit \<open>m\<close>, if every attempt fails it
  makes \<open>m\<close> attempts, each after one sleep, and returns with the client disconnected. The counter does not
  overflow on the way, in any build.
\<close>

theorem block_gives_up:
  assumes "connect_status c = Disconnected" and "\<not> manual_disconnect c" and "auto_reconnect (options c)"
    and "max_connect_retry_times (options c) = Some m" and "build_connect_packet K (options c) \<noteq> Panic"
    and "\<forall>a \<in> set as. attempt_fails a" and "length as = unat m"
  shows "\<exists>c'. block_run K (concat (map attempt_events as)) (block_start c) =
      Done (Some (BlockExit, m, c')) \<and> connect_status c' = Disconnected"
  unfolding block_start_def
  by (rule failing_attempts) (use assms in \<open>simp_all add: retrying_def\<close>)

text \<open>
  After a manual disconnect \<open>block\<close> does not reconnect: whatever the tasks do, it only sleeps or
  returns, and writes no CONNECT packet.
\<close>

lemma manual_disconnect_stays_disconnected:
  assumes "blocking K c0 (pc, cnt, c)" and "client_inv c0" and "\<not> notify_permit c0"
    and "manual_disconnect c0"
  shows "pc \<in> {AtSelect, BlockExit} \<and> wire c = wire c0"
proof -
  have "case s of (pc, cnt, c) \<Rightarrow> pc \<in> {AtSelect, BlockExit} \<and> wire c = wire c0 \<and>
      manual_disconnect c \<and> \<not> notify_permit c \<and> client_inv c"
    if "blocking K c0 s" for s
    using that
  proof (induction rule: blocking.induct)
    case block_init
    then show ?case using assms(2-4) by (auto simp: block_start_def block_head_def split: option.split)
  next
    case (block_own s ev s')
    obtain pc cnt c where s: "s = (pc, cnt, c)" by (cases s)
    with block_own.IH block_own.hyps(2) show ?case
      by (cases ev; cases pc)
        (auto simp: block_sleep_def block_head_def split: connect_status.splits option.splits)
  next
    case (block_task pc cnt c c')
    then show ?case using task_step_effect[OF block_task.hyps(2)] by auto
  qed
  from this[OF assms(1)] show ?thesis by simp
qed

text \<open>
  Unsubscribing is undone by a reconnection: UNSUBACK takes the topic out of the topic manager but leaves
  it filed, and after the next connection that starts a new session \<open>block\<close> subscribes it again.
\<close>

lemma unsubscribed_topic_comes_back:
  assumes "get_token i (packet_ids c) = Some (Unsubscribe a)" and "data_at c a = Some (UnsubscribeData ts)"
    and "f \<in> set ts" and "map_of (subscriptions c) f = Some x"
    and "build_connect_packet K (options c) = Done calls" and "cnt \<noteq> 65535"
  shows "let c1 = handle_unsuback i c; c2 = connection_over c1 in
    tm_subs_at (topic_manager c1) f = [] \<and>
    (\<exists>t c3 c4 subs. block_notified K (NetOpen sent) (FirstPacket (ConnackPacket ConnectionAccepted False)) now ch cnt c2 =
       Done (AwaitConnect t, cnt + 1, c3) \<and>
     block_step K (PollToken w) (AwaitConnect t, cnt + 1, c3) = Done (Some (Resubscribe subs, 0, c4)) \<and>
     (f, x) \<in> set subs)"
proof -
  let ?c1 = "handle_unsuback i c"
  have "tm_subs_at (topic_manager ?c1) f = []" "subscriptions ?c1 = subscriptions c"
    using assms(1-3) by (simp_all add: handle_unsuback_def unsubscribe_topics_def fold_tm_remove)
  moreover have "options ?c1 = options c"
    using handlers_fields(4)[of i c] by (simp add: client_fields_def)
  moreover have "(f, x) \<in> set (subscriptions c)" using assms(4) by (rule map_of_SomeD)
  ultimately show ?thesis
    using reconnected[of "connection_over ?c1" K calls cnt sent now ch w] assms(5,6)
    by (auto simp: Let_def connection_over_view)
qed

subsection \<open>Re-subscribing\<close>

text \<open>The server's answer to the SUBSCRIBE just sent, and the loop with each of its requests answered in turn.\<close>

definition answer_subscribe :: "subscribe_return_code \<Rightarrow> 'c mqtt_client \<Rightarrow> 'c mqtt_client" where
  "answer_subscribe code c =
     (case pt_packet (last (outgoing c)) of SubscribePacket i _ \<Rightarrow> handle_suback i [code] c | _ \<Rightarrow> c)"

fun resubscribe_answered ::
  "'c libs \<Rightarrow> waker \<Rightarrow> subscribe_return_code list \<Rightarrow> 'c block_state \<Rightarrow> 'c block_state option outcome" where
  "resubscribe_answered K w [] s = Done (Some s)"
| "resubscribe_answered K w (code # codes) s =
     bind_outcome (block_step K (SubscribeNext True) s)
       (\<lambda>r. case r of
          Some (pc, cnt, c) \<Rightarrow>
            bind_outcome (block_step K (PollToken w) (pc, cnt, answer_subscribe code c))
              (\<lambda>r. case r of Some s' \<Rightarrow> resubscribe_answered K w codes s' | None \<Rightarrow> Done None)
        | None \<Rightarrow> Done None)"

lemma ids_left_empty: "index (packet_ids c) = [] \<Longrightarrow> ids_left c"
  by (auto simp: ids_left_iff vacant_def intro!: bexI[of _ 1])

lemma answered_inv: "client_inv c \<Longrightarrow> client_inv (handle_suback i codes c)"
  by (rule same_client_inv[of c]) (simp_all add: same_client_def handle_suback_inv client_invD)

lemma handle_suback_outgoing: "outgoing (handle_suback i codes s) = outgoing s"
  by (simp add: handle_suback_def split: option.split token.split)

text \<open>One round: the request, its answer, and the poll that sees it.\<close>

definition resubscribed :: "string \<Rightarrow> subscription \<Rightarrow> subscribe_return_code \<Rightarrow> 'c mqtt_client \<Rightarrow> 'c mqtt_client" where
  "resubscribed tf x code c =
     handle_suback (next_id c) [code] (add_subscriptions [x] (next_addr c) (subscribe_sent tf (sub_qos x) c))"

lemma resubscribe_round:
  assumes "client_inv c" and "is_connected c" and "\<not> overflow_checks K" and "index (packet_ids c) = []"
    and "topic_filter_new K (sub_topic x) = Some tf"
  shows "block_step K (SubscribeNext True) (Resubscribe ((sub_topic x, x) # subs), cnt, c) =
      Done (Some (AwaitSubscribe (next_addr c) subs, cnt, add_subscriptions [x] (next_addr c) (subscribe_sent tf (sub_qos x) c)))"
    and "block_step K (PollToken w) (AwaitSubscribe (next_addr c) subs, cnt,
      answer_subscribe code (add_subscriptions [x] (next_addr c) (subscribe_sent tf (sub_qos x) c))) =
      Done (Some (Resubscribe subs, cnt, resubscribed tf x code c))"
    and "client_inv (resubscribed tf x code c)" and "is_connected (resubscribed tf x code c)"
    and "index (packet_ids (resubscribed tf x code c)) = []"
    and "\<exists>pt. outgoing (resubscribed tf x code c) = outgoing c @ [pt] \<and>
      pt_packet pt = SubscribePacket (next_id c) [(tf, sub_qos x)]"
    and "topic_manager (resubscribed tf x code c) =
      (if code \<noteq> Failure then tm_add x (topic_manager c) else topic_manager c)"
proof -
  let ?c1 = "add_subscriptions [x] (next_addr c) (subscribe_sent tf (sub_qos x) c)"
  let ?c2 = "handle_suback (next_id c) [code] ?c1"
  have sub: "subscription_new (sub_topic x) (sub_qos x) (sub_handler x) = x"
    by (simp add: subscription_new_def)
  have run: "subscribe K True (sub_topic x) (sub_qos x) (sub_handler x) c = Done (next_addr c, ?c1)"
    by (simp add: subscribe_def subscribe_send_release[OF assms(1-3,5) ids_left_empty[OF assms(4)]] sub)
  then show "block_step K (SubscribeNext True) (Resubscribe ((sub_topic x, x) # subs), cnt, c) =
      Done (Some (AwaitSubscribe (next_addr c) subs, cnt, ?c1))"
    by simp
  have out: "outgoing ?c1 = outgoing c @
      [packet_and_token_new_with (SubscribePacket (next_id c) [(tf, sub_qos x)]) (Subscribe (next_addr c))]"
    by (simp add: add_subscriptions_def subscribe_sent_def)
  then have answer: "answer_subscribe code ?c1 = ?c2"
    by (simp add: answer_subscribe_def packet_and_token_new_with_def)
  have view: "get_token (next_id c) (packet_ids ?c1) = Some (Subscribe (next_addr c))"
    "data_at ?c1 (next_addr c) = Some (SubscribeData [x] [])" "tok_live ?c1 (next_addr c)"
    by (simp_all add: add_subscriptions_def subscribe_sent_view tok_simps)
  note known = handle_suback_known[OF view, of "[code]"]
  show "block_step K (PollToken w) (AwaitSubscribe (next_addr c) subs, cnt, answer_subscribe code ?c1) =
      Done (Some (Resubscribe subs, cnt, resubscribed tf x code c))"
    by (simp add: answer tok_poll_done[OF known(4)] resubscribed_def)
  have inv1: "client_inv ?c1" "connect_status ?c1 = connect_status c"
    using subscribe_op.post[OF assms(1) run] by (simp_all add: request_post_def untouched_def)
  show "client_inv (resubscribed tf x code c)" "is_connected (resubscribed tf x code c)"
    using answered_inv[OF inv1(1)] inv1(2) assms(2) handlers_fields(3)[of "next_id c" "[code]" ?c1]
    by (simp_all add: resubscribed_def is_connected_def client_fields_def)
  show "index (packet_ids (resubscribed tf x code c)) = []"
    using view(1) assms(4)
    by (simp add: resubscribed_def handle_suback_def free_id_def add_subscriptions_def subscribe_sent_def bind_id_def)
  show "\<exists>pt. outgoing (resubscribed tf x code c) = outgoing c @ [pt] \<and>
      pt_packet pt = SubscribePacket (next_id c) [(tf, sub_qos x)]"
    by (simp add: resubscribed_def handle_suback_outgoing out packet_and_token_new_with_def)
  show "topic_manager (resubscribed tf x code c) =
      (if code \<noteq> Failure then tm_add x (topic_manager c) else topic_manager c)"
    using known(1) by (simp add: resubscribed_def add_subscriptions_def subscribe_sent_view)
qed

definition asks_for :: "'c libs \<Rightarrow> string \<times> subscription \<Rightarrow> packet_and_token \<Rightarrow> bool" where
  "asks_for K f pt \<longleftrightarrow>
     (\<exists>i tf. topic_filter_new K (fst f) = Some tf \<and> pt_packet pt = SubscribePacket i [(tf, sub_qos (snd f))])"

text \<open>
  After a reconnection that lost the session the loop asks for every filed subscription again: with each request
  answered in turn it sends one SUBSCRIBE per filed subscription, in their order, with its filter and
  level, and the topic manager gains exactly the accepted ones, with their callbacks.
\<close>

lemma resubscribes_in_order:
  assumes "client_inv c" and "is_connected c" and "\<not> overflow_checks K" and "index (packet_ids c) = []"
    and "length codes = length subs"
    and "\<forall>(topic, x) \<in> set subs. sub_topic x = topic \<and> topic_filter_new K topic \<noteq> None"
  shows "\<exists>c'. resubscribe_answered K w codes (Resubscribe subs, cnt, c) = Done (Some (Resubscribe [], cnt, c')) \<and>
    (\<exists>pts. outgoing c' = outgoing c @ pts \<and> list_all2 (asks_for K) subs pts) \<and>
    (\<forall>f. tm_subs_at (topic_manager c') f =
       tm_subs_at (topic_manager c) f @ filter (\<lambda>x. sub_topic x = f) (accepted (map snd subs) codes))"
  using assms(5,1-4,6)
proof (induction codes subs arbitrary: c rule: list_induct2)
  case (Cons code codes y subs)
  obtain topic x where y: "y = (topic, x)" by (cases y)
  with Cons.prems(5) obtain tf where x: "sub_topic x = topic" and tf: "topic_filter_new K (sub_topic x) = Some tf"
    by auto
  let ?c = "resubscribed tf x code c"
  note round = resubscribe_round[OF Cons.prems(1-4) tf]
  obtain c' where run: "resubscribe_answered K w codes (Resubscribe subs, cnt, ?c) = Done (Some (Resubscribe [], cnt, c'))"
    and pts: "\<exists>pts. outgoing c' = outgoing ?c @ pts \<and> list_all2 (asks_for K) subs pts"
    and tops: "\<And>f. tm_subs_at (topic_manager c') f =
      tm_subs_at (topic_manager ?c) f @ filter (\<lambda>x. sub_topic x = f) (accepted (map snd subs) codes)"
    using Cons.IH[OF round(3,4)[of code] Cons.prems(3) round(5)[of code]] Cons.prems(5) by auto
  have "resubscribe_answered K w (code # codes) (Resubscribe (y # subs), cnt, c) =
      Done (Some (Resubscribe [], cnt, c'))"
    unfolding resubscribe_answered.simps y x[symmetric] round(1) bind_outcome.simps option.case prod.case
      round(2) by (rule run)
  moreover obtain pt pts' where "outgoing c' = outgoing c @ pt # pts'" "asks_for K y pt"
    "list_all2 (asks_for K) subs pts'"
    using pts round(6)[of code] tf x y by (auto simp: asks_for_def)
  ultimately show ?case
    using tops y round(7)[of code] by (auto simp del: resubscribe_answered.simps intro!: exI[of _ "pt # pts'"])
qed simp

subsection \<open>Witnesses\<close>

definition sample_retry :: "(u16 \<Rightarrow> publish_packet option) mqtt_client" where
  "sample_retry = sample_idle
     \<lparr>options := options_default\<lparr>auto_reconnect := True, max_connect_retry_times := Some 2\<rparr>\<rparr>"

lemma sample_retry_view:
  "connect_status sample_retry = Disconnected" "\<not> manual_disconnect sample_retry"
  "auto_reconnect (options sample_retry)" "max_connect_retry_times (options sample_retry) = Some 2"
  "build_connect_packet sample_libs (options sample_retry) =
     Done [NewConnect [], SetCleanSession False, SetKeepAlive 0]"
  "client_inv sample_retry" "\<not> notify_permit sample_retry"
proof -
  show "client_inv sample_retry"
    using sample_idle_view(1)
    by (simp add: sample_retry_def client_inv_def is_connected_def state_inv_def heap_ok_def token_typed_def tok_view_defs)
  show "build_connect_packet sample_libs (options sample_retry) =
     Done [NewConnect [], SetCleanSession False, SetKeepAlive 0]"
    by (simp add: sample_retry_def options_default_def build_connect_packet_def as_secs_def)
qed (simp_all add: sample_retry_def sample_idle_view sample_idle_def set_connect_status_def
    sample_client_def mqtt_client_new_def state.extend_def)

lemma block_gives_up_witness:
  "\<exists>c'. block_run sample_libs
     (concat (map attempt_events [(NetError ConnectTimeout, FirstNone, 5, 1), (NetOpen True, FirstNone, 9, 2)]))
     (block_start sample_retry) = Done (Some (BlockExit, 2, c'))"
  using block_gives_up[OF sample_retry_view(1-4),
      of sample_libs "[(NetError ConnectTimeout, FirstNone, 5, 1), (NetOpen True, FirstNone, 9, 2)]"]
    sample_retry_view(5)
  by auto

definition sample_unsubscribed :: "(u16 \<Rightarrow> publish_packet option) mqtt_client" where
  "sample_unsubscribed = sample_retry
     \<lparr>cells := [0 \<mapsto> inner_default (UnsubscribeData [''b''])], next_addr := 1,
      packet_ids := \<lparr>index = [(3, Unsubscribe 0)], last_issued_id = 3\<rparr>,
      subscriptions := [(''b'', subscription_new ''b'' Level1 5)]\<rparr>"

end
