(* ===== verification/Connection.thy ===== *)
theory Connection
  imports Block_Loop
begin

section \<open>The tasks of one connection\<close>

text \<open>
  What an accepted \<open>connect\<close> spawns (\<^verbatim>\<open>src/src/client.rs\<close>): the read and the write task
  (\<^verbatim>\<open>src/src/net.rs\<close>) joined by a channel of responses, the keep-alive task, and the task that waits
  for the first two and then ends the connection. The record \<open>link\<close> holds where each of them is
  waiting and what is in the two channels. A step is the code one task runs between two waits; a
  step that would have to wait, for room in a channel, for an element of it, or for a task, is
  \<open>None\<close>.

  A request counts as one step, so its wait for room stands before it. The write task holds a
  sender of the outgoing channel through its \<open>Arc\<close> of the state, so \<open>outgoing_rx\<close> never yields \<open>None\<close>
  to it. It does not panic, so \<open>try_join!\<close> fails only for a panic of the read task, which is over then:
  \<open>abort\<close> has no effect.
\<close>

datatype reader_status = Reading | Sending variable_packet | ReadEnded | ReadPanicked

datatype writer_status = Selecting | WritingMsg variable_packet | WritingOut packet_and_token | WriteEnded

text \<open>
  \<open>taken\<close> counts the packets of \<open>outgoing\<close> the write task has received. \<open>finishing\<close> is there until
  \<open>connect\<close>, which goes on concurrently, has set the status and completed its token.
  \<open>answered\<close> and \<open>written\<close> are traces: the responses of the read task's handlers, and what reached
  the socket.
\<close>

record 'c link =
  link_client :: "'c mqtt_client"
  reader :: reader_status
  writer :: writer_status
  messages :: "variable_packet list"
  taken :: nat
  pinging :: bool
  exit_flag :: bool
  supervising :: bool
  finishing :: "(bool \<times> addr) option"
  answered :: "variable_packet list"
  written :: "(variable_packet + packet_and_token) list"

definition link_open :: "bool \<Rightarrow> addr \<Rightarrow> 'c mqtt_client \<Rightarrow> 'c link" where
  "link_open session_present token c =
     \<lparr>link_client = c, reader = Reading, writer = Selecting, messages = [], taken = 0,
      pinging = True, exit_flag = False, supervising = True, finishing = Some (session_present, token),
      answered = [], written = []\<rparr>"

text \<open>Both channels are \<open>mpsc::channel(8)\<close>.\<close>

definition capacity :: nat where
  "capacity = 8"

definition queued :: "'c link \<Rightarrow> packet_and_token list" where
  "queued l = drop (taken l) (outgoing (link_client l))"

definition reader_over :: "'c link \<Rightarrow> bool" where
  "reader_over l \<longleftrightarrow> reader l = ReadEnded \<or> reader l = ReadPanicked"

subsection \<open>Steps\<close>

text \<open>The read task: the handling of a frame up to the send of the response, and the send.\<close>

definition read_frame :: "'c libs \<Rightarrow> frame \<Rightarrow> 'c link \<Rightarrow> 'c link" where
  "read_frame K f l =
     (case f of
        Frame packet \<Rightarrow>
          (case dispatch_packet K packet (link_client l) of
             Panic \<Rightarrow> l\<lparr>reader := ReadPanicked\<rparr>
           | Done (d, c) \<Rightarrow>
               (case d of
                  Continue \<Rightarrow> l\<lparr>link_client := c\<rparr>
                | Break \<Rightarrow> l\<lparr>link_client := c, reader := ReadEnded\<rparr>
                | Respond p \<Rightarrow> l\<lparr>link_client := c, reader := Sending p, answered := answered l @ [p]\<rparr>))
      | FrameError \<Rightarrow> l\<lparr>reader := ReadEnded\<rparr>
      | FrameEnd \<Rightarrow> l\<lparr>reader := ReadEnded\<rparr>)"

definition send_response :: "'c link \<Rightarrow> 'c link option" where
  "send_response l =
     (case reader l of
        Sending p \<Rightarrow>
          if writer l = WriteEnded then Some (l\<lparr>reader := ReadEnded\<rparr>)
          else if length (messages l) < capacity
          then Some (l\<lparr>reader := Reading, messages := messages l @ [p]\<rparr>)
          else None
      | _ \<Rightarrow> None)"

text \<open>The write task: the two branches of \<open>select!\<close>, and the return of \<open>writer.send\<close>.\<close>

definition take_message :: "'c link \<Rightarrow> 'c link option" where
  "take_message l =
     (if writer l \<noteq> Selecting then None
      else case messages l of
             p # ps \<Rightarrow> Some (l\<lparr>writer := WritingMsg p, messages := ps\<rparr>)
           | [] \<Rightarrow> if reader_over l then Some (l\<lparr>writer := WriteEnded\<rparr>) else None)"

definition take_outgoing :: "'c link \<Rightarrow> 'c link option" where
  "take_outgoing l =
     (if writer l \<noteq> Selecting then None
      else case queued l of
             pt # _ \<Rightarrow> Some (l\<lparr>writer := WritingOut pt, taken := Suc (taken l)\<rparr>)
           | [] \<Rightarrow> None)"

definition write_returns :: "io_result \<Rightarrow> 'c link \<Rightarrow> 'c link option" where
  "write_returns r l =
     (case writer l of
        WritingMsg p \<Rightarrow>
          (let (going, out, c) = write_step (MsgRecv (Some p) r) (link_client l)
           in Some (l\<lparr>link_client := c, writer := if going then Selecting else WriteEnded,
                      written := written l @ map Inl out\<rparr>))
      | WritingOut pt \<Rightarrow>
          (let (going, out, c) = write_step (OutRecv (Some pt) r) (link_client l)
           in Some (l\<lparr>link_client := c, writer := if going then Selecting else WriteEnded,
                      written := written l @ (if going then [Inr pt] else [])\<rparr>))
      | _ \<Rightarrow> None)"

text \<open>The keep-alive task, the rest of \<open>connect\<close>, a request, and the supervising task.\<close>

definition ping_tick :: "instant \<Rightarrow> instant \<Rightarrow> 'c link \<Rightarrow> 'c link option" where
  "ping_tick now now2 l =
     (if \<not> pinging l then None
      else case keep_alive_step (get_keep_alive (options (link_client l))) (exit_flag l) now now2
                  (writer l \<noteq> WriteEnded) (link_client l) of
             Panic \<Rightarrow> Some (l\<lparr>pinging := False\<rparr>)
           | Done (act, c) \<Rightarrow>
               let l' = l\<lparr>link_client := c, pinging := act \<noteq> Exit\<rparr>
               in if length (queued l') \<le> capacity then Some l' else None)"

definition finish_link :: "'c link \<Rightarrow> 'c link option" where
  "finish_link l =
     (case finishing l of
        Some (session_present, token) \<Rightarrow>
          Some (l\<lparr>link_client := finish_connect session_present token (link_client l), finishing := None\<rparr>)
      | None \<Rightarrow> None)"

definition link_request :: "'c libs \<Rightarrow> request \<Rightarrow> 'c link \<Rightarrow> 'c link option outcome" where
  "link_request K req l =
     (if finishing l \<noteq> None then Done None
      else bind_outcome (do_request K req (writer l \<noteq> WriteEnded) (link_client l))
        (\<lambda>(token, c).
           let l' = l\<lparr>link_client := c\<rparr>
           in Done (if length (queued l') \<le> capacity then Some l' else None)))"

definition supervise :: "'c link \<Rightarrow> 'c link option" where
  "supervise l =
     (if supervising l \<and> (reader l = ReadPanicked \<or> reader l = ReadEnded \<and> writer l = WriteEnded)
      then Some (l\<lparr>link_client := connection_over (link_client l), exit_flag := True, supervising := False\<rparr>)
      else None)"

datatype link_event =
    ReadFrame frame
  | SendResponse
  | TakeMessage
  | TakeOutgoing
  | WriteReturns io_result
  | PingTick instant instant
  | Finish
  | Request request
  | Supervise

fun link_step :: "'c libs \<Rightarrow> link_event \<Rightarrow> 'c link \<Rightarrow> 'c link option outcome" where
  "link_step K (ReadFrame f) l = Done (if reader l = Reading then Some (read_frame K f l) else None)"
| "link_step K SendResponse l = Done (send_response l)"
| "link_step K TakeMessage l = Done (take_message l)"
| "link_step K TakeOutgoing l = Done (take_outgoing l)"
| "link_step K (WriteReturns r) l = Done (write_returns r l)"
| "link_step K (PingTick now now2) l = Done (ping_tick now now2 l)"
| "link_step K Finish l = Done (finish_link l)"
| "link_step K (Request req) l = link_request K req l"
| "link_step K Supervise l = Done (supervise l)"

inductive link_run :: "'c libs \<Rightarrow> 'c link \<Rightarrow> link_event list \<Rightarrow> 'c link \<Rightarrow> bool" for K where
  link_refl: "link_run K l [] l"
| link_next: "link_run K l evs l1 \<Longrightarrow> link_step K ev l1 = Done (Some l2) \<Longrightarrow> link_run K l (evs @ [ev]) l2"


inductive_simps link_run_Nil [simp]: "link_run K l [] l'"
inductive_simps link_run_snoc: "link_run K l (evs @ [ev]) l'"

lemma link_run_append: "link_run K l1 evs' l2 \<Longrightarrow> link_run K l evs l1 \<Longrightarrow> link_run K l (evs @ evs') l2"
  by (induction rule: link_run.induct) (auto simp flip: append_assoc intro: link_next)

subsection \<open>What the steps do to the client\<close>

lemma dispatch_outgoing:
  "dispatch_packet K p s = Done (d, s') \<Longrightarrow> outgoing s' = outgoing s"
  by (cases p)
    (auto simp: handle_puback_def handle_pubcomp_def handle_suback_def handle_unsuback_def handle_pubrel_def
      handle_publish_def split_beta Let_def bind_outcome_Done_iff
      split: option.splits token.splits quality_of_service.splits)

lemma write_step_msg:
  "write_step (MsgRecv (Some p) r) s = (going, out, s') \<Longrightarrow>
     out = (if going then [p] else []) \<and> outgoing s' = outgoing s"
  by (cases r) auto

lemma write_step_out:
  "write_step (OutRecv (Some pt) r) s = (going, out, s') \<Longrightarrow>
     out = (if going then [pt_packet pt] else []) \<and> outgoing s' = outgoing s"
  by (cases r; cases "pt_token pt") (auto simp: complete_written_def split: token.splits if_splits)

lemma connection_over_channel [simp]: "outgoing_tx (connection_over c) = outgoing_tx c"
proof -
  have "outgoing_tx (fold (token_set_error e) ts d) = outgoing_tx d" for e ts and d :: "'a mqtt_client"
    by (induction ts arbitrary: d) simp_all
  then show ?thesis by (simp add: connection_over_def clean_up_def set_connect_status_def Let_def)
qed

lemma finish_connect_view [simp]:
  "outgoing (finish_connect sp t c) = outgoing c"
  "outgoing_tx (finish_connect sp t c) = outgoing_tx c"
  "packet_ids (finish_connect sp t c) = packet_ids c"
  "connect_status (finish_connect sp t c) = Connected"
  by (simp_all add: finish_connect_def Let_def connect_set_session_present_def)

lemma finish_connect_inv: "client_inv c \<Longrightarrow> outgoing_tx c \<noteq> None \<Longrightarrow> client_inv (finish_connect sp t c)"
  by (auto simp: client_inv_def finish_connect_def Let_def)

lemma grows_finish_connect: "grows c (finish_connect sp t c)"
proof -
  let ?c1 = "c\<lparr>connect_status := Connected, manual_disconnect := False\<rparr>"
  have "grows ?c1 (if sp then connect_set_session_present t ?c1 else ?c1)"
    by (simp add: grows_refl grows_connect_data)
  then show ?thesis
    unfolding finish_connect_def Let_def
    by (blast intro: grows_trans[OF grows_client_update(4)] grows_trans grows_ops(2))
qed

text \<open>What every step keeps of the client, and what it adds to the outgoing channel.\<close>

definition link_keeps :: "'c mqtt_client \<Rightarrow> 'c mqtt_client \<Rightarrow> bool" where
  "link_keeps c c' \<longleftrightarrow>
     client_inv c' \<and> grows c c' \<and> outgoing_tx c' = outgoing_tx c \<and>
     (\<exists>pts. outgoing c' = outgoing c @ pts)"

lemma link_keeps_refl: "client_inv c \<Longrightarrow> link_keeps c c"
  by (simp add: link_keeps_def grows_refl)

lemma link_keeps_trans: "link_keeps c c1 \<Longrightarrow> link_keeps c1 c2 \<Longrightarrow> link_keeps c c2"
  by (auto simp: link_keeps_def intro: grows_trans)

lemma same_client_channel: "same_client c c' \<Longrightarrow> outgoing_tx c' = outgoing_tx c"
  by (simp add: same_client_def client_fields_def)

lemma link_keeps_task:
  "client_inv c \<Longrightarrow> same_client c c' \<Longrightarrow> state_inv c' \<Longrightarrow> grows c c' \<Longrightarrow> outgoing c' = outgoing c @ pts \<Longrightarrow>
     link_keeps c c'"
  using same_client_inv[of c c'] same_client_channel[of c c'] by (simp add: link_keeps_def)

lemma link_keeps_dispatch:
  assumes "client_inv c" and "dispatch_packet K p c = Done (d, c')"
  shows "link_keeps c c'"
  using dispatch_packet_inv[OF client_invD[OF assms(1)] assms(2)] dispatch_same[OF assms(2)]
    grows_dispatch[OF assms(2)] dispatch_outgoing[OF assms(2)]
  by (auto intro: link_keeps_task[OF assms(1), of _ "[]"])

lemma link_keeps_write:
  assumes "client_inv c" and "write_step e c = (going, out, c')" and "outgoing c' = outgoing c"
  shows "link_keeps c c'"
  using write_step_inv[OF assms(2) client_invD[OF assms(1)]] write_step_same[OF assms(2)]
    grows_write_step[OF assms(2)] assms(3)
  by (auto intro: link_keeps_task[OF assms(1), of _ "[]"])

lemma link_keeps_ping:
  assumes "client_inv c" and "keep_alive_step dur fl now now2 sent c = Done (act, c')"
  shows "link_keeps c c'"
proof -
  have "client_inv (send_outgoing sent pt c)" for pt
    by (rule same_client_inv[OF _ assms(1)])
      (use client_invD[OF assms(1)] in \<open>simp_all add: same_client_def\<close>)
  with keep_alive_step_effect[OF assms(2)] assms(1) grows_send[of c] show ?thesis
    by (auto simp: link_keeps_refl) (auto simp: link_keeps_def)
qed

lemma link_keeps_request:
  assumes "client_inv c" and "do_request K req ok c = Done (t, c')"
  shows "link_keeps c c'"
proof -
  from req.post[OF assms] have "client_inv c'" "untouched c c'" "\<exists>pts. outgoing c' = outgoing c @ pts"
    by (auto simp: request_post_def settled_request_def sent_request_def)
  with grows_untouched[OF client_invD[OF assms(1)]] show ?thesis
    by (simp add: link_keeps_def untouched_def)
qed

lemma link_keeps_over: "client_inv c \<Longrightarrow> link_keeps c (connection_over c)"
  by (simp add: link_keeps_def connection_over_inv grows_connection_over connection_over_view)

lemma link_keeps_finish: "client_inv c \<Longrightarrow> outgoing_tx c \<noteq> None \<Longrightarrow> link_keeps c (finish_connect sp t c)"
  by (simp add: link_keeps_def finish_connect_inv grows_finish_connect)

subsection \<open>Where the packets of the two channels are\<close>

fun responses_in :: "(variable_packet + packet_and_token) list \<Rightarrow> variable_packet list" where
  "responses_in [] = []"
| "responses_in (Inl p # xs) = p # responses_in xs"
| "responses_in (Inr pt # xs) = responses_in xs"

fun requests_in :: "(variable_packet + packet_and_token) list \<Rightarrow> packet_and_token list" where
  "requests_in [] = []"
| "requests_in (Inl p # xs) = requests_in xs"
| "requests_in (Inr pt # xs) = pt # requests_in xs"

lemma traces_append [simp]:
  "responses_in (xs @ ys) = responses_in xs @ responses_in ys"
  "requests_in (xs @ ys) = requests_in xs @ requests_in ys"
  by (induction xs rule: responses_in.induct) simp_all

text \<open>
  \<open>unsent\<close> is the response the read task holds or lost when it found the channel closed, \<open>msgs\<close> and \<open>outs\<close> the
  packet the write task holds or lost when its write failed.
\<close>

fun reader_holds :: "reader_status \<Rightarrow> variable_packet list \<Rightarrow> bool" where
  "reader_holds Reading unsent = (unsent = [])"
| "reader_holds (Sending p) unsent = (unsent = [p])"
| "reader_holds _ unsent = (length unsent \<le> 1)"

fun writer_holds :: "writer_status \<Rightarrow> variable_packet list \<Rightarrow> packet_and_token list \<Rightarrow> bool" where
  "writer_holds Selecting msgs outs = (msgs = [] \<and> outs = [])"
| "writer_holds (WritingMsg p) msgs outs = (msgs = [p] \<and> outs = [])"
| "writer_holds (WritingOut pt) msgs outs = (msgs = [] \<and> outs = [pt])"
| "writer_holds WriteEnded msgs outs = (length msgs + length outs \<le> 1)"

definition accounted ::
  "'c link \<Rightarrow> variable_packet list \<Rightarrow> variable_packet list \<Rightarrow> packet_and_token list \<Rightarrow> bool" where
  "accounted l unsent msgs outs \<longleftrightarrow>
     answered l = responses_in (written l) @ msgs @ messages l @ unsent \<and>
     take (taken l) (outgoing (link_client l)) = requests_in (written l) @ outs \<and>
     taken l \<le> length (outgoing (link_client l)) \<and>
     length (messages l) \<le> capacity \<and> length (queued l) \<le> capacity \<and>
     reader_holds (reader l) unsent \<and> writer_holds (writer l) msgs outs"

definition channels_ok :: "'c link \<Rightarrow> bool" where
  "channels_ok l \<longleftrightarrow> (\<exists>unsent msgs outs. accounted l unsent msgs outs)"

lemma channels_okI: "accounted l unsent msgs outs \<Longrightarrow> channels_ok l"
  by (auto simp: channels_ok_def)

lemma take_next:
  "drop n xs = y # ys \<Longrightarrow> take (Suc n) xs = take n xs @ [y] \<and> Suc n \<le> length xs \<and> drop (Suc n) xs = ys"
  by (metis drop_Suc drop_all hd_drop_conv_nth list.sel(1,3) list.simps(3) not_less_eq_eq take_Suc_conv_app_nth
      linorder_not_le tl_drop)

lemma accounted_client:
  assumes "accounted l unsent msgs outs" and "outgoing c = outgoing (link_client l) @ pts"
    and "length (queued (l\<lparr>link_client := c\<rparr>)) \<le> capacity"
  shows "accounted (l\<lparr>link_client := c\<rparr>) unsent msgs outs"
  using assms by (simp add: accounted_def queued_def)

lemma channels_read:
  assumes "channels_ok l" and "reader l = Reading"
  shows "channels_ok (read_frame K f l)"
proof -
  obtain msgs outs where acc: "accounted l [] msgs outs"
    using assms by (auto simp: channels_ok_def accounted_def)
  have client: "accounted (l\<lparr>link_client := c\<rparr>) [] msgs outs"
    if "outgoing c = outgoing (link_client l)" for c
    using accounted_client[OF acc, of c "[]"] acc that by (simp add: accounted_def queued_def)
  have over: "accounted (l\<lparr>link_client := c, reader := ReadEnded\<rparr>) [] msgs outs"
    "accounted (l\<lparr>link_client := c, reader := Sending p, answered := answered l @ [p]\<rparr>) [p] msgs outs"
    if "outgoing c = outgoing (link_client l)" for c p
    using client[OF that] by (simp_all add: accounted_def queued_def)
  have stop: "accounted (l\<lparr>reader := ReadEnded\<rparr>) [] msgs outs" "accounted (l\<lparr>reader := ReadPanicked\<rparr>) [] msgs outs"
    using acc by (simp_all add: accounted_def queued_def)
  show ?thesis
  proof (cases f)
    case (Frame p)
    show ?thesis
    proof (cases "dispatch_packet K p (link_client l)")
      case (Done r)
      obtain d c where r: "r = (d, c)" by (cases r)
      have "outgoing c = outgoing (link_client l)" using dispatch_outgoing Done r by blast
      from client[OF this] over[OF this] show ?thesis
        using Frame Done r by (cases d) (auto simp: read_frame_def intro: channels_okI)
    qed (use Frame stop in \<open>simp add: read_frame_def channels_okI\<close>)
  qed (use stop in \<open>simp_all add: read_frame_def channels_okI\<close>)
qed

lemma channels_send:
  assumes "channels_ok l" and "send_response l = Some l'"
  shows "channels_ok l'"
proof -
  obtain unsent msgs outs where acc: "accounted l unsent msgs outs"
    using assms(1) by (auto simp: channels_ok_def)
  from assms(2) obtain p where p: "reader l = Sending p"
    by (auto simp: send_response_def split: reader_status.splits)
  with acc have "unsent = [p]" by (simp add: accounted_def)
  with acc assms(2) p have "accounted l' [p] msgs outs \<or> accounted l' [] msgs outs"
    by (auto simp: send_response_def accounted_def queued_def split: if_splits)
  then show ?thesis by (auto intro: channels_okI)
qed

lemma channels_take:
  assumes "channels_ok l" and "take_message l = Some l' \<or> take_outgoing l = Some l'"
  shows "channels_ok l'"
proof -
  obtain unsent msgs outs where acc: "accounted l unsent msgs outs"
    using assms(1) by (auto simp: channels_ok_def)
  have sel: "writer l = Selecting"
    using assms(2) by (auto simp: take_message_def take_outgoing_def split: if_splits)
  with acc have "msgs = []" "outs = []" by (simp_all add: accounted_def)
  with acc sel assms(2) show ?thesis
    by (fastforce simp: take_message_def take_outgoing_def accounted_def queued_def channels_ok_def
        split: if_splits list.splits dest: take_next)
qed

lemma channels_written:
  assumes "channels_ok l" and "write_returns r l = Some l'"
  shows "channels_ok l'"
proof -
  obtain unsent msgs outs where acc: "accounted l unsent msgs outs"
    using assms(1) by (auto simp: channels_ok_def)
  show ?thesis
  proof (cases "writer l")
    case (WritingMsg p)
    with acc have held: "msgs = [p]" "outs = []" by (simp_all add: accounted_def)
    obtain going out c where step: "write_step (MsgRecv (Some p) r) (link_client l) = (going, out, c)"
      by (metis prod_cases3)
    note eff = write_step_msg[OF step]
    have "accounted l' unsent (if going then [] else [p]) []"
      using acc assms(2) WritingMsg step eff held
      by (auto simp: write_returns_def accounted_def queued_def)
    then show ?thesis by (rule channels_okI)
  next
    case (WritingOut pt)
    with acc have held: "msgs = []" "outs = [pt]" by (simp_all add: accounted_def)
    obtain going out c where step: "write_step (OutRecv (Some pt) r) (link_client l) = (going, out, c)"
      by (metis prod_cases3)
    note eff = write_step_out[OF step]
    have "accounted l' unsent [] (if going then [] else [pt])"
      using acc assms(2) WritingOut step eff held
      by (auto simp: write_returns_def accounted_def queued_def)
    then show ?thesis by (rule channels_okI)
  qed (use assms(2) in \<open>simp_all add: write_returns_def\<close>)
qed

lemma channels_client:
  assumes "channels_ok l" and "outgoing c = outgoing (link_client l) @ pts"
    and "length (queued (l\<lparr>link_client := c\<rparr>)) \<le> capacity"
  shows "channels_ok (l\<lparr>link_client := c\<rparr>)"
  using assms accounted_client unfolding channels_ok_def by blast

lemma channels_flags [simp]:
  "channels_ok (l\<lparr>pinging := x1\<rparr>) = channels_ok l"
  "channels_ok (l\<lparr>exit_flag := x2\<rparr>) = channels_ok l"
  "channels_ok (l\<lparr>supervising := x3\<rparr>) = channels_ok l"
  "channels_ok (l\<lparr>finishing := x4\<rparr>) = channels_ok l"
  by (simp_all add: channels_ok_def accounted_def queued_def)

lemma queued_same: "channels_ok l \<Longrightarrow> outgoing c = outgoing (link_client l) \<Longrightarrow>
    length (queued (l\<lparr>link_client := c\<rparr>)) \<le> capacity"
  by (auto simp: channels_ok_def accounted_def queued_def)

subsection \<open>The invariant of a connection\<close>

definition link_ok :: "'c link \<Rightarrow> bool" where
  "link_ok l \<longleftrightarrow>
     client_inv (link_client l) \<and> channels_ok l \<and>
     (finishing l \<noteq> None \<longrightarrow> outgoing_tx (link_client l) \<noteq> None)"

lemma link_ok_open:
  "client_inv c \<Longrightarrow> outgoing_tx c \<noteq> None \<Longrightarrow> outgoing c = [] \<Longrightarrow> link_ok (link_open sp t c)"
  by (auto simp: link_ok_def link_open_def accounted_def queued_def capacity_def intro!: channels_okI[of _ "[]" "[]" "[]"])

lemma link_client_updates [simp]:
  "link_client (read_frame K f l) =
     (case f of Frame p \<Rightarrow> (case dispatch_packet K p (link_client l) of Panic \<Rightarrow> link_client l | Done r \<Rightarrow> snd r)
      | _ \<Rightarrow> link_client l)"
  by (auto simp: read_frame_def split: frame.split outcome.split dispatch.split)

lemma write_returns_client:
  assumes "write_returns r l = Some l'"
  shows "\<exists>e going out. write_step e (link_client l) = (going, out, link_client l') \<and>
    outgoing (link_client l') = outgoing (link_client l)"
proof -
  have "\<exists>going out c. write_step e (link_client l) = (going, out, c)" for e by (metis prod_cases3)
  then show ?thesis
    using assms write_step_msg write_step_out
    by (fastforce simp: write_returns_def split: writer_status.splits prod.splits)
qed

lemma take_client:
  "send_response l = Some l' \<Longrightarrow> link_client l' = link_client l"
  "take_message l = Some l' \<Longrightarrow> link_client l' = link_client l"
  "take_outgoing l = Some l' \<Longrightarrow> link_client l' = link_client l"
  by (auto simp: send_response_def take_message_def take_outgoing_def
      split: reader_status.splits if_splits list.splits)

lemma ping_tickE:
  assumes "ping_tick now now2 l = Some l'"
  obtains (gone) "l' = l\<lparr>pinging := False\<rparr>"
    | (ticked) act c where
      "keep_alive_step (opt_keep_alive (options (link_client l))) (exit_flag l) now now2
         (writer l \<noteq> WriteEnded) (link_client l) = Done (act, c)"
      "l' = l\<lparr>link_client := c, pinging := act \<noteq> Exit\<rparr>" "length (queued l') \<le> capacity"
  using assms by (auto simp: ping_tick_def Let_def split: if_splits outcome.splits)

lemma link_requestE:
  assumes "link_request K req l = Done (Some l')"
  obtains t c where "finishing l = None"
    "do_request K req (writer l \<noteq> WriteEnded) (link_client l) = Done (t, c)"
    "l' = l\<lparr>link_client := c\<rparr>" "length (queued l') \<le> capacity"
  using assms
  by (cases "finishing l")
    (auto simp: link_request_def bind_outcome_Done_iff Let_def simp del: do_request.simps split: if_splits)

definition tasks_over :: "'c link \<Rightarrow> bool" where
  "tasks_over l \<longleftrightarrow> reader l = ReadPanicked \<or> reader l = ReadEnded \<and> writer l = WriteEnded"

lemma link_step_flags:
  assumes "link_step K ev l = Done (Some l')"
  shows "(tasks_over l \<longrightarrow> tasks_over l') \<and> (supervising l' \<longleftrightarrow> supervising l \<and> ev \<noteq> Supervise) \<and>
    (ev = Supervise \<longrightarrow> tasks_over l) \<and> (finishing l = None \<longrightarrow> finishing l' = None \<and> ev \<noteq> Finish)"
proof (cases ev)
  case (PingTick now now2)
  with assms have "ping_tick now now2 l = Some l'" by simp
  then show ?thesis by (cases rule: ping_tickE) (auto simp: PingTick tasks_over_def)
next
  case (Request req)
  with assms have "link_request K req l = Done (Some l')" by simp
  then show ?thesis by (cases rule: link_requestE) (auto simp: Request tasks_over_def)
next
  case (ReadFrame f)
  with assms show ?thesis
    by (auto simp: tasks_over_def read_frame_def
        split: if_splits frame.splits outcome.splits prod.splits dispatch.splits)
qed (use assms in \<open>auto simp: tasks_over_def send_response_def take_message_def take_outgoing_def
    write_returns_def finish_link_def supervise_def
    split: if_splits list.splits reader_status.splits writer_status.splits option.splits prod.splits\<close>)

lemma link_step_keeps:
  assumes "link_step K ev l = Done (Some l')" and "client_inv (link_client l)"
    and "finishing l \<noteq> None \<longrightarrow> outgoing_tx (link_client l) \<noteq> None"
  shows "link_keeps (link_client l) (link_client l')"
proof (cases ev)
  case (ReadFrame f)
  with assms(1) have "l' = read_frame K f l" by (auto split: if_splits)
  with link_keeps_dispatch[OF assms(2)] link_keeps_refl[OF assms(2)] show ?thesis
    by (auto split: frame.split outcome.split)
next
  case (WriteReturns r)
  with assms(1) write_returns_client[of r l l'] link_keeps_write[OF assms(2)] show ?thesis by auto
next
  case (PingTick now now2)
  with assms(1) have "ping_tick now now2 l = Some l'" by simp
  then show ?thesis
    by (cases rule: ping_tickE) (use link_keeps_refl[OF assms(2)] link_keeps_ping[OF assms(2)] in auto)
next
  case (Request req)
  with assms(1) have "link_request K req l = Done (Some l')" by simp
  then show ?thesis by (cases rule: link_requestE) (use link_keeps_request[OF assms(2)] in auto)
next
  case Finish
  with assms(1,3) link_keeps_finish[OF assms(2)] show ?thesis
    by (auto simp: finish_link_def split: option.splits)
next
  case Supervise
  with assms link_keeps_over show ?thesis by (auto simp: supervise_def split: if_splits)
qed (use assms(1) link_keeps_refl[OF assms(2)] in \<open>auto dest: take_client\<close>)

lemma link_step_channels:
  assumes "link_step K ev l = Done (Some l')" and "link_ok l"
  shows "channels_ok l'"
proof -
  have ok: "channels_ok l" and inv: "client_inv (link_client l)"
    "finishing l \<noteq> None \<longrightarrow> outgoing_tx (link_client l) \<noteq> None"
    using assms(2) by (simp_all add: link_ok_def)
  obtain pts where pts: "outgoing (link_client l') = outgoing (link_client l) @ pts"
    using link_step_keeps[OF assms(1) inv] by (auto simp: link_keeps_def)
  show ?thesis
  proof (cases ev)
    case (ReadFrame f)
    with assms(1) channels_read[OF ok] show ?thesis by (auto split: if_splits)
  next
    case (PingTick now now2)
    with assms(1) have "ping_tick now now2 l = Some l'" by simp
    then show ?thesis
    proof (cases rule: ping_tickE)
      case (ticked act c)
      with pts have "channels_ok (l\<lparr>link_client := c\<rparr>)"
        by (auto intro: channels_client[OF ok] simp: queued_def)
      with ticked(2) show ?thesis using channels_flags(1)[where l = "l\<lparr>link_client := c\<rparr>"] by simp
    qed (use ok in simp)
  next
    case (Request req)
    with assms(1) have "link_request K req l = Done (Some l')" by simp
    then show ?thesis
      by (cases rule: link_requestE) (use channels_client[OF ok] pts in \<open>auto simp: queued_def\<close>)
  next
    case Finish
    with assms(1) show ?thesis
      using channels_client[OF ok _ queued_same[OF ok], of _ "[]"] channels_flags(4)
      by (auto simp: finish_link_def split: option.splits)
  next
    case Supervise
    with assms(1) show ?thesis
      using channels_client[OF ok _ queued_same[OF ok], of "connection_over (link_client l)" "[]"]
        channels_flags(2,3)
      by (auto simp: supervise_def connection_over_view split: if_splits)
  qed (use assms(1) channels_send[OF ok] channels_take[OF ok] channels_written[OF ok] in auto)
qed

lemma link_step_ok: "link_step K ev l = Done (Some l') \<Longrightarrow> link_ok l \<Longrightarrow> link_ok l'"
  using link_step_keeps[of K ev l l'] link_step_channels[of K ev l l'] link_step_flags[of K ev l l']
  by (auto simp: link_ok_def link_keeps_def)

lemma link_run_ok: "link_run K l evs l' \<Longrightarrow> link_ok l \<Longrightarrow> link_ok l'"
  by (induction rule: link_run.induct) (auto dest: link_step_ok)

lemma link_run_keeps:
  "link_run K l evs l' \<Longrightarrow> link_ok l \<Longrightarrow> link_keeps (link_client l) (link_client l')"
proof (induction rule: link_run.induct)
  case (link_next l evs l1 ev l2)
  with link_run_ok[OF link_next.hyps(1)] show ?case
    by (blast intro: link_keeps_trans link_step_keeps[OF link_next.hyps(2)] dest: link_ok_def[THEN iffD1])
qed (simp add: link_ok_def link_keeps_refl)

subsection \<open>Order of the packets\<close>

text \<open>
  C25. Along any interleaving of the tasks, the caller and the server, what the write task put on the wire is in
  order: the responses of the read task's handlers are those written, then those still in the
  channel, with at most one lost on either side when a write failed or the channel was closed; the same
  holds for the packets of the requests, and neither channel ever holds more than its eight.
\<close>

theorem responses_reach_wire_in_order:
  assumes "client_inv c" and "outgoing_tx c \<noteq> None" and "outgoing c = []"
    and "link_run K (link_open sp t c) evs l"
  shows "\<exists>unsent msgs outs.
    answered l = responses_in (written l) @ msgs @ messages l @ unsent \<and>
    outgoing (link_client l) = requests_in (written l) @ outs @ queued l \<and>
    length (messages l) \<le> 8 \<and> length (queued l) \<le> 8 \<and>
    length unsent \<le> 1 \<and> length msgs + length outs \<le> 1 \<and>
    (writer l = Selecting \<longrightarrow> msgs = [] \<and> outs = []) \<and> (reader l = Reading \<longrightarrow> unsent = [])"
proof -
  obtain unsent msgs outs where acc: "accounted l unsent msgs outs"
    using link_run_ok[OF assms(4) link_ok_open[OF assms(1-3)]] by (auto simp: link_ok_def channels_ok_def)
  then have "outgoing (link_client l) = requests_in (written l) @ outs @ queued l"
    by (metis accounted_def append.assoc append_take_drop_id queued_def)
  moreover have "length unsent \<le> 1" using acc by (cases "reader l") (simp_all add: accounted_def)
  moreover have "length msgs + length outs \<le> 1" using acc by (cases "writer l") (simp_all add: accounted_def)
  ultimately show ?thesis
    using acc by (intro exI[of _ unsent] exI[of _ msgs] exI[of _ outs]) (auto simp: accounted_def capacity_def)
qed

subsection \<open>The end of the read task\<close>

text \<open>The steps that need neither the caller, nor the clock, nor a frame.\<close>

fun draining :: "link_event \<Rightarrow> bool" where
  "draining TakeMessage = True"
| "draining TakeOutgoing = True"
| "draining (WriteReturns r) = True"
| "draining Supervise = True"
| "draining _ = False"

text \<open>Each of them brings the connection nearer to its end.\<close>

definition rest_of :: "'c link \<Rightarrow> nat" where
  "rest_of l =
     2 * length (messages l) + 2 * length (queued l) +
     (case writer l of WriteEnded \<Rightarrow> 0 | Selecting \<Rightarrow> 1 | _ \<Rightarrow> 2) + (if supervising l then 1 else 0)"

lemma draining_step:
  assumes "link_step K ev l = Done (Some l')" and "draining ev"
  shows "rest_of l' < rest_of l \<and> reader l' = reader l"
proof (cases ev)
  case TakeMessage
  with assms(1) show ?thesis
    by (auto simp: take_message_def rest_of_def queued_def split: if_splits list.splits)
next
  case TakeOutgoing
  with assms(1) show ?thesis
    by (auto simp: take_outgoing_def rest_of_def queued_def split: if_splits list.splits dest: take_next)
next
  case (WriteReturns r)
  with assms(1) have "write_returns r l = Some l'" by simp
  moreover from write_returns_client[OF this] have "queued l' = queued l"
    using \<open>write_returns r l = Some l'\<close>
    by (auto simp: queued_def write_returns_def split: writer_status.splits prod.splits)
  ultimately show ?thesis
    by (auto simp: write_returns_def rest_of_def split: writer_status.splits prod.splits if_splits)
next
  case Supervise
  with assms(1) show ?thesis
    by (auto simp: supervise_def rest_of_def queued_def connection_over_view split: if_splits)
qed (use assms in simp_all)

text \<open>A waiting supervisor finds a task that can move, or moves itself.\<close>

lemma draining_progress:
  assumes "reader_over l" and "supervising l"
  shows "\<exists>ev l'. draining ev \<and> link_step K ev l = Done (Some l')"
proof (cases "writer l")
  case Selecting
  with assms(1) have "take_message l \<noteq> None" by (simp add: take_message_def split: list.split)
  then show ?thesis by (intro exI[of _ TakeMessage]) auto
next
  case WriteEnded
  with assms have "supervise l \<noteq> None" by (auto simp: supervise_def reader_over_def)
  then show ?thesis by (intro exI[of _ Supervise]) auto
qed (rule exI[of _ "WriteReturns r" for r]; auto simp: write_returns_def split: prod.split)+

definition connection_ended :: "'c mqtt_client \<Rightarrow> 'c link \<Rightarrow> bool" where
  "connection_ended c l \<longleftrightarrow>
     \<not> is_connected (link_client l) \<and> index (packet_ids (link_client l)) = [] \<and>
     (\<forall>a \<in> bound_tokens (packet_ids c). tok_done (link_client l) a)"

lemma draining_client:
  assumes "link_step K ev l = Done (Some l')" and "draining ev"
  shows "(\<exists>e going out. write_step e (link_client l) = (going, out, link_client l') \<and> supervising l' = supervising l) \<or>
    link_client l' = link_client l \<and> supervising l' = supervising l \<or>
    supervising l \<and> \<not> supervising l' \<and> link_client l' = connection_over (link_client l)"
proof (cases ev)
  case (WriteReturns r)
  with assms(1) have w: "write_returns r l = Some l'" by simp
  then have "supervising l' = supervising l"
    by (auto simp: write_returns_def split: writer_status.splits prod.splits)
  with write_returns_client[OF w] show ?thesis by blast
qed (use assms take_client in
  \<open>auto simp: supervise_def take_message_def take_outgoing_def split: if_splits list.splits\<close>)

lemma draining_ends:
  assumes "link_step K ev l = Done (Some l')" and "draining ev" and "link_ok l"
    and "if supervising l then packet_ids (link_client l) = packet_ids c else connection_ended c l"
  shows "if supervising l' then packet_ids (link_client l') = packet_ids c else connection_ended c l'"
proof -
  have inv: "client_inv (link_client l)" using assms(3) by (simp add: link_ok_def)
  have over: "connection_ended c l'" if "link_client l' = connection_over (link_client l)" "supervising l"
    using that assms(4) connection_over_done(1)[OF inv]
    by (simp add: connection_ended_def connection_over_view is_connected_def)
  have wrote: "connection_ended c l'"
    if "write_step e (link_client l) = (going, out, link_client l')" "connection_ended c l" for e going out
    using that grows_write_step[OF that(1)] write_step_same[OF that(1)] write_step_ids[OF that(1)]
    by (auto simp: connection_ended_def grows_def same_client_def client_fields_def is_connected_def)
  have same: "connection_ended c l'" if "link_client l' = link_client l" "connection_ended c l"
    using that by (simp add: connection_ended_def)
  from draining_client[OF assms(1,2)] assms(4) show ?thesis
    using over wrote same by (auto dest: write_step_ids split: if_splits)
qed

lemma draining_run:
  assumes "link_run K l evs l'" and "\<forall>ev \<in> set evs. draining ev" and "link_ok l" and "supervising l"
  shows "rest_of l' + length evs \<le> rest_of l \<and> reader l' = reader l \<and>
    (if supervising l' then packet_ids (link_client l') = packet_ids (link_client l)
     else connection_ended (link_client l) l')"
  using assms
proof (induction rule: link_run.induct)
  case (link_next l evs l1 ev l2)
  then have IH: "rest_of l1 + length evs \<le> rest_of l \<and> reader l1 = reader l \<and>
    (if supervising l1 then packet_ids (link_client l1) = packet_ids (link_client l)
     else connection_ended (link_client l) l1)" and ev: "draining ev"
    by simp_all
  from link_run_ok[OF link_next.hyps(1) link_next.prems(2)] have "link_ok l1" .
  from draining_ends[OF link_next.hyps(2) ev this] draining_step[OF link_next.hyps(2) ev] IH
  show ?case by simp
qed simp

text \<open>
  C26. When the read task has ended, whatever ended it, and a connection is still supervised, the write task and the
  supervising task end it by themselves, however their steps are ordered and whatever the writes
  return: they take at most 35 more steps, can go on until the supervising task is done, and then
  the client is disconnected, its identifier table is empty, and every operation that held an
  identifier is settled.
\<close>

theorem reader_end_ends_connection:
  assumes "client_inv c" and "outgoing_tx c \<noteq> None" and "outgoing c = []"
    and "link_run K (link_open sp t c) evs0 l" and "reader_over l" and "supervising l"
    and "link_run K l evs l'" and "\<forall>ev \<in> set evs. draining ev"
  shows "length evs \<le> 35 \<and>
    (if supervising l' then \<exists>ev l''. draining ev \<and> link_step K ev l' = Done (Some l'')
     else connection_ended (link_client l) l')"
proof -
  have ok: "link_ok l" by (rule link_run_ok[OF assms(4) link_ok_open[OF assms(1-3)]])
  then have "length (messages l) \<le> 8" "length (queued l) \<le> 8"
    by (auto simp: link_ok_def channels_ok_def accounted_def capacity_def)
  then have "rest_of l \<le> 35" using assms(6) by (simp add: rest_of_def split: writer_status.split)
  with draining_run[OF assms(7,8) ok assms(6)] draining_progress[of l' K] assms(5)
  show ?thesis by (auto simp: reader_over_def)
qed

subsection \<open>A failed write\<close>

text \<open>
  Once the write task has ended, nothing reaches the channel or the wire any more; unless the read
  task ends too the supervising task keeps waiting and the status stays.
\<close>

definition writer_dead :: "'c link \<Rightarrow> 'c link \<Rightarrow> bool" where
  "writer_dead l0 l \<longleftrightarrow>
     writer l = WriteEnded \<and> written l = written l0 \<and> outgoing (link_client l) = outgoing (link_client l0) \<and>
     (reader_over l \<or> supervising l \<and> is_connected (link_client l))"

lemma same_client_connected: "same_client c c' \<Longrightarrow> is_connected c' = is_connected c"
  by (simp add: same_client_def client_fields_def is_connected_def)

lemma read_frame_flags [simp]:
  "writer (read_frame K f l) = writer l" "written (read_frame K f l) = written l"
  "supervising (read_frame K f l) = supervising l" "messages (read_frame K f l) = messages l"
  by (simp_all add: read_frame_def split: frame.split outcome.split prod.split dispatch.split)

lemma request_closed:
  assumes "client_inv c" and "do_request K req False c = Done (t, c')"
  shows "t = next_addr c \<and> outgoing c' = outgoing c \<and> is_connected c' = is_connected c \<and>
    tok_done c' t \<and> tok_err c' t \<noteq> None"
  using req.post[OF assms] by (auto simp: request_post_def settled_request_def untouched_def is_connected_def)

lemma ping_closed:
  assumes "keep_alive_step dur fl now now2 False c = Done (act, c')"
  shows "c' = c"
  using keep_alive_step_effect[OF assms] by (auto simp: send_outgoing_def)

lemma writer_dead_read:
  assumes "writer_dead l0 l" and "reader l = Reading"
  shows "writer_dead l0 (read_frame K f l)"
proof -
  have client: "supervising l" "is_connected (link_client l)"
    using assms by (auto simp: writer_dead_def reader_over_def)
  have "outgoing c = outgoing (link_client l) \<and> is_connected c"
    if "dispatch_packet K p (link_client l) = Done (d, c)" for p d c
    using dispatch_outgoing[OF that] same_client_connected[OF dispatch_same[OF that]] client by simp
  with assms(1) client show ?thesis
    by (auto simp: writer_dead_def split: frame.split outcome.split)
qed

lemma writer_dead_step:
  assumes "link_step K ev l = Done (Some l')" and "writer_dead l0 l" and "link_ok l"
  shows "writer_dead l0 l'"
proof (cases ev)
  case (ReadFrame f)
  with assms(1) writer_dead_read[OF assms(2)] show ?thesis by (auto split: if_splits)
next
  case SendResponse
  with assms(1,2) show ?thesis
    by (auto simp: send_response_def writer_dead_def reader_over_def split: reader_status.splits)
next
  case (PingTick now now2)
  with assms(1) have "ping_tick now now2 l = Some l'" by simp
  then show ?thesis
    by (cases rule: ping_tickE)
      (use assms(2) in \<open>auto simp: writer_dead_def reader_over_def dest!: ping_closed\<close>)
next
  case (Request req)
  with assms(1) have "link_request K req l = Done (Some l')" by simp
  then show ?thesis
    by (cases rule: link_requestE)
      (use assms(2,3) request_closed in \<open>fastforce simp: writer_dead_def reader_over_def link_ok_def\<close>)
next
  case Finish
  with assms(1,2) show ?thesis
    by (auto simp: finish_link_def writer_dead_def reader_over_def is_connected_def split: option.splits)
next
  case Supervise
  with assms(1,2) show ?thesis
    by (auto simp: supervise_def writer_dead_def reader_over_def connection_over_view split: if_splits)
qed (use assms(1,2) in
  \<open>auto simp: take_message_def take_outgoing_def write_returns_def writer_dead_def split: if_splits\<close>)

lemma writer_dead_run:
  "link_run K l evs l' \<Longrightarrow> link_ok l \<Longrightarrow> writer_dead l l \<Longrightarrow> writer_dead l l'"
  by (induction rule: link_run.induct) (blast intro: writer_dead_step dest: link_run_ok)+

text \<open>
  What the server can send to end the read task's loop at once (\<open>break\<close>), and what has an answer, whose hand-over
  ends the loop when the write task is gone.
\<close>

fun ends_reading :: "frame \<Rightarrow> bool" where
  "ends_reading (Frame p) \<longleftrightarrow>
     (case p of
        PublishPacket _ \<Rightarrow> False | PubackPacket _ \<Rightarrow> False | PubrecPacket _ \<Rightarrow> False | PubrelPacket _ \<Rightarrow> False
      | PubcompPacket _ \<Rightarrow> False | SubackPacket _ _ \<Rightarrow> False | UnsubackPacket _ \<Rightarrow> False | PingrespPacket \<Rightarrow> False
      | _ \<Rightarrow> True)"
| "ends_reading FrameError = True"
| "ends_reading FrameEnd = True"

fun has_answer :: "'c libs \<Rightarrow> frame \<Rightarrow> bool" where
  "has_answer K (Frame (PublishPacket p)) \<longleftrightarrow> fst (qos_split K (pp_qos p)) \<noteq> Level0"
| "has_answer K (Frame (PubrecPacket i)) = True"
| "has_answer K (Frame (PubrelPacket i)) = True"
| "has_answer K f = False"

lemma read_frame_reader:
  assumes "reader l = Reading"
  shows "reader (read_frame K f l) = ReadEnded \<longleftrightarrow> ends_reading f"
proof (cases f)
  case (Frame p)
  with assms show ?thesis
    by (cases p)
      (auto simp: read_frame_def split_beta Let_def bind_outcome_Done_iff split: outcome.splits dispatch.splits option.splits)
qed (use assms in \<open>simp_all add: read_frame_def\<close>)

lemma read_frame_answers:
  assumes "reader l = Reading" and "reader (read_frame K f l) = Sending p"
  shows "has_answer K f"
proof (cases f)
  case (Frame q)
  with assms show ?thesis
    by (cases q)
      (auto simp: read_frame_def handle_publish_def split_beta Let_def bind_outcome_Done_iff
        split: outcome.splits dispatch.splits option.splits quality_of_service.splits)
qed (use assms in \<open>simp_all add: read_frame_def\<close>)

lemma read_frame_panics:
  assumes "reader l = Reading" and "reader (read_frame K f l) = ReadPanicked"
  shows "\<exists>p. f = Frame p \<and> dispatch_packet K p (link_client l) = Panic"
  using assms by (auto simp: read_frame_def split: frame.splits outcome.splits prod.splits dispatch.splits)

text \<open>Only its own steps end the read task.\<close>

lemma link_step_reader:
  assumes "link_step K ev l = Done (Some l')" and "\<nexists>f. ev = ReadFrame f" and "ev \<noteq> SendResponse"
  shows "reader l' = reader l"
proof (cases ev)
  case (PingTick now now2)
  with assms(1) have "ping_tick now now2 l = Some l'" by simp
  then show ?thesis by (cases rule: ping_tickE) auto
next
  case (Request req)
  with assms(1) have "link_request K req l = Done (Some l')" by simp
  then show ?thesis by (cases rule: link_requestE) auto
qed (use assms in \<open>auto simp: take_message_def take_outgoing_def write_returns_def finish_link_def supervise_def
    split: if_splits list.splits writer_status.splits option.splits prod.splits\<close>)

text \<open>
  C29. A failed write alone is not noticed: as long as the read task goes on, whatever happens, the supervising task has nothing
  to do, the client counts as connected, and nothing more is sent or written; every request returns
  with an error in its token. The read task goes on until it reads a frame that ends its loop (the end of the stream, an
  undecodable frame, a DISCONNECT or a packet a client does not expect), its handler panics, or it finds in handing
  over the answer to a packet that the write task is gone.
\<close>

theorem dead_writer_goes_unnoticed:
  assumes "client_inv c" and "outgoing_tx c \<noteq> None" and "outgoing c = []"
    and "link_run K (link_open sp t c) evs0 l"
    and "writer l = WriteEnded" and "supervising l" and "is_connected (link_client l)"
    and "link_run K l evs l'" and "\<not> reader_over l'"
  shows "link_step K Supervise l' = Done None \<and> is_connected (link_client l') \<and>
    written l' = written l \<and> outgoing (link_client l') = outgoing (link_client l) \<and>
    (\<forall>req l''. link_step K (Request req) l' = Done (Some l'') \<longrightarrow>
       tok_done (link_client l'') (next_addr (link_client l')) \<and>
       tok_err (link_client l'') (next_addr (link_client l')) \<noteq> None) \<and>
    (\<forall>ev l''. link_step K ev l' = Done (Some l'') \<longrightarrow>
       (case ev of
          ReadFrame f \<Rightarrow> (reader l'' = ReadEnded \<longleftrightarrow> ends_reading f) \<and>
            ((\<exists>p. reader l'' = Sending p) \<longrightarrow> has_answer K f) \<and>
            (reader l'' = ReadPanicked \<longrightarrow> (\<exists>p. f = Frame p \<and> dispatch_packet K p (link_client l') = Panic))
        | SendResponse \<Rightarrow> reader l'' = ReadEnded
        | _ \<Rightarrow> reader l'' = reader l'))"
proof -
  have ok: "link_ok l" by (rule link_run_ok[OF assms(4) link_ok_open[OF assms(1-3)]])
  have dead: "writer_dead l l'"
    by (rule writer_dead_run[OF assms(8) ok]) (use assms(5-7) in \<open>simp add: writer_dead_def\<close>)
  have inv: "client_inv (link_client l')" using link_run_ok[OF assms(8) ok] by (simp add: link_ok_def)
  have closed: "tok_done (link_client l'') (next_addr (link_client l')) \<and>
      tok_err (link_client l'') (next_addr (link_client l')) \<noteq> None"
    if "link_request K req l' = Done (Some l'')" for req l''
    using that by (cases rule: link_requestE)
      (use request_closed[OF inv] dead in \<open>fastforce simp: writer_dead_def\<close>)
  have "case ev of
      ReadFrame f \<Rightarrow> (reader l'' = ReadEnded \<longleftrightarrow> ends_reading f) \<and> ((\<exists>p. reader l'' = Sending p) \<longrightarrow> has_answer K f) \<and>
        (reader l'' = ReadPanicked \<longrightarrow> (\<exists>p. f = Frame p \<and> dispatch_packet K p (link_client l') = Panic))
    | SendResponse \<Rightarrow> reader l'' = ReadEnded
    | _ \<Rightarrow> reader l'' = reader l'"
    if "link_step K ev l' = Done (Some l'')" for ev l''
  proof (cases ev)
    case (ReadFrame f)
    with that have "reader l' = Reading" "l'' = read_frame K f l'" by (auto split: if_splits)
    with ReadFrame read_frame_reader read_frame_answers read_frame_panics show ?thesis by auto
  qed (use that link_step_reader[OF that] dead in
      \<open>auto simp: writer_dead_def send_response_def split: reader_status.splits if_splits\<close>)
  then show ?thesis
    using dead assms(9) closed by (auto simp: writer_dead_def supervise_def reader_over_def)
qed

subsection \<open>A connection that ends too early\<close>

text \<open>Spawning the tasks and then finishing is what the accepted branch of \<open>connect\<close> does.\<close>

lemma connect_opens_link:
  "finish_link (link_open sp t (adopt_state now ch c)) =
     Some ((link_open sp t (adopt_state now ch c))
       \<lparr>link_client := connect_reply (FirstPacket (ConnackPacket ConnectionAccepted sp)) now ch t c,
        finishing := None\<rparr>)"
  by (simp add: finish_link_def link_open_def connect_reply_def)

text \<open>The read task's two steps are an iteration of its loop.\<close>

lemma read_frame_is_read_step:
  assumes "read_step K (f, sent) (link_client l) = Done (going, out, c)" and "reader l = Reading"
  shows "link_client (read_frame K f l) = c \<and>
    (reader (read_frame K f l) = Reading \<longleftrightarrow> going \<and> out = []) \<and>
    (sent \<longrightarrow> answered (read_frame K f l) = answered l @ out)"
proof (cases f)
  case (Frame p)
  with assms(1) show ?thesis
    by (elim read_step_Frame[of K p sent, simplified Frame[symmetric]])
      (use Frame assms(2) in \<open>auto simp: read_frame_def split: dispatch.splits\<close>)
qed (use assms in \<open>auto simp: read_frame_def\<close>)

lemma link_step_connected:
  assumes "link_step K ev l = Done (Some l')" and "client_inv (link_client l)"
  shows "is_connected (link_client l') \<longleftrightarrow> ev = Finish \<or> ev \<noteq> Supervise \<and> is_connected (link_client l)"
proof (cases ev)
  case (ReadFrame f)
  have "is_connected c = is_connected (link_client l)"
    if "dispatch_packet K p (link_client l) = Done (d, c)" for p d c
    using same_client_connected[OF dispatch_same[OF that]] .
  with ReadFrame assms(1) show ?thesis
    by (auto split: frame.splits outcome.splits if_splits)
next
  case (WriteReturns r)
  with assms(1) obtain e going out where "write_step e (link_client l) = (going, out, link_client l')"
    using write_returns_client[of r l l'] by auto
  from same_client_connected[OF write_step_same[OF this]] WriteReturns show ?thesis by simp
next
  case (PingTick now now2)
  with assms(1) have "ping_tick now now2 l = Some l'" by simp
  then show ?thesis
    by (cases rule: ping_tickE) (auto simp: PingTick is_connected_def dest!: keep_alive_step_effect)
next
  case (Request req)
  with assms(1) have "link_request K req l = Done (Some l')" by simp
  then show ?thesis
    by (cases rule: link_requestE)
      (auto simp: Request request_post_def untouched_def is_connected_def dest!: req.post[OF assms(2)])
next
  case Finish
  with assms(1) show ?thesis by (auto simp: finish_link_def is_connected_def split: option.splits)
next
  case Supervise
  with assms(1) show ?thesis
    by (auto simp: supervise_def connection_over_view is_connected_def split: if_splits)
qed (use assms(1) in \<open>auto dest!: take_client\<close>)

lemma link_run_over:
  "link_run K l evs l' \<Longrightarrow> supervising l \<or> tasks_over l \<Longrightarrow> supervising l' \<or> tasks_over l'"
  by (induction rule: link_run.induct) (auto dest: link_step_flags)

lemma abandoned_run:
  assumes "link_run K l evs l'" and "link_ok l"
    and "\<not> supervising l" and "finishing l = None" and "is_connected (link_client l)"
  shows "\<not> supervising l' \<and> finishing l' = None \<and> is_connected (link_client l')"
  using assms
proof (induction rule: link_run.induct)
  case (link_next l evs l1 ev l2)
  then have "\<not> supervising l1 \<and> finishing l1 = None \<and> is_connected (link_client l1)" by blast
  moreover have "client_inv (link_client l1)"
    using link_run_ok[OF link_next.hyps(1) link_next.prems(1)] by (simp add: link_ok_def)
  moreover have "ev \<noteq> Supervise" if "\<not> supervising l1"
    using link_next.hyps(2) that by (auto simp: supervise_def)
  ultimately show ?case
    using link_step_flags[OF link_next.hyps(2)] link_step_connected[OF link_next.hyps(2)] by auto
qed simp

text \<open>
  C36. If a connection ends before \<open>connect\<close> has set the status, which it does after it has spawned the tasks, the end is lost: \<open>connect\<close>
  then makes the client connected for good. No task is left to change that, \<open>block\<close> only sleeps, nothing is
  sent or written any more, and every request returns with an error in its token.
\<close>

theorem lost_disconnect_is_never_noticed:
  assumes "client_inv c" and "outgoing_tx c \<noteq> None" and "outgoing c = []"
    and "link_run K (link_open sp t c) evs0 l" and "\<not> supervising l" and "reader l \<noteq> ReadPanicked"
    and "link_step K Finish l = Done (Some l1)" and "link_run K l1 evs l'"
  shows "is_connected (link_client l') \<and> block_sleep cnt (link_client l') = block_head cnt (link_client l') \<and>
    written l' = written l \<and> outgoing (link_client l') = outgoing (link_client l) \<and>
    (\<forall>req l''. link_step K (Request req) l' = Done (Some l'') \<longrightarrow>
       tok_done (link_client l'') (next_addr (link_client l')) \<and>
       tok_err (link_client l'') (next_addr (link_client l')) \<noteq> None)"
proof -
  have ok: "link_ok l" by (rule link_run_ok[OF assms(4) link_ok_open[OF assms(1-3)]])
  have over: "reader l = ReadEnded" "writer l = WriteEnded"
    using link_run_over[OF assms(4)] assms(5,6) by (auto simp: link_open_def tasks_over_def)
  from assms(7) have l1: "finishing l1 = None" "\<not> supervising l1" "is_connected (link_client l1)"
    "writer_dead l l1"
    using over assms(5)
    by (auto simp: finish_link_def is_connected_def writer_dead_def reader_over_def split: option.splits)
  have ok1: "link_ok l1" by (rule link_step_ok[OF assms(7) ok])
  have "writer_dead l1 l1" using l1(4) by (simp add: writer_dead_def)
  then have dead: "writer_dead l1 l'" by (rule writer_dead_run[OF assms(8) ok1])
  have inv: "client_inv (link_client l')" using link_run_ok[OF assms(8) ok1] by (simp add: link_ok_def)
  have still: "is_connected (link_client l')" using abandoned_run[OF assms(8) ok1 l1(2,1,3)] by simp
  have closed: "tok_done (link_client l'') (next_addr (link_client l')) \<and>
      tok_err (link_client l'') (next_addr (link_client l')) \<noteq> None"
    if "link_request K req l' = Done (Some l'')" for req l''
    using that by (cases rule: link_requestE)
      (use request_closed[OF inv] dead in \<open>fastforce simp: writer_dead_def\<close>)
  show ?thesis
    using still closed dead l1(4) by (auto simp: writer_dead_def block_sleep_def is_connected_def)
qed

text \<open>Every other step is a step of the client among its tasks, as the theory \<open>System\<close> has them.\<close>

lemma link_step_client_run:
  assumes "link_step K ev l = Done (Some l')" and "ev \<noteq> Finish"
  shows "client_run K (link_client l) (link_client l')"
proof -
  have one: "client_run K c c'" if "client_step K c c'" for c c' :: "'a mqtt_client"
    using run_step[OF run_refl that] .
  show ?thesis
  proof (cases ev)
    case (ReadFrame f)
    with assms(1) have l': "l' = read_frame K f l" by (auto split: if_splits)
    have "client_run K (link_client l) c" if "dispatch_packet K p (link_client l) = Done (d, c)" for p d c
    proof -
      have "\<exists>going out. read_step K (Frame p, True) (link_client l) = Done (going, out, c)"
        using that by (cases d) (simp; blast)+
      then show ?thesis by (blast intro: one client_step.read)
    qed
    then show ?thesis
      unfolding l' by (auto intro: run_refl split: frame.split outcome.split)
  next
    case (WriteReturns r)
    with assms(1) obtain e going out where "write_step e (link_client l) = (going, out, link_client l')"
      using write_returns_client[of r l l'] by auto
    then show ?thesis by (rule one[OF client_step.wrote])
  next
    case (PingTick now now2)
    with assms(1) have "ping_tick now now2 l = Some l'" by simp
    then show ?thesis by (cases rule: ping_tickE) (auto intro: run_refl one client_step.pinged)
  next
    case (Request req)
    with assms(1) have "link_request K req l = Done (Some l')" by simp
    then show ?thesis by (cases rule: link_requestE) (auto intro: one client_step.requested simp del: do_request.simps)
  next
    case Supervise
    with assms(1) have "link_client l' = connection_over (link_client l)"
      by (auto simp: supervise_def split: if_splits)
    then show ?thesis using one[OF client_step.ended] by simp
  qed (use assms in \<open>auto dest!: take_client intro: run_refl\<close>)
qed

lemma client_run_trans: "client_run K c1 c2 \<Longrightarrow> client_run K c c1 \<Longrightarrow> client_run K c c2"
  by (induction rule: client_run.induct) (auto intro: run_step)

text \<open>
  The tasks of a connection refine the client's step relation: once \<open>connect\<close> has finished, whatever the tasks,
  the caller and the server do in any order is, seen from the client, a run of the steps that \<open>System\<close>
  is about; finishing at once is \<open>connect\<close> itself.
\<close>

lemma link_refines_client:
  assumes "link_run K l evs l'" and "finishing l = None"
  shows "client_run K (link_client l) (link_client l') \<and> finishing l' = None \<and>
    (\<forall>sp t now ch c. map_option link_client (finish_link (link_open sp t (adopt_state now ch c))) =
       Some (connect_reply (FirstPacket (ConnackPacket ConnectionAccepted sp)) now ch t c))"
proof -
  have "client_run K (link_client l) (link_client l') \<and> finishing l' = None"
    using assms
  proof (induction rule: link_run.induct)
    case (link_next l evs l1 ev l2)
    then have IH: "client_run K (link_client l) (link_client l1)" "finishing l1 = None" by simp_all
    have "ev \<noteq> Finish" "finishing l2 = None"
      using link_step_flags[OF link_next.hyps(2)] IH(2) by simp_all
    with link_step_client_run[OF link_next.hyps(2)] IH show ?case by (auto intro: client_run_trans)
  qed (simp add: run_refl)
  then show ?thesis by (simp add: connect_opens_link)
qed

subsection \<open>Witnesses\<close>

text \<open>A run of given events, computed.\<close>

fun link_play :: "'c libs \<Rightarrow> link_event list \<Rightarrow> 'c link \<Rightarrow> 'c link option outcome" where
  "link_play K [] l = Done (Some l)"
| "link_play K (ev # evs) l =
     bind_outcome (link_step K ev l) (\<lambda>r. case r of None \<Rightarrow> Done None | Some l' \<Rightarrow> link_play K evs l')"

lemma link_play_run:
  "link_play K evs l1 = Done (Some l') \<Longrightarrow> link_run K l evs0 l1 \<Longrightarrow> link_run K l (evs0 @ evs) l'"
proof (induction evs arbitrary: evs0 l1)
  case (Cons ev evs)
  then obtain l2 where step: "link_step K ev l1 = Done (Some l2)" and rest: "link_play K evs l2 = Done (Some l')"
    by (auto simp: bind_outcome_Done_iff split: option.splits)
  from Cons.IH[OF rest link_next[OF Cons.prems(2) step]] show ?case by simp
qed simp

lemmas link_playI = link_play_run[OF _ link_refl, simplified]

definition sample_link :: "(u16 \<Rightarrow> publish_packet option) link" where
  "sample_link = link_open False 0 sample_client"

lemma sample_client_channel: "outgoing_tx sample_client = Some 0" "opt_keep_alive (options sample_client) = 0"
  "pending_packets sample_client = Map.empty"
  by (simp_all add: sample_client_def mqtt_client_new_def state.extend_def state_new_def heap.extend_def
      options_default_def sample_libs_def)

lemmas sample_steps = sample_link_def link_open_def read_frame_def send_response_def take_message_def
  take_outgoing_def write_returns_def ping_tick_def supervise_def queued_def capacity_def reader_over_def
  keep_alive_step_def handle_pubrel_def packet_and_token_new_def Let_def sample_client_view sample_client_channel

lemma responses_reach_wire_in_order_witness:
  "\<exists>l. link_run sample_libs sample_link
      [ReadFrame (Frame (PubrelPacket 9)), SendResponse, TakeMessage, WriteReturns (WriteOk 5)] l \<and>
    written l = [Inl (PubcompPacket 9)] \<and> answered l = responses_in (written l) @ messages l"
proof -
  let ?evs = "[ReadFrame (Frame (PubrelPacket 9)), SendResponse, TakeMessage, WriteReturns (WriteOk 5)]"
  obtain l where "link_play sample_libs ?evs sample_link = Done (Some l)"
    and l: "written l = [Inl (PubcompPacket 9)]" "writer l = Selecting" "reader l = Reading"
    by (simp add: sample_steps sample_libs_def)
  then have run: "link_run sample_libs (link_open False 0 sample_client) ?evs l"
    unfolding sample_link_def by (auto intro: link_playI)
  have "outgoing_tx sample_client \<noteq> None" by (simp add: sample_client_channel)
  from responses_reach_wire_in_order[OF sample_client_view(1) this sample_client_view(5) run] l run
  show ?thesis unfolding sample_link_def by auto
qed

lemma reader_end_ends_connection_witness:
  "\<exists>l l'. link_run sample_libs sample_link [ReadFrame FrameEnd] l \<and>
    link_run sample_libs l [TakeMessage, Supervise] l' \<and> connection_ended (link_client l) l'"
proof -
  let ?l = "read_frame sample_libs FrameEnd sample_link"
  have first: "link_run sample_libs (link_open False 0 sample_client) [ReadFrame FrameEnd] ?l"
    by (rule link_playI) (simp add: sample_steps)
  obtain l' where "link_play sample_libs [TakeMessage, Supervise] ?l = Done (Some l')" "\<not> supervising l'"
    by (simp add: sample_steps)
  then have rest: "link_run sample_libs ?l [TakeMessage, Supervise] l'" "\<not> supervising l'"
    by (auto intro: link_playI)
  have tx: "outgoing_tx sample_client \<noteq> None" by (simp add: sample_client_channel)
  have ended: "reader_over ?l" "supervising ?l" by (simp_all add: sample_steps)
  have "connection_ended (link_client ?l) l'"
    using reader_end_ends_connection[OF sample_client_view(1) tx sample_client_view(5) first ended rest(1)] rest(2)
    by (simp del: link_client_updates)
  with first rest(1) show ?thesis unfolding sample_link_def by blast
qed

lemma dead_writer_goes_unnoticed_witness:
  "\<exists>l l'. link_run sample_libs sample_link [PingTick 0 0, TakeOutgoing, WriteReturns (WriteErr ''reset'')] l \<and>
    link_run sample_libs l [ReadFrame (Frame PingrespPacket)] l' \<and>
    is_connected (link_client l') \<and> link_step sample_libs Supervise l' = Done None"
proof -
  let ?evs = "[PingTick 0 0, TakeOutgoing, WriteReturns (WriteErr ''reset'')]"
  obtain l where "link_play sample_libs ?evs sample_link = Done (Some l)"
    and l: "writer l = WriteEnded" "supervising l" "is_connected (link_client l)" "reader l = Reading"
    by (simp add: sample_steps is_connected_def) (use sample_client_view(2) in \<open>simp add: is_connected_def\<close>)
  then have run: "link_run sample_libs (link_open False 0 sample_client) ?evs l"
    unfolding sample_link_def by (auto intro: link_playI)
  have rest: "link_run sample_libs l [ReadFrame (Frame PingrespPacket)] (l\<lparr>link_client := link_client l\<rparr>)"
    by (rule link_playI) (use l in \<open>simp add: read_frame_def\<close>)
  have tx: "outgoing_tx sample_client \<noteq> None" by (simp add: sample_client_channel)
  have going: "\<not> reader_over (l\<lparr>link_client := link_client l\<rparr>)" using l by (simp add: reader_over_def)
  from dead_writer_goes_unnoticed[OF sample_client_view(1) tx sample_client_view(5) run l(1-3) rest going] run rest
  show ?thesis unfolding sample_link_def by blast
qed

lemma lost_disconnect_is_never_noticed_witness:
  "\<exists>l. link_run sample_libs sample_link [ReadFrame FrameEnd, TakeMessage, Supervise] l \<and>
    block_sleep 0 (finish_connect False 0 (link_client l)) = block_head 0 (finish_connect False 0 (link_client l))"
proof -
  let ?evs = "[ReadFrame FrameEnd, TakeMessage, Supervise]"
  obtain l where "link_play sample_libs ?evs sample_link = Done (Some l)"
    and l: "\<not> supervising l" "reader l \<noteq> ReadPanicked" "finishing l = Some (False, 0)"
    by (simp add: sample_steps)
  then have run: "link_run sample_libs (link_open False 0 sample_client) ?evs l"
    unfolding sample_link_def by (auto intro: link_playI)
  obtain l1 where fin: "link_step sample_libs Finish l = Done (Some l1)"
    and l1: "link_client l1 = finish_connect False 0 (link_client l)"
    using l(3) by (simp add: finish_link_def)
  have tx: "outgoing_tx sample_client \<noteq> None" by (simp add: sample_client_channel)
  from lost_disconnect_is_never_noticed[OF sample_client_view(1) tx sample_client_view(5) run l(1,2) fin link_refl]
  show ?thesis using run l1 unfolding sample_link_def by auto
qed

end
