(* ===== verification/Accounting.thy ===== *)
theory Accounting
  imports Connection
begin

section \<open>No request is forgotten\<close>

text \<open>
  Who will complete a request that is still pending? Along every run of a connection
  (\<^verbatim>\<open>src/src/client.rs\<close>, \<^verbatim>\<open>src/src/net.rs\<close>) its token is in the identifier table, where the server's answer or
  the end of the connection finds it, or its packet is on the way to the socket and completes it
  when it has been written.
\<close>

subsection \<open>Tokens that the write completes\<close>

definition completes_on_write :: "'a heap_scheme \<Rightarrow> token \<Rightarrow> bool" where
  "completes_on_write s tk =
     (case tk of Publish a \<Rightarrow> publish_qos s a = Some Level0 | Disconnect a \<Rightarrow> True | _ \<Rightarrow> False)"

lemma completes_on_write_data:
  "(\<And>a. publish_qos s' a = publish_qos s a) \<Longrightarrow> completes_on_write s' tk = completes_on_write s tk"
  by (simp add: completes_on_write_def split: token.split)

lemma publish_qos_data: "data_at s' a = data_at s a \<Longrightarrow> publish_qos s' a = publish_qos s a"
  by (simp add: publish_qos_def)

lemma publish_qos_ops [simp]:
  "publish_qos (tok_set_error e b s) a = publish_qos s a"
  "publish_qos (tok_flow_complete b s) a = publish_qos s a"
  "publish_qos (s\<lparr>packet_ids := x1\<rparr>) a = publish_qos (s :: ('c, 'b) state_scheme) a"
  "publish_qos (s\<lparr>topic_manager := x2\<rparr>) a = publish_qos s a"
  "publish_qos (s\<lparr>subscriptions := x3\<rparr>) a = publish_qos s a"
  "publish_qos (s\<lparr>pending_packets := x4\<rparr>) a = publish_qos s a"
  "publish_qos (s\<lparr>last_sent_packet_at := x5\<rparr>) a = publish_qos s a"
  "publish_qos (send_outgoing ok pt s) a = publish_qos s a"
  "publish_qos (spawn_handlers subs msg s) a = publish_qos s a"
  by (simp_all add: publish_qos_def tok_simps) (simp add: data_at_def)

lemma publish_qos_set_result [simp]: "publish_qos (set_result i code b s) a = publish_qos s a"
  by (auto simp: publish_qos_def set_result_def tok_simps split: option.splits token_data.splits)

lemma publish_qos_connect [simp]:
  "publish_qos (connect_set_session_present b s) a = publish_qos s a"
  by (auto simp: publish_qos_def connect_set_session_present_def tok_simps split: option.splits token_data.splits)

lemma publish_qos_suback [simp]: "publish_qos (suback_loop i codes b s) a = publish_qos s a"
proof (induction i codes b s rule: suback_loop.induct)
  case (2 i code codes b s)
  have "publish_qos (suback_body i code b s) a = publish_qos s a"
    by (simp add: suback_body_def Let_def split: option.split)
  with 2 show ?case by simp
qed simp

subsection \<open>Requests\<close>

definition tracked_request :: "'c mqtt_client \<Rightarrow> 'c mqtt_client \<Rightarrow> bool" where
  "tracked_request c c' \<longleftrightarrow>
     bound_tokens (packet_ids c) \<subseteq> bound_tokens (packet_ids c') \<and>
     (tok_done c' (next_addr c) \<or> next_addr c \<in> bound_tokens (packet_ids c') \<or>
      (\<exists>pt tk. outgoing c' = outgoing c @ [pt] \<and> pt_token pt = Some tk \<and>
         token_addr tk = next_addr c \<and> completes_on_write c' tk))"

lemma tracked_error:
  assumes "tok_live c1 (next_addr c)" and "bound_tokens (packet_ids c) \<subseteq> bound_tokens (packet_ids c1)"
  shows "tracked_request c (tok_set_error e (next_addr c) c1)"
  using assms by (simp add: tracked_request_def tok_simps)

lemma tracked_offer:
  assumes "offer ok p tk c1 = Done c2" and "token_addr tk = next_addr c" and "outgoing c1 = outgoing c"
    and "tok_live c1 (next_addr c)" and "bound_tokens (packet_ids c) \<subseteq> bound_tokens (packet_ids c1)"
    and "next_addr c \<in> bound_tokens (packet_ids c1) \<or> completes_on_write c1 tk"
  shows "tracked_request c c2"
proof (cases ok)
  case True
  with assms(1) have "c2 = send_outgoing True (packet_and_token_new_with p tk) c1"
    by (auto simp: offer_def bind_outcome_Done_iff)
  moreover have "completes_on_write (send_outgoing True pt c1) tk = completes_on_write c1 tk" for pt
    by (rule completes_on_write_data) simp
  ultimately show ?thesis
    using assms(2,3,5,6) by (auto simp: tracked_request_def packet_and_token_new_with_def)
next
  case False
  with assms have "c2 = tok_set_error InternalServerError (next_addr c) c1"
    by (auto simp: offer_def bind_outcome_Done_iff)
  with tracked_error assms(4,5) show ?thesis by blast
qed

lemma get_id_bound:
  assumes "pid_ok ids" and "get_id checks tk ids = Done (i, ids')"
  shows "bound_tokens ids \<subseteq> bound_tokens ids'" and "i \<noteq> 0 \<Longrightarrow> token_addr tk \<in> bound_tokens ids'"
proof -
  show "bound_tokens ids \<subseteq> bound_tokens ids'"
    using pid.acquire_keeps[OF assms(2)] by (auto simp: bound_tokens_def get_token_def)
  show "i \<noteq> 0 \<Longrightarrow> token_addr tk \<in> bound_tokens ids'"
    using pid.acquire_lookup[OF assms(2)] by (intro bound_tokensI[of i]) (simp add: get_token_def)
qed

lemma tracked_map_data:
  assumes "tracked_request c c'" and "next_addr c \<in> bound_tokens (packet_ids c') \<or> tok_done c' (next_addr c)"
  shows "tracked_request c (map_data f a c')"
  using assms by (auto simp: tracked_request_def tok_simps)

lemma offer_ids: "offer ok p tk c1 = Done c2 \<Longrightarrow> packet_ids c2 = packet_ids c1"
  by (auto simp: offer_def bind_outcome_Done_iff split: if_splits)

lemma unsubscribe_loop_frame:
  "unsubscribe_loop K topics a c = (r, c') \<Longrightarrow>
     packet_ids c' = packet_ids c \<and> outgoing c' = outgoing c \<and> tok_live c' b = tok_live c b"
  by (induction K topics a c arbitrary: r rule: unsubscribe_loop.induct)
    (auto simp: unsubscribe_add_topic_def tok_simps split: option.splits prod.splits)

lemma tracked_disconnect: "disconnect ok c = Done (t, c') \<Longrightarrow> tracked_request c c'"
  by (auto simp: disconnect_eq Let_def bind_outcome_Done_iff completes_on_write_def tok_simps
      intro!: tracked_error elim!: tracked_offer split: if_splits)

lemma completes_publish_start [simp]:
  "completes_on_write (publish_start q c) (Publish (next_addr c)) \<longleftrightarrow> q = Level0"
  by (simp add: completes_on_write_def publish_qos_def publish_start_def publish_set_qos_def publish_default_def tok_simps)

lemma tracked_publish:
  assumes "client_inv c" and "publish K ok topic q retained payload c = Done (t, c')"
  shows "tracked_request c c'"
proof (cases "is_connected c")
  case False
  with assms(2) show ?thesis by (auto simp: publish_eq Let_def intro!: tracked_error)
next
  case True
  let ?c1 = "publish_start q c" let ?t = "next_addr c"
  have pid: "pid_ok (packet_ids ?c1)" using assms(1) by (simp add: client_inv_def state_inv_def)
  obtain r where idr: "publish_qos_id K q ?t ?c1 = Done r"
    and restr: "(case fst r of None \<Rightarrow> Done (?t, tok_set_error PacketIdError ?t (snd r))
      | Some qos \<Rightarrow> (case topic_name_new K topic of
           None \<Rightarrow> Done (?t, tok_set_error InvalidTopic ?t (snd r))
         | Some tn \<Rightarrow> bind_outcome (offer ok (PublishPacket (publish_packet_new tn qos payload retained)) (Publish ?t) (snd r))
             (\<lambda>c3. Done (?t, c3)))) = Done (t, c')"
    using True assms(2) by (auto simp: publish_eq Let_def bind_outcome_Done_iff simp del: split_paired_All split_paired_Ex)
  obtain qos c2 where r: "r = (qos, c2)" by (cases r)
  note id = idr[unfolded r] and rest = restr[unfolded r fst_conv snd_conv]
  have c2: "tok_live c2 ?t" "outgoing c2 = outgoing c" "bound_tokens (packet_ids c) \<subseteq> bound_tokens (packet_ids c2)"
    "qos \<noteq> None \<Longrightarrow> ?t \<in> bound_tokens (packet_ids c2) \<or> completes_on_write c2 (Publish ?t)"
    using id get_id_bound[OF pid, of "overflow_checks K" "Publish ?t"]
    by (cases q; fastforce simp: publish_qos_id_def bind_outcome_Done_iff split: if_splits)+
  from rest show ?thesis
    using c2 by (auto simp: bind_outcome_Done_iff intro!: tracked_error elim!: tracked_offer
        split: option.splits)
qed

text \<open>
  The same for the outcomes of the other requests, by the rules the contract of a request uses.
  \<open>b\<close> tells that the token holds an identifier.
\<close>

definition started :: "'c mqtt_client \<Rightarrow> bool \<Rightarrow> 'c mqtt_client \<Rightarrow> bool" where
  "started c b c2 \<longleftrightarrow>
     tok_live c2 (next_addr c) \<and> outgoing c2 = outgoing c \<and>
     bound_tokens (packet_ids c) \<subseteq> bound_tokens (packet_ids c2) \<and>
     (b \<longrightarrow> next_addr c \<in> bound_tokens (packet_ids c2))"

definition tracks :: "'c mqtt_client \<Rightarrow> (addr \<times> 'c mqtt_client) outcome \<Rightarrow> bool" where
  "tracks c m \<longleftrightarrow> (\<forall>t c'. m = Done (t, c') \<longrightarrow> tracked_request c c')"

lemma tracks_error: "started c b c1 \<Longrightarrow> tracks c (Done (t, tok_set_error e (next_addr c) c1))"
  by (simp add: tracks_def started_def tracked_error)

lemma tracks_offer:
  assumes "started c True c1" and "token_addr tk = next_addr c"
    and "\<And>c2. tracked_request c c2 \<Longrightarrow> next_addr c \<in> bound_tokens (packet_ids c2) \<Longrightarrow> tracked_request c (f c2)"
  shows "tracks c (bind_outcome (offer ok p tk c1) (\<lambda>c2. Done (t, f c2)))"
  using assms tracked_offer[of ok p tk c1 _ c] offer_ids[of ok p tk c1]
  by (auto simp: tracks_def started_def bind_outcome_Done_iff)

lemma tracks_get_id:
  assumes "client_inv c" and "started c False c1" and "packet_ids c1 = packet_ids c" and "token_addr tk = next_addr c"
    and "\<And>r. started c (fst r \<noteq> 0) (c1\<lparr>packet_ids := snd r\<rparr>) \<Longrightarrow> tracks c (f r)"
  shows "tracks c (bind_outcome (get_id checks tk (packet_ids c1)) f)"
proof (cases "get_id checks tk (packet_ids c1)")
  case Panic
  then show ?thesis by (simp add: tracks_def)
next
  case (Done r)
  obtain i ids where r: "r = (i, ids)" by (cases r)
  have "pid_ok (packet_ids c1)" using assms(1,3) by (simp add: client_inv_def state_inv_def)
  from get_id_bound[OF this Done[unfolded r]] have "started c (fst r \<noteq> 0) (c1\<lparr>packet_ids := snd r\<rparr>)"
    using assms(2-4) r by (auto simp: started_def)
  with assms(5) Done show ?thesis by simp
qed

lemma started_unsubscribe_loop:
  "unsubscribe_loop K topics a c2 = (r, c3) \<Longrightarrow> started c b c2 \<Longrightarrow> started c b c3"
  using unsubscribe_loop_frame[of K topics a c2 r c3] by (simp add: started_def)

lemma started_starts:
  "started c False (subscribe_start c)" "started c False (unsubscribe_start c)"
  by (simp_all add: started_def subscribe_start_def unsubscribe_start_def tok_simps)

lemma unsubscribe_start_ids: "packet_ids (unsubscribe_start c) = packet_ids c"
  by (simp add: unsubscribe_start_def)

lemma tracked_add_subs:
  "tracked_request c c2 \<Longrightarrow> next_addr c \<in> bound_tokens (packet_ids c2) \<Longrightarrow>
     tracked_request c (add_subscriptions subs (next_addr c) c2)"
  by (simp add: add_subscriptions_def tracked_map_data)

lemma tracks_subscribe: "client_inv c \<Longrightarrow> tracks c (subscribe K ok topic q callback c)"
  unfolding subscribe_eq Let_def
  by (auto intro!: tracks_get_id tracks_offer started_starts tracked_add_subs subscribe_start_view(1)
      intro: tracks_error tracks_error[OF started_starts(1)] simp del: subscribe_start_view split: option.split)

lemma tracks_subscribe_multiple: "client_inv c \<Longrightarrow> tracks c (subscribe_multiple K ok topics callback c)"
  unfolding subscribe_multiple_eq Let_def
  by (auto intro!: tracks_get_id tracks_offer started_starts tracked_add_subs subscribe_start_view(1)
      intro: tracks_error tracks_error[OF started_starts(1)] simp del: subscribe_start_view split: option.split)

lemma tracks_unsubscribe_loop:
  assumes "started c True c2"
  shows "tracks c (case unsubscribe_loop K topics (next_addr c) c2 of
      (None, c3) \<Rightarrow> Done (next_addr c, tok_set_error InvalidTopic (next_addr c) c3)
    | (Some tfs, c3) \<Rightarrow>
        bind_outcome (offer ok (UnsubscribePacket i tfs) (Unsubscribe (next_addr c)) c3)
          (\<lambda>c4. Done (next_addr c, c4)))"
proof -
  obtain r c3 where run: "unsubscribe_loop K topics (next_addr c) c2 = (r, c3)"
    by (cases "unsubscribe_loop K topics (next_addr c) c2")
  from tracks_error[OF started_unsubscribe_loop[OF run assms]]
    tracks_offer[OF started_unsubscribe_loop[OF run assms], of "Unsubscribe (next_addr c)" "\<lambda>c. c"] run
  show ?thesis by (cases r) simp_all
qed

lemma tracks_unsubscribe: "client_inv c \<Longrightarrow> tracks c (unsubscribe K ok topics c)"
  unfolding unsubscribe_eq Let_def
  by (auto intro!: tracks_get_id tracks_unsubscribe_loop started_starts unsubscribe_start_ids
      intro: tracks_error tracks_error[OF started_starts(2)])

lemma tracked_do_request:
  assumes "client_inv c" and "do_request K req ok c = Done (t, c')"
  shows "tracked_request c c'"
  using assms(2) tracked_disconnect tracked_publish[OF assms(1)] tracks_subscribe[OF assms(1)]
    tracks_subscribe_multiple[OF assms(1)] tracks_unsubscribe[OF assms(1)]
  by (cases req) (auto simp: tracks_def)

subsection \<open>What the tasks keep\<close>

definition keeps_account :: "('c, 'a) state_scheme \<Rightarrow> ('c, 'a) state_scheme \<Rightarrow> bool" where
  "keeps_account s s' \<longleftrightarrow>
     (\<forall>a. (tok_live s' a \<longrightarrow> tok_live s a) \<and> (tok_done s a \<longrightarrow> tok_done s' a) \<and>
       publish_qos s' a = publish_qos s a \<and>
       (a \<in> bound_tokens (packet_ids s) \<longrightarrow> a \<in> bound_tokens (packet_ids s') \<or> tok_done s' a))"

lemma keeps_account_refl [simp]: "keeps_account s s"
  by (simp add: keeps_account_def)

lemma bound_after_free:
  assumes "a \<in> bound_tokens ids" and "a \<notin> bound_tokens (free_id i ids)"
  shows "\<exists>t. get_token i ids = Some t \<and> token_addr t = a"
proof -
  obtain t j where t: "get_token j ids = Some t" "token_addr t = a"
    using assms(1) by (auto simp: bound_tokens_def)
  have "j = i"
  proof (rule ccontr)
    assume "j \<noteq> i"
    with t(1) have "get_token j (free_id i ids) = Some t" by (simp add: get_token_def free_id_def)
    with t(2) assms(2) show False by (auto dest: bound_tokensI)
  qed
  with t show ?thesis by blast
qed

lemma bound_live: "state_inv s \<Longrightarrow> get_token i (packet_ids s) = Some t \<Longrightarrow> tok_live s (token_addr t)"
  by (rule token_typed_live) (rule state_invD(5))

lemma keeps_account_handlers:
  assumes "state_inv s"
  shows "keeps_account s (handle_puback i s)" "keeps_account s (handle_pubcomp i s)"
    "keeps_account s (handle_suback i codes s)" "keeps_account s (handle_unsuback i s)"
  using bound_after_free[of _ "packet_ids s" i] bound_live[OF assms, of i] tok_done_live[of s]
  by (auto simp: keeps_account_def handle_puback_def handle_pubcomp_def handle_suback_def handle_unsuback_def
      tok_simps split: option.split token.split) blast+

lemma keeps_account_pubrel: "keeps_account s (snd (handle_pubrel K i s))"
  by (auto simp: keeps_account_def handle_pubrel_def split_beta Let_def tok_view_cells[of "spawn_handlers _ _ _" "_"]
      split: option.split)

lemma keeps_account_publish: "handle_publish K q s = Done (r, s') \<Longrightarrow> keeps_account s s'"
  by (auto simp: keeps_account_def handle_publish_def split_beta Let_def bind_outcome_Done_iff
      tok_view_cells[of "spawn_handlers _ _ _" "_"] split: quality_of_service.splits)

lemma keeps_account_dispatch:
  "dispatch_packet K p s = Done (d, s') \<Longrightarrow> state_inv s \<Longrightarrow> keeps_account s s'"
  using keeps_account_pubrel[of s K]
  by (cases p) (auto simp: bind_outcome_Done_iff keeps_account_handlers split_beta dest: keeps_account_publish)

lemma keeps_account_finish: "keeps_account c (finish_connect sp t c)"
proof -
  have "publish_qos (c\<lparr>connect_status := x, manual_disconnect := y\<rparr>) a = publish_qos c a" for x y a
    by (simp add: publish_qos_def data_at_def)
  then show ?thesis
    using tok_done_live[of c]
    by (auto simp: keeps_account_def finish_connect_def Let_def tok_simps)
qed

lemma keeps_account_over:
  assumes "client_inv c"
  shows "keeps_account c (connection_over c)"
proof -
  have "publish_qos (connection_over c) a = publish_qos c a" for a
    by (cases "cells c a") (simp_all add: publish_qos_def data_at_def connection_over_view settle_lost_def)
  then show ?thesis
    using connection_over_done(1)[OF assms] by (auto simp: keeps_account_def connection_over_view tok_live_def)
qed

lemma keeps_account_written:
  assumes "write_step e s = (going, out, s')"
  shows "keeps_account s s'"
proof -
  have "keeps_account s (complete_written t (s\<lparr>last_sent_packet_at := now\<rparr>))" for t now
    using tok_done_live[of s]
    by (auto simp: keeps_account_def complete_written_def tok_simps split: option.split token.split)
  with assms tok_done_live[of s] show ?thesis
    by (elim write_stepE) (auto simp: keeps_account_def tok_simps split: option.splits)
qed

text \<open>The packet of a token the write completes does so, or its error does.\<close>

lemma written_completes:
  assumes "write_step (OutRecv (Some pt) r) s = (going, out, s')" and "pt_token pt = Some tk"
    and "completes_on_write s tk" and "tok_live s (token_addr tk)"
  shows "tok_done s' (token_addr tk)"
  using assms
  by (cases r; cases tk)
    (auto simp: complete_written_def completes_on_write_def tok_simps split: if_splits)

subsection \<open>The invariant along a connection\<close>

definition in_hand :: "'c link \<Rightarrow> packet_and_token list" where
  "in_hand l = (case writer l of WritingOut pt \<Rightarrow> [pt] | _ \<Rightarrow> []) @ queued l"

definition tracked :: "'c link \<Rightarrow> addr \<Rightarrow> bool" where
  "tracked l a \<longleftrightarrow>
     tok_done (link_client l) a \<or> a \<in> bound_tokens (packet_ids (link_client l)) \<or>
     (\<exists>pt \<in> set (in_hand l). \<exists>tk. pt_token pt = Some tk \<and> token_addr tk = a \<and>
        completes_on_write (link_client l) tk)"

definition all_tracked :: "addr \<Rightarrow> 'c link \<Rightarrow> bool" where
  "all_tracked n l \<longleftrightarrow> (\<forall>a. n \<le> a \<and> tok_live (link_client l) a \<longrightarrow> tracked l a)"

lemma tracked_task:
  assumes "tracked l a" and "tok_live (link_client l') a" and "keeps_account (link_client l) (link_client l')"
    and "\<And>pt tk. pt \<in> set (in_hand l) \<Longrightarrow> pt_token pt = Some tk \<Longrightarrow> completes_on_write (link_client l) tk \<Longrightarrow>
      tok_live (link_client l) (token_addr tk) \<Longrightarrow>
      pt \<in> set (in_hand l') \<or> tok_done (link_client l') (token_addr tk)"
  shows "tracked l' a"
proof -
  have qos: "completes_on_write (link_client l') tk = completes_on_write (link_client l) tk" for tk
    using assms(3) by (intro completes_on_write_data) (simp add: keeps_account_def)
  have live: "tok_live (link_client l) a" using assms(2,3) by (simp add: keeps_account_def)
  from assms(1) consider "tok_done (link_client l) a" | "a \<in> bound_tokens (packet_ids (link_client l))"
    | pt tk where "pt \<in> set (in_hand l)" "pt_token pt = Some tk" "token_addr tk = a"
        "completes_on_write (link_client l) tk"
    unfolding tracked_def by blast
  then show ?thesis
  proof cases
    case 3
    with assms(4)[OF 3(1,2,4)] live qos show ?thesis by (auto simp: tracked_def)
  qed (use assms(3) in \<open>auto simp: keeps_account_def tracked_def\<close>)
qed

lemma in_hand_client: "outgoing c = outgoing (link_client l) \<Longrightarrow> in_hand (l\<lparr>link_client := c\<rparr>) = in_hand l"
  by (simp add: in_hand_def queued_def split: writer_status.split)

lemma in_hand_read: "in_hand (read_frame K f l) = in_hand l"
proof -
  have "queued (read_frame K f l) = queued l"
    by (auto simp: read_frame_def queued_def dest: dispatch_outgoing
        split: frame.split outcome.split prod.split dispatch.split)
  then show ?thesis by (simp add: in_hand_def)
qed

lemma all_tracked_request:
  assumes "all_tracked n l" and "channels_ok l" and "client_inv (link_client l)"
    and "do_request K req ok (link_client l) = Done (t, c)"
  shows "all_tracked n (l\<lparr>link_client := c\<rparr>)"
  unfolding all_tracked_def
proof (intro allI impI)
  fix a assume a: "n \<le> a \<and> tok_live (link_client (l\<lparr>link_client := c\<rparr>)) a"
  let ?c = "link_client l"
  have post: "untouched ?c c" "\<exists>pts. outgoing c = outgoing ?c @ pts"
    using req.post[OF assms(3,4)]
    by (auto simp: request_post_def settled_request_def sent_request_def)
  from post(2) obtain pts where pts: "outgoing c = outgoing ?c @ pts" by blast
  note tracked = tracked_do_request[OF assms(3,4)]
  have queue: "queued (l\<lparr>link_client := c\<rparr>) = queued l @ pts"
    using assms(2) pts by (auto simp: queued_def channels_ok_def accounted_def)
  then have hand: "in_hand (l\<lparr>link_client := c\<rparr>) = in_hand l @ pts"
    by (simp add: in_hand_def)
  show "tracked (l\<lparr>link_client := c\<rparr>) a"
  proof (cases "a = next_addr ?c")
    case True
    with tracked pts hand show ?thesis by (auto simp: tracked_def tracked_request_def)
  next
    case False
    then have cell: "cells c a = cells ?c a" using post(1) by (simp add: untouched_def)
    have qos: "completes_on_write c tk = completes_on_write ?c tk" if "token_addr tk = a" for tk
      using that cell by (cases tk) (simp_all add: completes_on_write_def publish_qos_def data_at_def)
    have "tok_live ?c a" "tok_done c a = tok_done ?c a" using a cell by (simp_all add: tok_view_defs)
    with assms(1) a tracked qos hand show ?thesis
      unfolding all_tracked_def tracked_def tracked_request_def by fastforce
  qed
qed

text \<open>The client's side of a step that is not a request.\<close>

lemma link_step_clientE:
  assumes "link_step K ev l = Done (Some l')" and "\<nexists>req. ev = Request req"
  obtains (same) "ev \<noteq> Finish" "ev \<noteq> Supervise" "link_client l' = link_client l"
    | (read) p d where "ev \<noteq> Finish" "ev \<noteq> Supervise" "dispatch_packet K p (link_client l) = Done (d, link_client l')"
        "ev = ReadFrame (Frame p)"
    | (wrote) e going out where "ev \<noteq> Finish" "ev \<noteq> Supervise"
        "write_step e (link_client l) = (going, out, link_client l')"
        "outgoing (link_client l') = outgoing (link_client l)" "\<exists>r. ev = WriteReturns r"
    | (pinged) ok where "ev \<noteq> Finish" "ev \<noteq> Supervise"
        "link_client l' = send_outgoing ok (packet_and_token_new PingreqPacket) (link_client l)"
    | (finished) sp t where "ev = Finish" "link_client l' = finish_connect sp t (link_client l)"
    | (ended) "ev = Supervise" "link_client l' = connection_over (link_client l)"
proof (cases ev)
  case (ReadFrame f)
  with assms(1) have l': "l' = read_frame K f l" by (auto split: if_splits)
  show ?thesis
  proof (cases "\<exists>p r. f = Frame p \<and> dispatch_packet K p (link_client l) = Done r")
    case True
    then obtain p d c where "f = Frame p" "dispatch_packet K p (link_client l) = Done (d, c)" by auto
    with l' ReadFrame read[of p d] show ?thesis by simp
  next
    case False
    then have "link_client l' = link_client l" by (auto simp: l' split: frame.split outcome.split)
    with ReadFrame same show ?thesis by simp
  qed
next
  case (WriteReturns r)
  with assms(1) write_returns_client[of r l l'] wrote show ?thesis by auto
next
  case (PingTick now now2)
  with assms(1) have "ping_tick now now2 l = Some l'" by simp
  then have "link_client l' = link_client l \<or>
      (\<exists>ok. link_client l' = send_outgoing ok (packet_and_token_new PingreqPacket) (link_client l))"
    by (cases rule: ping_tickE) (auto dest!: keep_alive_step_effect)
  with PingTick same pinged show ?thesis by blast
next
  case Finish
  with assms(1) finished show ?thesis by (auto simp: finish_link_def split: option.splits)
next
  case Supervise
  with assms(1) ended show ?thesis by (auto simp: supervise_def split: if_splits)
next
  case (Request req)
  with assms(2) show ?thesis by simp
next
  case SendResponse
  with assms(1) take_client(1)[of l l'] show ?thesis by (intro same) simp_all
next
  case TakeMessage
  with assms(1) take_client(2)[of l l'] show ?thesis by (intro same) simp_all
next
  case TakeOutgoing
  with assms(1) take_client(3)[of l l'] show ?thesis by (intro same) simp_all
qed

lemma keeps_account_link:
  assumes "link_step K ev l = Done (Some l')" and "client_inv (link_client l)" and "\<nexists>req. ev = Request req"
  shows "keeps_account (link_client l) (link_client l')"
  using assms(1,3)
proof (cases rule: link_step_clientE)
  case (read p d)
  from keeps_account_dispatch[OF read(3) client_invD[OF assms(2)]] show ?thesis .
next
  case (wrote e going out)
  from keeps_account_written[OF wrote(3)] show ?thesis .
next
  case (pinged ok)
  then show ?thesis by (simp add: keeps_account_def)
qed (simp_all add: keeps_account_finish keeps_account_over assms(2))

text \<open>No step loses a packet: it stays in the channel or in the writer's hands until a write returns.\<close>

lemma in_hand_step:
  assumes "link_step K ev l = Done (Some l')" and "channels_ok l" and "\<nexists>req. ev = Request req"
  shows "(\<exists>pts. in_hand l' = in_hand l @ pts \<and> (\<forall>pt \<in> set pts. pt_token pt = None)) \<or>
    (\<exists>pt r. writer l = WritingOut pt \<and> ev = WriteReturns r \<and> in_hand l = pt # in_hand l')"
proof (cases ev)
  case (ReadFrame f)
  with assms(1) have "l' = read_frame K f l" by (auto split: if_splits)
  then show ?thesis by (simp add: in_hand_read)
next
  case SendResponse
  with assms(1) have "in_hand l' = in_hand l"
    by (auto simp: send_response_def in_hand_def queued_def split: reader_status.splits if_splits)
  then show ?thesis by simp
next
  case TakeMessage
  with assms(1) have "in_hand l' = in_hand l"
    by (auto simp: take_message_def in_hand_def queued_def split: if_splits list.splits)
  then show ?thesis by simp
next
  case TakeOutgoing
  with assms(1) have "in_hand l' = in_hand l"
    by (auto simp: take_outgoing_def in_hand_def queued_def split: if_splits list.splits dest: take_next)
  then show ?thesis by simp
next
  case (WriteReturns r)
  with assms(1) have w: "write_returns r l = Some l'" by simp
  from write_returns_client[OF w] have "outgoing (link_client l') = outgoing (link_client l)" by blast
  then have "queued l' = queued l"
    using w by (auto simp: queued_def write_returns_def split: writer_status.splits prod.splits)
  then show ?thesis
    using w WriteReturns
    by (auto simp: in_hand_def write_returns_def split: writer_status.splits prod.splits if_splits)
next
  case (PingTick now now2)
  with assms(1) have "ping_tick now now2 l = Some l'" by simp
  then show ?thesis
  proof (cases rule: ping_tickE)
    case (ticked act c)
    with keep_alive_step_effect[OF ticked(1)] assms(2) show ?thesis
      by (auto simp: in_hand_def queued_def channels_ok_def accounted_def packet_and_token_new_def
          send_outgoing_def)
  qed (simp add: in_hand_def queued_def)
next
  case Finish
  with assms(1) have "in_hand l' = in_hand l"
    by (auto simp: finish_link_def in_hand_def queued_def split: option.splits)
  then show ?thesis by simp
next
  case Supervise
  with assms(1) have "in_hand l' = in_hand l"
    by (auto simp: supervise_def in_hand_def queued_def connection_over_view split: if_splits)
  then show ?thesis by simp
qed (use assms(3) in simp)

lemma tracked_step:
  assumes "link_step K ev l = Done (Some l')" and "link_ok l" and "\<nexists>req. ev = Request req"
    and "tracked l a" and "tok_live (link_client l') a"
  shows "tracked l' a"
proof (rule tracked_task[OF assms(4,5) keeps_account_link[OF assms(1) _ assms(3)]])
  show "client_inv (link_client l)" using assms(2) by (simp add: link_ok_def)
  have ok: "channels_ok l" using assms(2) by (simp add: link_ok_def)
  fix pt tk assume pt: "pt \<in> set (in_hand l)" "pt_token pt = Some tk"
    "completes_on_write (link_client l) tk" "tok_live (link_client l) (token_addr tk)"
  from in_hand_step[OF assms(1) ok assms(3)] pt(1) consider "pt \<in> set (in_hand l')"
    | r where "writer l = WritingOut pt" "ev = WriteReturns r"
    by auto
  then show "pt \<in> set (in_hand l') \<or> tok_done (link_client l') (token_addr tk)"
  proof cases
    case 2
    with assms(1) obtain going out where
      "write_step (OutRecv (Some pt) r) (link_client l) = (going, out, link_client l')"
      by (auto simp: write_returns_def split: prod.splits)
    from written_completes[OF this pt(2-4)] show ?thesis ..
  qed simp
qed

lemma all_tracked_step:
  assumes "link_step K ev l = Done (Some l')" and "link_ok l" and "all_tracked n l"
  shows "all_tracked n l'"
proof (cases "\<exists>req. ev = Request req")
  case True
  then obtain req where "ev = Request req" by blast
  with assms(1) have "link_request K req l = Done (Some l')" by simp
  then show ?thesis
    by (cases rule: link_requestE) (use all_tracked_request[OF assms(3)] assms(2) in \<open>simp add: link_ok_def\<close>)
next
  case False
  have "client_inv (link_client l)" using assms(2) by (simp add: link_ok_def)
  from keeps_account_link[OF assms(1) this False] show ?thesis
    using assms(3) tracked_step[OF assms(1,2) False] by (auto simp: all_tracked_def keeps_account_def)
qed

lemma all_tracked_run:
  "link_run K l evs l' \<Longrightarrow> link_ok l \<Longrightarrow> all_tracked n l \<Longrightarrow> all_tracked n l'"
  by (induction rule: link_run.induct) (blast intro: all_tracked_step dest: link_run_ok)+

lemma all_tracked_open: "client_inv c \<Longrightarrow> all_tracked (next_addr c) (link_open sp t c)"
  by (auto simp: all_tracked_def link_open_def client_inv_def state_inv_def heap_ok_def)

text \<open>
  No request of a connection is forgotten: whatever the tasks, the caller and the server have done, a token handed out since the
  connection began that would still keep its caller waiting either has a packet identifier in the table, so that the
  server's answer or the end of the connection settles it, or its packet is in the outgoing
  channel or being written, and the write settles it.
\<close>

lemma no_request_is_forgotten:
  assumes "client_inv c" and "outgoing_tx c \<noteq> None" and "outgoing c = []"
    and "link_run K (link_open sp t c) evs l"
    and "next_addr c \<le> a" and "tok_live (link_client l) a" and "fst (tok_poll a w (link_client l)) = Pending"
  shows "(\<exists>i tk. get_token i (packet_ids (link_client l)) = Some tk \<and> token_addr tk = a) \<or>
    (\<exists>pt tk. (writer l = WritingOut pt \<or> pt \<in> set (queued l)) \<and> pt_token pt = Some tk \<and> token_addr tk = a \<and>
      (publish_qos (link_client l) a = Some Level0 \<or> tk = Disconnect a))"
proof -
  have "all_tracked (next_addr c) l"
    by (rule all_tracked_run[OF assms(4) link_ok_open[OF assms(1-3)] all_tracked_open[OF assms(1)]])
  moreover have "\<not> tok_done (link_client l) a" using assms(7) by (simp add: tok_simps split: if_splits)
  ultimately consider "a \<in> bound_tokens (packet_ids (link_client l))"
    | pt tk where "pt \<in> set (in_hand l)" "pt_token pt = Some tk" "token_addr tk = a"
        "completes_on_write (link_client l) tk"
    using assms(5,6) unfolding all_tracked_def tracked_def by blast
  then show ?thesis
  proof cases
    case 2
    then have "publish_qos (link_client l) a = Some Level0 \<or> tk = Disconnect a"
      by (cases tk) (auto simp: completes_on_write_def)
    moreover have "writer l = WritingOut pt \<or> pt \<in> set (queued l)"
      using 2(1) by (auto simp: in_hand_def split: writer_status.splits)
    ultimately show ?thesis using 2 by blast
  qed (auto simp: bound_tokens_def)
qed

subsection \<open>Witness\<close>

end
