(* ===== verification/Request_Steps.thy ===== *)
theory Request_Steps
  imports Client_Connect
begin

section \<open>Requests in atomic steps\<close>

text \<open>
  The requests of \<^verbatim>\<open>src/src/client.rs\<close> between the locks they take. Other tasks run between the read of
  the status, the search for an identifier, the construction of the packet, the hand-over to the
  outgoing channel and the registration of the subscriptions. A request under way is its kind,
  its token and the point it has reached; \<open>do_request\<close> is what the steps do when nothing comes
  in between.
\<close>

datatype request_pc =
    Checking
  | TakingId
  | PreparingPublish qos_with_packet_identifier
  | Preparing u16
  | Offering variable_packet token "subscription list option"
  | Registering "subscription list"
  | Returned

text \<open>The token a request allocates, and its kind in the identifier table.\<close>

fun request_begin :: "request \<Rightarrow> 'c mqtt_client \<Rightarrow> 'c mqtt_client" where
  "request_begin ReqDisconnect c = snd (new_token DisconnectData c)"
| "request_begin (ReqPublish topic q retained payload) c =
     publish_set_qos q (next_addr c) (snd (new_token publish_default c))"
| "request_begin (ReqSubscribe topic q callback) c = snd (new_token subscribe_default c)"
| "request_begin (ReqSubscribeMultiple topics callback) c = snd (new_token subscribe_default c)"
| "request_begin (ReqUnsubscribe topics) c = snd (new_token unsubscribe_default c)"

fun request_token :: "request \<Rightarrow> addr \<Rightarrow> token" where
  "request_token ReqDisconnect t = Disconnect t"
| "request_token (ReqPublish topic q retained payload) t = Publish t"
| "request_token (ReqSubscribe topic q callback) t = Subscribe t"
| "request_token (ReqSubscribeMultiple topics callback) t = Subscribe t"
| "request_token (ReqUnsubscribe topics) t = Unsubscribe t"

text \<open>The search for an identifier; \<open>disconnect\<close> sets its flag here and needs none.\<close>

fun take_id :: "'c libs \<Rightarrow> request \<Rightarrow> addr \<Rightarrow> 'c mqtt_client \<Rightarrow> (request_pc \<times> 'c mqtt_client) outcome" where
  "take_id K ReqDisconnect t c =
     Done (Offering DisconnectPacket (Disconnect t) None, c\<lparr>manual_disconnect := True\<rparr>)"
| "take_id K (ReqPublish topic q retained payload) t c =
     bind_outcome (publish_qos_id K q t c)
       (\<lambda>(qos, c'). Done (case qos of
          None \<Rightarrow> (Returned, tok_set_error PacketIdError t c')
        | Some qos \<Rightarrow> (PreparingPublish qos, c')))"
| "take_id K req t c =
     bind_outcome (get_id (overflow_checks K) (request_token req t) (packet_ids c))
       (\<lambda>(pkid, ids). Done (
          if pkid = 0 then (Returned, tok_set_error PacketIdError t (c\<lparr>packet_ids := ids\<rparr>))
          else (Preparing pkid, c\<lparr>packet_ids := ids\<rparr>)))"

text \<open>The validation of the topics and the packet.\<close>

fun prepare_packet :: "'c libs \<Rightarrow> request \<Rightarrow> addr \<Rightarrow> u16 \<Rightarrow> 'c mqtt_client \<Rightarrow> request_pc \<times> 'c mqtt_client" where
  "prepare_packet K (ReqSubscribe topic q callback) t pkid c =
     (case topic_filter_new K topic of
        None \<Rightarrow> (Returned, tok_set_error InvalidTopic t c)
      | Some tf \<Rightarrow>
          (Offering (SubscribePacket pkid [(tf, q)]) (Subscribe t)
             (Some [subscription_new topic q callback]), c))"
| "prepare_packet K (ReqSubscribeMultiple topics callback) t pkid c =
     (case collect_filters K callback topics of
        None \<Rightarrow> (Returned, tok_set_error InvalidTopic t c)
      | Some (subscribes, subs) \<Rightarrow>
          (Offering (SubscribePacket pkid subscribes) (Subscribe t) (Some subs), c))"
| "prepare_packet K (ReqUnsubscribe topics) t pkid c =
     (case unsubscribe_loop K topics t c of
        (None, c') \<Rightarrow> (Returned, tok_set_error InvalidTopic t c')
      | (Some tfs, c') \<Rightarrow> (Offering (UnsubscribePacket pkid tfs) (Unsubscribe t) None, c'))"
| "prepare_packet K req t pkid c = (Returned, c)"

fun prepare_publish ::
  "'c libs \<Rightarrow> request \<Rightarrow> addr \<Rightarrow> qos_with_packet_identifier \<Rightarrow> 'c mqtt_client \<Rightarrow> request_pc \<times> 'c mqtt_client" where
  "prepare_publish K (ReqPublish topic q retained payload) t qos c =
     (case topic_name_new K topic of
        None \<Rightarrow> (Returned, tok_set_error InvalidTopic t c)
      | Some tn \<Rightarrow> (Offering (PublishPacket (publish_packet_new tn qos payload retained)) (Publish t) None, c))"
| "prepare_publish K req t qos c = (Returned, c)"

text \<open>
  One step; \<open>ok\<close> tells whether the channel took the packet, and is read by the hand-over only.
\<close>

fun request_step ::
  "'c libs \<Rightarrow> bool \<Rightarrow> request \<Rightarrow> addr \<Rightarrow> request_pc \<times> 'c mqtt_client \<Rightarrow> (request_pc \<times> 'c mqtt_client) outcome" where
  "request_step K ok req t (Checking, c) =
     Done (if \<not> is_connected c then (Returned, tok_set_error ConnectionLost t c) else (TakingId, c))"
| "request_step K ok req t (TakingId, c) = take_id K req t c"
| "request_step K ok req t (PreparingPublish qos, c) = Done (prepare_publish K req t qos c)"
| "request_step K ok req t (Preparing pkid, c) = Done (prepare_packet K req t pkid c)"
| "request_step K ok req t (Offering p tk subs, c) =
     bind_outcome (offer ok p tk c)
       (\<lambda>c'. Done (case subs of Some subs \<Rightarrow> Registering subs | None \<Rightarrow> Returned, c'))"
| "request_step K ok req t (Registering subs, c) = Done (Returned, add_subscriptions subs t c)"
| "request_step K ok req t (Returned, c) = Done (Returned, c)"

fun request_steps ::
  "nat \<Rightarrow> 'c libs \<Rightarrow> bool \<Rightarrow> request \<Rightarrow> addr \<Rightarrow> request_pc \<times> 'c mqtt_client \<Rightarrow> (request_pc \<times> 'c mqtt_client) outcome" where
  "request_steps 0 K ok req t s = Done s"
| "request_steps (Suc n) K ok req t s =
     bind_outcome (request_step K ok req t s) (request_steps n K ok req t)"

subsection \<open>Without interruption\<close>

lemma request_steps_Returned [simp]: "request_steps n K ok req t (Returned, c) = Done (Returned, c)"
  by (induction n) simp_all

text \<open>Five steps bring every request to its end, and together they are the operation.\<close>

lemma request_steps_offering:
  "request_steps (Suc (Suc n)) K ok req t (Offering p tk subs, c) =
     bind_outcome (offer ok p tk c)
       (\<lambda>c'. Done (Returned, case subs of Some subs \<Rightarrow> add_subscriptions subs t c' | None \<Rightarrow> c'))"
  by (cases "offer ok p tk c"; cases subs) simp_all

lemma request_begin_status [simp]: "is_connected (request_begin req c) = is_connected c"
  by (cases req) simp_all

lemma request_starts:
  "publish_start q c = request_begin (ReqPublish topic q retained payload) c"
  "subscribe_start c = request_begin (ReqSubscribe topic q callback) c"
  "subscribe_start c = request_begin (ReqSubscribeMultiple topics callback) c"
  "unsubscribe_start c = request_begin (ReqUnsubscribe ts) c"
  by (simp_all add: publish_start_def subscribe_start_def unsubscribe_start_def)

lemma request_steps_checking:
  "request_steps (Suc n) K ok req t (Checking, c) =
     (if is_connected c then request_steps n K ok req t (TakingId, c)
      else Done (Returned, tok_set_error ConnectionLost t c))"
  by simp

lemma request_steps_taking:
  "request_steps (Suc n) K ok req t (TakingId, c) = bind_outcome (take_id K req t c) (request_steps n K ok req t)"
  by simp

lemma request_steps_preparing:
  "request_steps (Suc n) K ok req t (Preparing pkid, c) = request_steps n K ok req t (prepare_packet K req t pkid c)"
  "request_steps (Suc n) K ok req t (PreparingPublish qos, c) = request_steps n K ok req t (prepare_publish K req t qos c)"
  by simp_all

lemmas request_steps_eqs = request_steps_checking request_steps_taking request_steps_preparing
  request_steps_offering

text \<open>Each request on a connected client, with as many steps as it needs at most.\<close>

abbreviation runs_request :: "'c libs \<Rightarrow> bool \<Rightarrow> request \<Rightarrow> 'c mqtt_client \<Rightarrow> bool" where
  "runs_request K ok req c \<equiv>
     request_steps (Suc (Suc (Suc (Suc (Suc 0))))) K ok req (next_addr c) (Checking, request_begin req c) =
       bind_outcome (do_request K req ok c) (\<lambda>r. Done (Returned, snd r))"

lemma runs_publish:
  assumes "is_connected c"
  shows "runs_request K ok (ReqPublish topic q retained payload) c"
proof (cases "publish_qos_id K q (next_addr c) (request_begin (ReqPublish topic q retained payload) c)")
  case Panic
  with assms show ?thesis
    by (simp add: request_steps_eqs publish_eq Let_def publish_start_def del: request_steps.simps)
next
  case (Done r)
  obtain qos c2 where "r = (qos, c2)" by (cases r)
  with Done assms show ?thesis
    by (cases qos; cases "topic_name_new K topic")
      (simp_all add: request_steps_eqs publish_eq Let_def publish_start_def bind_assoc_outcome
        del: request_steps.simps)
qed

lemma runs_subscribe:
  assumes "is_connected c"
  shows "runs_request K ok (ReqSubscribe topic q callback) c"
    and "runs_request K ok (ReqSubscribeMultiple topics callback) c"
  using assms
  by (cases "get_id (overflow_checks K) (Subscribe (next_addr c)) (packet_ids (subscribe_start c))";
      cases "topic_filter_new K topic"; cases "collect_filters K callback topics";
      simp add: request_steps_eqs subscribe_eq subscribe_multiple_eq Let_def subscribe_start_def bind_assoc_outcome
        split_beta del: request_steps.simps)+

lemma runs_unsubscribe:
  assumes "is_connected c"
  shows "runs_request K ok (ReqUnsubscribe topics) c"
proof (cases "get_id (overflow_checks K) (Unsubscribe (next_addr c)) (packet_ids (unsubscribe_start c))")
  case Panic
  with assms show ?thesis
    by (simp add: request_steps_eqs unsubscribe_eq Let_def unsubscribe_start_def del: request_steps.simps)
next
  case (Done r)
  obtain i ids where r: "r = (i, ids)" by (cases r)
  obtain tfs c3 where "unsubscribe_loop K topics (next_addr c) ((unsubscribe_start c)\<lparr>packet_ids := ids\<rparr>) = (tfs, c3)"
    by (cases "unsubscribe_loop K topics (next_addr c) ((unsubscribe_start c)\<lparr>packet_ids := ids\<rparr>)")
  with Done r assms show ?thesis
    by (cases tfs)
      (simp_all add: request_steps_eqs unsubscribe_eq Let_def unsubscribe_start_def bind_assoc_outcome
        del: request_steps.simps)
qed

lemma runs_request_all: "runs_request K ok req c"
proof (cases "is_connected c")
  case False
  then show ?thesis
    by (cases req) (simp_all add: request_eqs Let_def request_steps_checking publish_start_def
        subscribe_start_def unsubscribe_start_def del: request_steps.simps)
next
  case True
  have "runs_request K ok ReqDisconnect c"
    using True by (simp add: request_steps_eqs disconnect_eq Let_def bind_assoc_outcome del: request_steps.simps)
  with runs_publish[OF True] runs_subscribe[OF True] runs_unsubscribe[OF True] show ?thesis
    by (cases req) (simp_all only:)
qed

text \<open>
  The atomic steps of a request are the request: from the state in which its token is allocated, five steps without
  an interruption do what the operation does as a whole, in every branch, whether the channel takes the packet or
  not and panics included.
\<close>

lemma request_steps_are_request:
  "request_steps 5 K ok req (next_addr c) (Checking, request_begin req c) =
     bind_outcome (do_request K req ok c) (\<lambda>r. Done (Returned, snd r))"
proof -
  have "(5 :: nat) = Suc (Suc (Suc (Suc (Suc 0))))" by simp
  with runs_request_all[of K ok req c] show ?thesis by (simp only:)
qed

end
