(* ===== verification/Session.thy ===== *)
theory Session
  imports Accounting Request_Steps
begin

section \<open>A program using the client\<close>

text \<open>
  The whole client at work: a calling program, which owns the \<open>MqttClient\<close> and runs its operations one
  after the other, next to the tasks of the connection. A program is a list of calls, each of which
  awaits the token it gets and then panics on an error or prints it, as the examples do
  (\<^verbatim>\<open>src/examples\<close>). \<open>connect\<close> and \<open>block\<close> open a new connection, a request is taken in its atomic
  steps (\<open>Request_Steps\<close>), and the steps of the tasks (\<open>Connection\<close>) come in between.
\<close>

datatype on_error = PanicOn | PrintOn

datatype call =
    CallConnect on_error
  | CallRequest request on_error
  | CallBlock

text \<open>What the caller goes on with when its token is ready.\<close>

datatype resume =
    ToProgram on_error
  | ToBlock u16
  | ToResubscribe u16 "(string \<times> subscription) list"

datatype caller =
    Running
  | Finishing addr resume
  | InRequest request addr request_pc resume
  | Awaiting addr resume
  | InBlock block_pc u16
  | Exited
  | Aborted token_error

text \<open>
  \<open>epoch\<close> is the first token address of the present connection and \<open>printed\<close> a trace; the rest is
  the state of the program.
\<close>

record 'c session =
  conn :: "'c link"
  caller :: caller
  program :: "call list"
  printed :: "token_error list"
  epoch :: addr

text \<open>Before the first connection there are no tasks.\<close>

definition link_none :: "'c mqtt_client \<Rightarrow> 'c link" where
  "link_none c =
     \<lparr>link_client = c, reader = ReadEnded, writer = WriteEnded, messages = [], taken = 0,
      pinging = False, exit_flag = True, supervising = False, finishing = None,
      answered = [], written = []\<rparr>"

definition session_start :: "'c libs \<Rightarrow> instant \<Rightarrow> client_options \<Rightarrow> call list \<Rightarrow> 'c session" where
  "session_start K now opts calls =
     (let c = mqtt_client_new K now empty_heap opts
      in \<lparr>conn = link_none c, caller = Running, program = calls, printed = [], epoch = next_addr c\<rparr>)"

abbreviation session_client :: "'c session \<Rightarrow> 'c mqtt_client" where
  "session_client s \<equiv> link_client (conn s)"

definition with_client :: "'c mqtt_client \<Rightarrow> 'c session \<Rightarrow> 'c session" where
  "with_client c s = s\<lparr>conn := (conn s)\<lparr>link_client := c\<rparr>\<rparr>"

subsection \<open>connect\<close>

text \<open>
  \<open>connect\<close> up to where it spawns the tasks, if it does: then a new link replaces the old one, whose
  tasks are over. The connection is not finished until the caller's next step.
\<close>

fun connect_accepts :: "connect_status \<Rightarrow> network \<Rightarrow> first_frame \<Rightarrow> (bool \<times> bool) option" where
  "connect_accepts Disconnected (NetOpen sent) (FirstPacket (ConnackPacket ConnectionAccepted session_present)) =
     Some (sent, session_present)"
| "connect_accepts status net first = None"

definition begin_connect ::
  "'c libs \<Rightarrow> network \<Rightarrow> first_frame \<Rightarrow> instant \<Rightarrow> nat \<Rightarrow> resume \<Rightarrow> 'c session \<Rightarrow> 'c session outcome" where
  "begin_connect K net first now ch ret s =
     (let c = session_client s
      in case connect_accepts (connect_status c) net first of
           Some (sent, session_present) \<Rightarrow>
             bind_outcome (build_connect_packet K (options c))
               (\<lambda>calls. Done (s\<lparr>
                  conn := link_open session_present (next_addr c) (adopt_state now ch (awaiting_connack (connect_written sent calls) c)),
                  caller := Finishing (next_addr c) ret,
                  epoch := Suc (next_addr c)\<rparr>))
         | None \<Rightarrow>
             bind_outcome (connect K net first now ch c)
               (\<lambda>(token, c'). Done ((with_client c' s)\<lparr>caller := Awaiting token ret\<rparr>)))"

subsection \<open>Requests\<close>

definition begin_request :: "request \<Rightarrow> resume \<Rightarrow> 'c session \<Rightarrow> 'c session" where
  "begin_request req ret s =
     (with_client (request_begin req (session_client s)) s)
       \<lparr>caller := InRequest req (next_addr (session_client s)) Checking ret\<rparr>"

text \<open>A hand-over waits for room unless the write task has dropped its end of the channel.\<close>

definition must_wait :: "request_pc \<Rightarrow> 'c link \<Rightarrow> bool" where
  "must_wait pc l \<longleftrightarrow>
     (case pc of Offering p tk subs \<Rightarrow> writer l \<noteq> WriteEnded \<and> capacity \<le> length (queued l) | _ \<Rightarrow> False)"

definition advance_request ::
  "'c libs \<Rightarrow> request \<Rightarrow> addr \<Rightarrow> request_pc \<Rightarrow> resume \<Rightarrow> 'c session \<Rightarrow> 'c session option outcome" where
  "advance_request K req t pc ret s =
     (if pc = Returned then Done (Some (s\<lparr>caller := Awaiting t ret\<rparr>))
      else if must_wait pc (conn s) then Done None
      else bind_outcome (request_step K (writer (conn s) \<noteq> WriteEnded) req t (pc, session_client s))
             (\<lambda>(pc', c). Done (Some ((with_client c s)\<lparr>caller := InRequest req t pc' ret\<rparr>))))"

subsection \<open>block\<close>

text \<open>Where \<open>block\<close> has got to; after it the program goes on.\<close>

fun resume_block :: "'c block_state \<Rightarrow> 'c session \<Rightarrow> 'c session" where
  "resume_block (pc, cnt, c) s =
     (with_client c s)\<lparr>caller := (if pc = BlockExit then Running else InBlock pc cnt)\<rparr>"

fun resume_with :: "resume \<Rightarrow> addr \<Rightarrow> token_error option \<Rightarrow> 'c session \<Rightarrow> 'c session" where
  "resume_with (ToProgram e) token None s = s\<lparr>caller := Running\<rparr>"
| "resume_with (ToProgram PanicOn) token (Some err) s = s\<lparr>caller := Aborted err\<rparr>"
| "resume_with (ToProgram PrintOn) token (Some err) s = s\<lparr>caller := Running, printed := printed s @ [err]\<rparr>"
| "resume_with (ToBlock cnt) token err s = resume_block (block_connected err token cnt (session_client s)) s"
| "resume_with (ToResubscribe cnt subs) token err s = s\<lparr>caller := InBlock (Resubscribe subs) cnt\<rparr>"

subsection \<open>Steps\<close>

datatype session_event =
    Task link_event
  | NextCall network first_frame instant nat
  | Advance
  | PollToken waker
  | SleepElapsed
  | Notified network first_frame instant nat

definition next_call ::
  "'c libs \<Rightarrow> network \<Rightarrow> first_frame \<Rightarrow> instant \<Rightarrow> nat \<Rightarrow> 'c session \<Rightarrow> 'c session option outcome" where
  "next_call K net first now ch s =
     (if caller s \<noteq> Running then Done None
      else case program s of
             [] \<Rightarrow> Done (Some (s\<lparr>caller := Exited\<rparr>))
           | CallConnect e # calls \<Rightarrow>
               bind_outcome (begin_connect K net first now ch (ToProgram e) (s\<lparr>program := calls\<rparr>))
                 (\<lambda>s'. Done (Some s'))
           | CallRequest req e # calls \<Rightarrow>
               Done (Some (begin_request req (ToProgram e) (s\<lparr>program := calls\<rparr>)))
           | CallBlock # calls \<Rightarrow>
               Done (Some (resume_block (block_start (session_client s)) (s\<lparr>program := calls\<rparr>))))"

definition advance :: "'c libs \<Rightarrow> 'c session \<Rightarrow> 'c session option outcome" where
  "advance K s =
     (case caller s of
        Finishing t ret \<Rightarrow>
          Done (map_option (\<lambda>l. s\<lparr>conn := l, caller := Awaiting t ret\<rparr>) (finish_link (conn s)))
      | InRequest req t pc ret \<Rightarrow> advance_request K req t pc ret s
      | InBlock (Resubscribe []) cnt \<Rightarrow> Done (Some (resume_block (block_head cnt (session_client s)) s))
      | InBlock (Resubscribe ((topic, sub) # subs)) cnt \<Rightarrow>
          Done (Some (begin_request (ReqSubscribe topic (sub_qos sub) (sub_handler sub)) (ToResubscribe cnt subs) s))
      | _ \<Rightarrow> Done None)"

definition poll_awaited :: "waker \<Rightarrow> 'c session \<Rightarrow> 'c session option" where
  "poll_awaited w s =
     (case caller s of
        Awaiting t ret \<Rightarrow>
          Some (case tok_poll t w (session_client s) of
             (Ready err, c) \<Rightarrow> resume_with ret t err (with_client c s)
           | (Pending, c) \<Rightarrow> with_client c s)
      | _ \<Rightarrow> None)"

definition sleep_elapsed :: "'c session \<Rightarrow> 'c session option" where
  "sleep_elapsed s =
     (case caller s of
        InBlock AtSelect cnt \<Rightarrow> Some (resume_block (block_sleep cnt (session_client s)) s)
      | _ \<Rightarrow> None)"

definition notified ::
  "'c libs \<Rightarrow> network \<Rightarrow> first_frame \<Rightarrow> instant \<Rightarrow> nat \<Rightarrow> 'c session \<Rightarrow> 'c session option outcome" where
  "notified K net first now ch s =
     (case caller s of
        InBlock AtSelect cnt \<Rightarrow>
          if notify_permit (session_client s)
          then if overflow_checks K \<and> cnt = 65535 then Panic
               else bind_outcome
                 (begin_connect K net first now ch (ToBlock (cnt + 1))
                   (with_client ((session_client s)\<lparr>notify_permit := False\<rparr>) s))
                 (\<lambda>s'. Done (Some s'))
          else Done None
      | _ \<Rightarrow> Done None)"

text \<open>The caller's own steps are not a task's.\<close>

fun task_event :: "link_event \<Rightarrow> bool" where
  "task_event Finish = False"
| "task_event (Request req) = False"
| "task_event ev = True"

fun session_step :: "'c libs \<Rightarrow> session_event \<Rightarrow> 'c session \<Rightarrow> 'c session option outcome" where
  "session_step K (Task ev) s =
     (if task_event ev
      then bind_outcome (link_step K ev (conn s)) (\<lambda>r. Done (map_option (\<lambda>l. s\<lparr>conn := l\<rparr>) r))
      else Done None)"
| "session_step K (NextCall net first now ch) s = next_call K net first now ch s"
| "session_step K Advance s = advance K s"
| "session_step K (PollToken w) s = Done (poll_awaited w s)"
| "session_step K SleepElapsed s = Done (sleep_elapsed s)"
| "session_step K (Notified net first now ch) s = notified K net first now ch s"

inductive session_run :: "'c libs \<Rightarrow> 'c session \<Rightarrow> session_event list \<Rightarrow> 'c session \<Rightarrow> bool" for K where
  session_refl: "session_run K s [] s"
| session_next: "session_run K s evs s1 \<Longrightarrow> session_step K ev s1 = Done (Some s2) \<Longrightarrow> session_run K s (evs @ [ev]) s2"


subsection \<open>Running a list of events\<close>

lemma session_run_append:
  "session_run K s1 evs' s2 \<Longrightarrow> session_run K s evs s1 \<Longrightarrow> session_run K s (evs @ evs') s2"
  by (induction rule: session_run.induct) (auto simp flip: append_assoc intro: session_next)

lemma session_run_Cons:
  assumes "session_step K ev s = Done (Some s1)" and "session_run K s1 evs s2"
  shows "session_run K s (ev # evs) s2"
  using session_run_append[OF assms(2) session_next[OF session_refl assms(1)]] by simp

fun session_play :: "'c libs \<Rightarrow> session_event list \<Rightarrow> 'c session \<Rightarrow> 'c session option outcome" where
  "session_play K [] s = Done (Some s)"
| "session_play K (ev # evs) s =
     bind_outcome (session_step K ev s) (\<lambda>r. case r of None \<Rightarrow> Done None | Some s' \<Rightarrow> session_play K evs s')"

lemma session_playI: "session_play K evs s = Done (Some s') \<Longrightarrow> session_run K s evs s'"
proof (induction evs arbitrary: s)
  case (Cons ev evs)
  then obtain s1 where "session_step K ev s = Done (Some s1)" "session_play K evs s1 = Done (Some s')"
    by (auto simp: bind_outcome_Done_iff simp del: session_step.simps split: option.splits)
  with Cons.IH session_run_Cons show ?case by blast
qed (simp add: session_run.session_refl)

abbreviation accepting :: "nat \<Rightarrow> session_event" where
  "accepting ch \<equiv> NextCall (NetOpen True) (FirstPacket (ConnackPacket ConnectionAccepted False)) 0 ch"

text \<open>A program that publishes once at level 0, on a connection whose server goes away before the write.\<close>

definition sample_session :: "(u16 \<Rightarrow> publish_packet option) session" where
  "sample_session = session_start sample_libs 0 options_new
     [CallConnect PanicOn, CallRequest (ReqPublish ''a/b'' Level0 False [7]) PrintOn]"

lemmas session_play_defs = session_start_def link_none_def mqtt_client_new_def state_new_def empty_heap_def
  state.extend_def heap.extend_def next_call_def begin_connect_def build_connect_packet_def
  awaiting_connack_def connect_written_def set_connect_status_def connect_start_def new_token_def connect_default_def inner_default_def
  state_default_def adopt_state_def link_open_def advance_def finish_link_def finish_connect_def
  tok_flow_complete_def poll_awaited_def tok_poll_def with_client_def begin_request_def advance_request_def
  must_wait_def is_connected_def publish_default_def publish_set_qos_def map_data_def publish_qos_id_def
  publish_packet_new_def offer_def send_outgoing_def packet_and_token_new_with_def read_frame_def take_message_def take_outgoing_def
  reader_over_def queued_def taken_waker_def write_returns_def complete_written_def publish_qos_def data_at_def
  capacity_def

lemma sample_session_options: "build_connect_packet sample_libs options_new \<noteq> Panic"
  by (simp add: build_connect_packet_def options_new_def options_default_def Let_def)

end
