(* ===== verification/Request_Invariant.thy ===== *)
theory Request_Invariant
  imports Accounting Request_Steps
begin

section \<open>What holds of a request under way\<close>

text \<open>
  The invariant of a request between its steps (\<open>Request_Steps\<close>): its token is of its kind, it holds an
  identifier or needs none, and the packet it is about to hand over fits its token. The steps of the
  tasks of \<^verbatim>\<open>src/src/net.rs\<close> in between keep it.
\<close>

subsection \<open>Packets and tokens that fit\<close>

fun level_of :: "qos_with_packet_identifier \<Rightarrow> quality_of_service" where
  "level_of QLevel0 = Level0"
| "level_of (QLevel1 i) = Level1"
| "level_of (QLevel2 i) = Level2"

fun qos_id_ok :: "qos_with_packet_identifier \<Rightarrow> bool" where
  "qos_id_ok QLevel0 = True"
| "qos_id_ok (QLevel1 i) = (i \<noteq> 0)"
| "qos_id_ok (QLevel2 i) = (i \<noteq> 0)"

text \<open>The kind of packet each kind of token goes with; the level of a publish is also in its token.\<close>

fun packet_fits :: "'a heap_scheme \<Rightarrow> token option \<Rightarrow> variable_packet \<Rightarrow> bool" where
  "packet_fits h None p = (p = PingreqPacket)"
| "packet_fits h (Some (Connect t)) p = False"
| "packet_fits h (Some (Disconnect t)) p = (p = DisconnectPacket)"
| "packet_fits h (Some (Publish t)) p =
     (case p of PublishPacket q \<Rightarrow> qos_id_ok (pp_qos q) \<and> publish_qos h t = Some (level_of (pp_qos q)) | _ \<Rightarrow> False)"
| "packet_fits h (Some (Subscribe t)) p = (case p of SubscribePacket i fs \<Rightarrow> i \<noteq> 0 | _ \<Rightarrow> False)"
| "packet_fits h (Some (Unsubscribe t)) p = (case p of UnsubscribePacket i ts \<Rightarrow> i \<noteq> 0 | _ \<Rightarrow> False)"

definition handed_typed :: "'a heap_scheme \<Rightarrow> packet_and_token \<Rightarrow> bool" where
  "handed_typed h pt \<longleftrightarrow>
     packet_fits h (pt_token pt) (pt_packet pt) \<and> (\<forall>tk. pt_token pt = Some tk \<longrightarrow> token_typed h tk)"

lemma packet_fits_qos:
  "(\<And>a. publish_qos h' a = publish_qos h a) \<Longrightarrow> packet_fits h' tk p = packet_fits h tk p"
  by (induction h tk p rule: packet_fits.induct) (simp_all split: variable_packet.split)

lemma handed_typed_mono:
  assumes "handed_typed h pt" and "\<And>tk. token_typed h tk \<Longrightarrow> token_typed h' tk"
    and "\<And>a. tok_live h a \<Longrightarrow> publish_qos h' a = publish_qos h a"
  shows "handed_typed h' pt"
proof -
  obtain tk where tk: "pt_token pt = tk" by blast
  have "packet_fits h' tk (pt_packet pt)" if "packet_fits h tk (pt_packet pt)" "\<And>u. tk = Some u \<Longrightarrow> token_typed h u"
    using that(1) that(2)[THEN token_typed_live] assms(3)
    by (cases "(h, tk, pt_packet pt)" rule: packet_fits.cases) (auto split: variable_packet.splits)
  with tk assms(1,2) show ?thesis by (auto simp: handed_typed_def)
qed

subsection \<open>The invariant\<close>

text \<open>Something settles the token: it is in the table, settled already, or its write completes it.\<close>

definition covered :: "('c, 'a) state_scheme \<Rightarrow> token \<Rightarrow> bool" where
  "covered c tk \<longleftrightarrow>
     completes_on_write c tk \<or> token_addr tk \<in> bound_tokens (packet_ids c) \<or> tok_done c (token_addr tk)"

fun kind_fits :: "'a heap_scheme \<Rightarrow> request \<Rightarrow> addr \<Rightarrow> bool" where
  "kind_fits h (ReqPublish topic q retained payload) t = (publish_qos h t = Some q)"
| "kind_fits h req t = True"

fun searches :: "request \<Rightarrow> bool" where
  "searches ReqDisconnect = False"
| "searches (ReqPublish topic q retained payload) = False"
| "searches req = True"

fun pc_fits :: "'a heap_scheme \<Rightarrow> request \<Rightarrow> addr \<Rightarrow> request_pc \<Rightarrow> bool" where
  "pc_fits h req t (PreparingPublish qos) =
     (case req of ReqPublish topic q retained payload \<Rightarrow> qos_id_ok qos \<and> level_of qos = q | _ \<Rightarrow> False)"
| "pc_fits h req t (Preparing i) = (searches req \<and> i \<noteq> 0)"
| "pc_fits h req t (Offering p tk subs) = (tk = request_token req t \<and> packet_fits h (Some tk) p)"
| "pc_fits h req t pc = True"

text \<open>The points before the search for an identifier, and those after the hand-over.\<close>

fun early :: "request_pc \<Rightarrow> bool" where
  "early Checking = True" | "early TakingId = True" | "early _ = False"

fun late :: "request_pc \<Rightarrow> bool" where
  "late (Registering subs) = True" | "late Returned = True" | "late _ = False"

definition under_way :: "request \<Rightarrow> addr \<Rightarrow> request_pc \<Rightarrow> ('c, 'a) state_scheme \<Rightarrow> bool" where
  "under_way req t pc c \<longleftrightarrow>
     token_typed c (request_token req t) \<and> kind_fits c req t \<and> pc_fits c req t pc \<and>
     (pc \<noteq> Checking \<and> \<not> late pc \<longrightarrow> outgoing_tx c \<noteq> None) \<and>
     (\<not> early pc \<and> \<not> late pc \<longrightarrow> covered c (request_token req t))"

lemma request_token_addr [simp]: "token_addr (request_token req t) = t"
  by (cases req) simp_all

lemma under_way_live: "under_way req t pc c \<Longrightarrow> tok_live c t"
  using token_typed_live[of c "request_token req t"] by (simp add: under_way_def)

lemma kind_fits_qos: "(\<And>a. publish_qos h' a = publish_qos h a) \<Longrightarrow> kind_fits h' req t = kind_fits h req t"
  by (cases req) simp_all

lemma pc_fits_qos: "(\<And>a. publish_qos h' a = publish_qos h a) \<Longrightarrow> pc_fits h' req t pc = pc_fits h req t pc"
  using packet_fits_qos[of h' h] by (cases pc) simp_all

lemma covered_account:
  "keeps_account c c' \<Longrightarrow> covered c tk \<Longrightarrow> covered c' tk"
  using completes_on_write_data[of c' c tk] by (auto simp: covered_def keeps_account_def)

text \<open>What the tasks do leaves it alone.\<close>

lemma under_way_account:
  assumes "under_way req t pc c" and "keeps_account c c'" and "outgoing_tx c' = outgoing_tx c"
    and "\<And>tk. token_typed c tk \<Longrightarrow> token_typed c' tk"
  shows "under_way req t pc c'"
proof -
  have qos: "\<And>a. publish_qos c' a = publish_qos c a" using assms(2) by (simp add: keeps_account_def)
  show ?thesis
    using assms covered_account[OF assms(2)] kind_fits_qos[OF qos] pc_fits_qos[OF qos]
    by (auto simp: under_way_def)
qed


subsection \<open>What a step changes\<close>

definition fails_only :: "addr \<Rightarrow> 'a heap_scheme \<Rightarrow> 'a heap_scheme \<Rightarrow> bool" where
  "fails_only t c c' \<longleftrightarrow> (tok_err c' t = None \<longrightarrow> tok_err c t = None \<and> (tok_done c' t \<longrightarrow> tok_done c t))"

lemma fails_only_trans: "fails_only t c c1 \<Longrightarrow> fails_only t c1 c2 \<Longrightarrow> fails_only t c c2"
  by (simp add: fails_only_def)

lemma fails_only_simps [simp]:
  "fails_only t c c"
  "fails_only t c (tok_set_error e t c)"
  "fails_only t c (map_data f a c)"
  "fails_only t s (s\<lparr>packet_ids := x1\<rparr>)"
  "fails_only t m (m\<lparr>manual_disconnect := x2\<rparr>)"
  "fails_only t s (send_outgoing ok pt s)"
  using tok_done_live[of c t] by (auto simp: fails_only_def tok_simps)

text \<open>Its own token, which it settles with an error only, the identifiers it takes, and the outgoing channel.\<close>

definition step_frame :: "addr \<Rightarrow> 'c mqtt_client \<Rightarrow> 'c mqtt_client \<Rightarrow> bool" where
  "step_frame t c c' \<longleftrightarrow>
     (\<forall>a. a \<noteq> t \<longrightarrow> cells c' a = cells c a) \<and> next_addr c' = next_addr c \<and>
     tok_live c' t = tok_live c t \<and> (tok_done c t \<longrightarrow> tok_done c' t) \<and> publish_qos c' t = publish_qos c t \<and>
     fails_only t c c' \<and>
     (\<forall>tk. token_typed c tk \<longrightarrow> token_typed c' tk) \<and>
     bound_tokens (packet_ids c) \<subseteq> bound_tokens (packet_ids c') \<and>
     bound_tokens (packet_ids c') \<subseteq> insert t (bound_tokens (packet_ids c)) \<and>
     connect_status c' = connect_status c \<and> outgoing_tx c' = outgoing_tx c \<and> options c' = options c \<and>
     notify_permit c' = notify_permit c \<and> topic_manager c' = topic_manager c \<and>
     subscriptions c' = subscriptions c \<and> spawned c' = spawned c \<and> wire c' = wire c"

lemma step_frame_refl: "step_frame t c c"
  by (auto simp: step_frame_def)

lemma step_frame_trans:
  assumes "step_frame t c c1" and "step_frame t c1 c2"
  shows "step_frame t c c2"
proof -
  have "bound_tokens (packet_ids c2) \<subseteq> insert t (bound_tokens (packet_ids c))"
    using assms unfolding step_frame_def by blast
  moreover have "fails_only t c c2" using assms fails_only_trans unfolding step_frame_def by blast
  ultimately show ?thesis using assms by (auto simp: step_frame_def)
qed

lemma step_frame_error: "step_frame t c (tok_set_error e t c)"
proof -
  have "cells (tok_set_error e t c) a = cells c a" if "a \<noteq> t" for a
    using that by (simp add: tok_set_error_def split: option.split)
  then show ?thesis using tok_done_live[of c t] by (auto simp: step_frame_def tok_simps)
qed

lemma step_frame_data:
  assumes "\<And>u d. kind_ok u d \<Longrightarrow> kind_ok u (f d)" and "publish_qos (map_data f t c) t = publish_qos c t"
  shows "step_frame t c (map_data f t c)"
proof -
  have "cells (map_data f t c) a = cells c a" if "a \<noteq> t" for a
    using that by (simp add: map_data_def split: option.split)
  then show ?thesis using assms by (auto simp: step_frame_def tok_simps intro: map_data_typed)
qed

lemma step_frame_ids:
  assumes "pid_ok (packet_ids c)" and "get_id checks tk (packet_ids c) = Done (i, ids)" and "token_addr tk = t"
  shows "step_frame t c (c\<lparr>packet_ids := ids\<rparr>)"
proof -
  have "bound_tokens ids \<subseteq> insert t (bound_tokens (packet_ids c))"
  proof (cases "i = 0")
    case True
    with assms(2) get_id_Done[OF assms(2)] show ?thesis by auto
  next
    case False
    with pid.acquire_lookup[OF assms(2)] assms(3) show ?thesis
      by (auto simp: bound_tokens_def get_token_def split: if_splits)
  qed
  with get_id_bound(1)[OF assms(1,2)] show ?thesis by (simp add: step_frame_def)
qed

lemma step_frame_updates:
  "step_frame t c (c\<lparr>manual_disconnect := b\<rparr>)"
  "step_frame t c (send_outgoing ok pt c)"
  by (auto simp: step_frame_def publish_qos_def token_typed_def)

lemma step_frame_add_subscriptions: "step_frame t c (add_subscriptions subs t c)"
  unfolding add_subscriptions_def
  by (rule step_frame_data, rule kind_ok_add_subs)
    (auto simp: publish_qos_def tok_simps split: option.splits token_data.splits)

lemma step_frame_unsubscribe_loop:
  "unsubscribe_loop K topics t c = (r, c') \<Longrightarrow> step_frame t c c'"
proof (induction K topics t c arbitrary: r rule: unsubscribe_loop.induct)
  case (2 K topic topics t c)
  have "step_frame t c (unsubscribe_add_topic topic t c)"
    unfolding unsubscribe_add_topic_def
    by (rule step_frame_data, rule kind_ok_add_topic)
      (auto simp: publish_qos_def tok_simps split: option.splits token_data.splits)
  with 2 show ?case
    by (auto intro: step_frame_refl step_frame_trans split: option.splits prod.splits)
qed (auto intro: step_frame_refl)

lemma step_frame_qos:
  assumes "step_frame t c c'"
  shows "publish_qos c' a = publish_qos c a"
  using assms by (cases "a = t") (auto simp: step_frame_def publish_qos_def data_at_def)

lemma step_frame_covered: "step_frame t c c' \<Longrightarrow> covered c tk \<Longrightarrow> covered c' tk"
  using completes_on_write_data[of c' c tk] step_frame_qos[of t c c']
  by (cases "token_addr tk = t") (auto simp: covered_def step_frame_def tok_done_def)


subsection \<open>A step keeps the invariant\<close>

text \<open>What a step does to the request, the client and the outgoing channel.\<close>

definition step_sound ::
  "bool \<Rightarrow> request \<Rightarrow> addr \<Rightarrow> request_pc \<Rightarrow> 'c mqtt_client \<Rightarrow> request_pc \<times> 'c mqtt_client \<Rightarrow> bool" where
  "step_sound ok req t pc c r \<longleftrightarrow>
     step_frame t c (snd r) \<and> client_inv (snd r) \<and> under_way req t (fst r) (snd r) \<and>
     (outgoing (snd r) = outgoing c \<and> (late (fst r) \<and> \<not> late pc \<longrightarrow> tok_done (snd r) t) \<or>
      ok \<and> (\<exists>p subs. pc = Offering p (request_token req t) subs \<and>
        outgoing (snd r) = outgoing c @ [packet_and_token_new_with p (request_token req t)]))"

lemma step_sound_frame:
  assumes "under_way req t pc c" and "step_frame t c c'" and "client_inv c'" and "outgoing c' = outgoing c"
    and "pc_fits c' req t pc'" and "pc' \<noteq> Checking \<and> \<not> late pc' \<Longrightarrow> outgoing_tx c' \<noteq> None"
    and "\<not> early pc' \<and> \<not> late pc' \<Longrightarrow> covered c' (request_token req t)"
    and "late pc' \<and> \<not> late pc \<Longrightarrow> tok_done c' t"
  shows "step_sound ok req t pc c (pc', c')"
  using assms kind_fits_qos[of c' c req t, OF step_frame_qos[OF assms(2)]]
  by (auto simp: step_sound_def under_way_def step_frame_def)

lemma client_inv_frame:
  assumes "client_inv c" and "step_frame t c c'" and "state_inv c'"
  shows "client_inv c'"
  using assms by (auto simp: client_inv_def step_frame_def is_connected_def)

lemma step_sound_error:
  assumes "under_way req t pc c0" and "step_frame t c0 c" and "client_inv c" and "outgoing c = outgoing c0"
  shows "step_sound ok req t pc c0 (Returned, tok_set_error e t c)"
proof -
  have "tok_live c t"
    using under_way_live[OF assms(1)] assms(2) by (simp add: step_frame_def)
  moreover have "client_inv (tok_set_error e t c)"
    using client_inv_frame[OF assms(3) step_frame_error] client_invD[OF assms(3)] by simp
  ultimately show ?thesis
    using assms step_frame_trans[OF assms(2) step_frame_error]
    by (intro step_sound_frame) (simp_all add: tok_simps)
qed

lemma step_sound_get_id:
  assumes "under_way req t TakingId c" and "client_inv c"
    and "get_id checks (request_token req t) (packet_ids c) = Done (i, ids)"
  shows "step_frame t c (c\<lparr>packet_ids := ids\<rparr>) \<and> client_inv (c\<lparr>packet_ids := ids\<rparr>) \<and>
    (i \<noteq> 0 \<longrightarrow> covered (c\<lparr>packet_ids := ids\<rparr>) (request_token req t)) \<and> outgoing_tx c \<noteq> None"
proof -
  have ids: "pid_ok (packet_ids c)" and typed: "token_typed c (request_token req t)"
    using assms(1,2) by (simp_all add: client_inv_def state_inv_def under_way_def)
  note frame = step_frame_ids[OF ids assms(3) request_token_addr]
  have "client_inv (c\<lparr>packet_ids := ids\<rparr>)"
    by (rule client_inv_frame[OF assms(2) frame state_inv_get_id[OF client_invD[OF assms(2)] assms(3) typed]])
  moreover have "i \<noteq> 0 \<longrightarrow> covered (c\<lparr>packet_ids := ids\<rparr>) (request_token req t)"
    using get_id_bound(2)[OF ids assms(3)] by (simp add: covered_def)
  ultimately show ?thesis using frame assms(1) by (simp add: under_way_def)
qed

lemma get_id_step:
  assumes "under_way req t TakingId c" and "client_inv c"
    and "get_id checks (request_token req t) (packet_ids c) = Done (i, ids)"
    and "i \<noteq> 0 \<Longrightarrow> pc_fits (c\<lparr>packet_ids := ids\<rparr>) req t pc'" and "\<not> late pc'"
  shows "step_sound ok req t TakingId c
    (if i = 0 then (Returned, tok_set_error PacketIdError t (c\<lparr>packet_ids := ids\<rparr>)) else (pc', c\<lparr>packet_ids := ids\<rparr>))"
proof -
  note S = step_sound_get_id[OF assms(1-3)]
  show ?thesis
  proof (cases "i = 0")
    case True
    with S step_sound_error[OF assms(1), of "c\<lparr>packet_ids := ids\<rparr>"] show ?thesis by simp
  next
    case False
    have "step_sound ok req t TakingId c (pc', c\<lparr>packet_ids := ids\<rparr>)"
      by (rule step_sound_frame[OF assms(1)]) (use S False assms(4,5) in simp_all)
    with False show ?thesis by simp
  qed
qed

lemma take_id_searches:
  "searches req \<Longrightarrow> take_id K req t c =
     bind_outcome (get_id (overflow_checks K) (request_token req t) (packet_ids c))
       (\<lambda>(pkid, ids). Done (
          if pkid = 0 then (Returned, tok_set_error PacketIdError t (c\<lparr>packet_ids := ids\<rparr>))
          else (Preparing pkid, c\<lparr>packet_ids := ids\<rparr>)))"
  by (cases req) simp_all

lemma take_id_searches_sound:
  assumes "under_way req t TakingId c" and "client_inv c" and "take_id K req t c = Done r" and "searches req"
  shows "step_sound ok req t TakingId c r"
proof -
  from assms(3,4) obtain i ids where
    g: "get_id (overflow_checks K) (request_token req t) (packet_ids c) = Done (i, ids)"
    and r: "r = (if i = 0 then (Returned, tok_set_error PacketIdError t (c\<lparr>packet_ids := ids\<rparr>))
        else (Preparing i, c\<lparr>packet_ids := ids\<rparr>))"
    by (auto simp: take_id_searches bind_outcome_Done_iff)
  show ?thesis unfolding r by (rule get_id_step[OF assms(1,2) g]) (simp_all add: assms(4))
qed

lemma take_id_sound:
  assumes "under_way req t TakingId c" and "client_inv c" and "take_id K req t c = Done r"
  shows "step_sound ok req t TakingId c r"
proof (cases req)
  case ReqDisconnect
  have "step_sound ok req t TakingId c (Offering DisconnectPacket (Disconnect t) None, c\<lparr>manual_disconnect := True\<rparr>)"
    by (rule step_sound_frame[OF assms(1) step_frame_updates(1)])
      (use assms(1,2) ReqDisconnect in \<open>auto simp: client_inv_def is_connected_def under_way_def covered_def completes_on_write_def\<close>)
  with assms(3) ReqDisconnect show ?thesis by auto
next
  case (ReqPublish topic q retained payload)
  note get = get_id_step[OF assms(1,2), unfolded ReqPublish request_token.simps, of "overflow_checks K"]
  show ?thesis
  proof (cases q)
    case Level0
    have "covered c (Publish t)"
      using assms(1) ReqPublish Level0 by (simp add: under_way_def covered_def completes_on_write_def)
    then have "step_sound ok req t TakingId c (PreparingPublish QLevel0, c)"
      by (intro step_sound_frame[OF assms(1) step_frame_refl assms(2)])
        (use assms(1) ReqPublish Level0 in \<open>simp_all add: under_way_def\<close>)
    with assms(3) ReqPublish Level0 show ?thesis by (simp add: publish_qos_id_def)
  next
    case Level1
    with assms(3) ReqPublish obtain i ids where g: "get_id (overflow_checks K) (Publish t) (packet_ids c) = Done (i, ids)"
      and r: "r = (if i = 0 then (Returned, tok_set_error PacketIdError t (c\<lparr>packet_ids := ids\<rparr>))
        else (PreparingPublish (QLevel1 i), c\<lparr>packet_ids := ids\<rparr>))"
      by (auto simp: publish_qos_id_def bind_outcome_Done_iff split: if_splits)
    show ?thesis unfolding r ReqPublish by (rule get[OF g]) (simp_all add: Level1)
  next
    case Level2
    with assms(3) ReqPublish obtain i ids where g: "get_id (overflow_checks K) (Publish t) (packet_ids c) = Done (i, ids)"
      and r: "r = (if i = 0 then (Returned, tok_set_error PacketIdError t (c\<lparr>packet_ids := ids\<rparr>))
        else (PreparingPublish (QLevel2 i), c\<lparr>packet_ids := ids\<rparr>))"
      by (auto simp: publish_qos_id_def bind_outcome_Done_iff split: if_splits)
    show ?thesis unfolding r ReqPublish by (rule get[OF g]) (simp_all add: Level2)
  qed
qed (rule take_id_searches_sound[OF assms(1-3)]; simp)+


lemma step_sound_offering:
  assumes "under_way req t pc c" and "\<not> early pc \<and> \<not> late pc" and "step_frame t c c'" and "client_inv c'"
    and "outgoing c' = outgoing c" and "packet_fits c' (Some (request_token req t)) p"
  shows "step_sound ok req t pc c (Offering p (request_token req t) subs, c')"
proof (rule step_sound_frame[OF assms(1,3-5)])
  have "pc \<noteq> Checking" using assms(2) by auto
  then show "outgoing_tx c' \<noteq> None" using assms(1-3) by (simp add: under_way_def step_frame_def)
  show "covered c' (request_token req t)"
    using assms(1,2) step_frame_covered[OF assms(3)] by (simp add: under_way_def)
qed (use assms(6) in simp_all)

lemma prepare_publish_sound:
  assumes "under_way req t (PreparingPublish qos) c" and "client_inv c"
  shows "step_sound ok req t (PreparingPublish qos) c (prepare_publish K req t qos c)"
proof -
  from assms(1) obtain topic q retained payload where req: "req = ReqPublish topic q retained payload"
    and fit: "qos_id_ok qos" "publish_qos c t = Some (level_of qos)"
    by (auto simp: under_way_def split: request.splits)
  show ?thesis
    using step_sound_error[OF assms(1) step_frame_refl assms(2)] fit
      step_sound_offering[OF assms(1) _ step_frame_refl assms(2)]
    by (cases "topic_name_new K topic") (fastforce simp: req publish_packet_new_def)+
qed

lemma unsubscribe_loop_inv:
  "unsubscribe_loop K topics t c = (r, c') \<Longrightarrow> client_inv c \<Longrightarrow> client_inv c'"
proof (induction K topics t c arbitrary: r rule: unsubscribe_loop.induct)
  case (2 K topic topics t c)
  have "client_inv (unsubscribe_add_topic topic t c)"
    unfolding unsubscribe_add_topic_def using "2.prems"(2) by (rule map_data_inv) (rule kind_ok_add_topic)
  with 2 show ?case by (auto split: option.splits prod.splits)
qed auto

lemma prepare_packet_sound:
  assumes "under_way req t (Preparing i) c" and "client_inv c"
  shows "step_sound ok req t (Preparing i) c (prepare_packet K req t i c)"
proof -
  have i: "i \<noteq> 0" and search: "searches req" using assms(1) by (simp_all add: under_way_def)
  note error = step_sound_error[OF assms(1) step_frame_refl assms(2)]
  note give = step_sound_offering[OF assms(1) _ step_frame_refl assms(2)]
  show ?thesis
  proof (cases req)
    case (ReqSubscribe topic q callback)
    with error give i show ?thesis by (cases "topic_filter_new K topic") auto
  next
    case (ReqSubscribeMultiple topics callback)
    with error give i show ?thesis by (cases "collect_filters K callback topics") auto
  next
    case (ReqUnsubscribe topics)
    obtain r c' where run: "unsubscribe_loop K topics t c = (r, c')"
      by (cases "unsubscribe_loop K topics t c")
    note frame = step_frame_unsubscribe_loop[OF run] and inv = unsubscribe_loop_inv[OF run assms(2)]
    have out: "outgoing c' = outgoing c" using unsubscribe_loop_frame[OF run] by simp
    show ?thesis
      using step_sound_error[OF assms(1) frame inv out] step_sound_offering[OF assms(1) _ frame inv out] i
      by (cases r) (auto simp: ReqUnsubscribe run)
  qed (use search in simp_all)
qed

lemma offer_sound:
  assumes "under_way req t (Offering p tk subs) c" and "client_inv c" and "offer ok p tk c = Done c'"
  shows "step_sound ok req t (Offering p tk subs) c (case subs of Some subs \<Rightarrow> Registering subs | None \<Rightarrow> Returned, c')"
proof -
  have tk: "tk = request_token req t" and kind: "kind_fits c req t" "token_typed c tk"
    using assms(1) by (simp_all add: under_way_def)
  let ?pc = "case subs of Some subs \<Rightarrow> Registering subs | None \<Rightarrow> Returned"
  have late: "late ?pc" "pc_fits h req t ?pc" for h :: "'b heap_scheme"
    by (simp_all split: option.split)
  show ?thesis
  proof (cases ok)
    case True
    let ?c = "send_outgoing True (packet_and_token_new_with p tk) c"
    have c': "c' = ?c" using assms(3) True by (auto simp: offer_def bind_outcome_Done_iff)
    have "client_inv ?c"
      by (rule client_inv_frame[OF assms(2) step_frame_updates(2)]) (use client_invD[OF assms(2)] in simp)
    then show ?thesis
      using True late tk kind kind_fits_qos[of ?c c req t]
      by (cases "?pc = Checking") (auto simp: c' step_sound_def under_way_def step_frame_updates(2))
  next
    case False
    then have c': "c' = tok_set_error InternalServerError t c"
      using assms(3) tk by (auto simp: offer_def bind_outcome_Done_iff)
    have "step_sound ok req t (Offering p tk subs) c (Returned, c')"
      unfolding c' by (rule step_sound_error[OF assms(1) step_frame_refl assms(2)]) simp
    then show ?thesis using late False by (auto simp: step_sound_def under_way_def)
  qed
qed

lemma register_sound:
  assumes "under_way req t (Registering subs) c" and "client_inv c"
  shows "step_sound ok req t (Registering subs) c (Returned, add_subscriptions subs t c)"
proof -
  have "client_inv (add_subscriptions subs t c)"
    unfolding add_subscriptions_def using assms(2) by (rule map_data_inv) (rule kind_ok_add_subs)
  then show ?thesis
    by (intro step_sound_frame[OF assms(1) step_frame_add_subscriptions]) (simp_all add: add_subscriptions_def)
qed

lemma request_step_sound:
  assumes "under_way req t pc c" and "client_inv c" and "request_step K ok req t (pc, c) = Done r"
  shows "step_sound ok req t pc c r"
proof (cases pc)
  case Checking
  show ?thesis
  proof (cases "is_connected c")
    case True
    have "step_sound ok req t pc c (TakingId, c)"
      using assms(1,2) True Checking by (intro step_sound_frame[OF assms(1) step_frame_refl]) (auto simp: client_inv_def)
    with assms(3) True Checking show ?thesis by simp
  next
    case False
    with assms(3) Checking step_sound_error[OF assms(1) step_frame_refl assms(2)] show ?thesis by auto
  qed
next
  case TakingId
  with assms take_id_sound show ?thesis by simp
next
  case (PreparingPublish qos)
  with assms prepare_publish_sound[of req t qos c] show ?thesis by auto
next
  case (Preparing i)
  with assms prepare_packet_sound[of req t i c] show ?thesis by auto
next
  case (Offering p tk subs)
  with assms(3) obtain c' where run: "offer ok p tk c = Done c'"
    and r: "r = (case subs of Some subs \<Rightarrow> Registering subs | None \<Rightarrow> Returned, c')"
    by (auto simp: bind_outcome_Done_iff)
  show ?thesis unfolding r Offering by (rule offer_sound[OF assms(1)[unfolded Offering] assms(2) run])
next
  case (Registering subs)
  with assms register_sound[of req t subs c] show ?thesis by auto
next
  case Returned
  with assms(3) have r: "r = (Returned, c)" by simp
  show ?thesis
    unfolding r using Returned by (intro step_sound_frame[OF assms(1) step_frame_refl assms(2)]) simp_all
qed

text \<open>Only the search for an identifier may panic, and not in a release build.\<close>

lemma request_step_panics:
  assumes "under_way req t pc c" and "request_step K ok req t (pc, c) = Panic"
  shows "overflow_checks K \<and> pc = TakingId \<and> get_id True (request_token req t) (packet_ids c) = Panic"
proof -
  have "offer ok p tk c \<noteq> Panic" if "pc = Offering p tk subs" for p tk subs
    using assms(1) that by (auto simp: under_way_def offer_def)
  with assms(2) have taking: "pc = TakingId \<and> take_id K req t c = Panic"
    by (cases pc) (auto simp: bind_outcome_Panic_iff)
  then have "get_id (overflow_checks K) (request_token req t) (packet_ids c) = Panic"
    by (cases req) (auto simp: publish_qos_id_def bind_outcome_Panic_iff split: quality_of_service.splits)
  with taking get_id_not_panic show ?thesis by (cases "overflow_checks K") auto
qed

lemma request_step_returns: "under_way req t pc c \<Longrightarrow> \<not> overflow_checks K \<Longrightarrow> request_step K ok req t (pc, c) \<noteq> Panic"
  using request_step_panics by blast

text \<open>The allocation of the token starts a request under way.\<close>

lemma request_begin_under_way:
  assumes "client_inv c"
  shows "under_way req (next_addr c) Checking (request_begin req c) \<and> prepared c (request_begin req c)"
  using assms prepared_new[OF assms] publish_start(1)[OF assms] token_typed_new
  by (cases req)
    (auto simp: under_way_def publish_start_def subscribe_default_def unsubscribe_default_def
      publish_qos_def publish_set_qos_def publish_default_def tok_simps token_typed_def)

end
