(* ===== verification/Session_Safety.thy ===== *)
theory Session_Safety
  imports Session Request_Invariant
begin

section \<open>Every reachable session is safe\<close>

text \<open>
  The invariant of a program using the client (\<open>Session\<close>), kept by every step of the caller and of the
  tasks: no step of a release build panics, no connection is opened over a living one, and every
  request of the present connection is either still at work, in the identifier table, or on its way to
  the socket.
\<close>

subsection \<open>What the tasks keep\<close>

lemma token_typed_connect:
  "token_typed c tk \<Longrightarrow> token_typed (connect_set_session_present a c) tk"
  "token_typed c tk \<Longrightarrow> token_typed (connect_set_return_code code a c) tk"
  unfolding connect_set_session_present_def connect_set_return_code_def
  by (erule map_data_typed, erule kind_ok_connect)+

lemma token_typed_client [simp]:
  "token_typed (c\<lparr>connect_status := x1\<rparr>) tk = token_typed c tk"
  "token_typed (c\<lparr>manual_disconnect := x2\<rparr>) tk = token_typed c tk"
  "token_typed (c\<lparr>notify_permit := x3\<rparr>) tk = token_typed c tk"
  "token_typed (c\<lparr>wire := x4\<rparr>) tk = token_typed c tk"
  "token_typed (c\<lparr>outgoing_tx := x5\<rparr>) tk = token_typed c tk"
  "token_typed (c\<lparr>outgoing := x6\<rparr>) tk = token_typed c tk"
  by (simp_all add: token_typed_def data_at_def)

lemma token_typed_handlers:
  assumes "token_typed s tk"
  shows "token_typed (handle_puback i s) tk" "token_typed (handle_pubcomp i s) tk"
    "token_typed (handle_suback i codes s) tk" "token_typed (handle_unsuback i s) tk"
    "token_typed (snd (handle_pubrel K i s)) tk"
  using assms suback_loop_typed[OF assms]
  by (auto simp: handle_puback_def handle_pubcomp_def handle_suback_def handle_unsuback_def
      handle_pubrel_def split_beta Let_def split: option.split token.split)

lemma token_typed_publish: "handle_publish K q s = Done (r, s') \<Longrightarrow> token_typed s' tk = token_typed s tk"
  by (auto simp: handle_publish_def split_beta Let_def bind_outcome_Done_iff split: quality_of_service.splits)

lemma token_typed_dispatch:
  "dispatch_packet K p s = Done (d, s') \<Longrightarrow> token_typed s tk \<Longrightarrow> token_typed s' tk"
  using token_typed_handlers[of s tk]
  by (cases p) (auto simp: bind_outcome_Done_iff split_beta token_typed_publish)

lemma token_typed_write: "write_step e s = (going, out, s') \<Longrightarrow> token_typed s' tk = token_typed s tk"
  by (elim write_stepE) (auto simp: complete_written_def split: option.splits token.splits)

lemma token_typed_over: "token_typed (connection_over c) tk = token_typed c tk"
proof -
  have "token_typed (fold (token_set_error e) ts d) tk = token_typed d tk" for e ts and d :: "'a mqtt_client"
    by (induction ts arbitrary: d) simp_all
  then show ?thesis by (simp add: connection_over_def clean_up_def set_connect_status_def Let_def)
qed

lemma token_typed_finish: "token_typed c tk \<Longrightarrow> token_typed (finish_connect sp t c) tk"
  by (simp add: finish_connect_def Let_def token_typed_connect)

lemma token_typed_link:
  assumes "link_step K ev l = Done (Some l')" and "\<nexists>req. ev = Request req" and "token_typed (link_client l) tk"
  shows "token_typed (link_client l') tk"
  using assms(1,2)
proof (cases rule: link_step_clientE)
  case (read p d)
  from token_typed_dispatch[OF read(3) assms(3)] show ?thesis .
next
  case (wrote e going out)
  from token_typed_write[OF wrote(3)] assms(3) show ?thesis by simp
qed (use assms(3) in \<open>simp_all add: token_typed_finish token_typed_over\<close>)

text \<open>A cell is of one kind.\<close>

lemma token_typed_unique: "token_typed h t \<Longrightarrow> token_typed h u \<Longrightarrow> token_addr t = token_addr u \<Longrightarrow> t = u"
  by (auto simp: token_typed_def elim!: kind_ok.elims)

lemma token_typed_cell: "tok_live h a \<Longrightarrow> \<exists>tk. token_addr tk = a \<and> token_typed h tk"
proof -
  assume "tok_live h a"
  then obtain d where d: "data_at h a = Some d" by (auto simp: tok_view_defs)
  show ?thesis
  proof (cases d)
    case (ConnectData x y)
    with d show ?thesis by (intro exI[of _ "Connect a"]) (simp add: token_typed_def)
  next
    case DisconnectData
    with d show ?thesis by (intro exI[of _ "Disconnect a"]) (simp add: token_typed_def)
  next
    case (PublishData x)
    with d show ?thesis by (intro exI[of _ "Publish a"]) (simp add: token_typed_def)
  next
    case (SubscribeData x y)
    with d show ?thesis by (intro exI[of _ "Subscribe a"]) (simp add: token_typed_def)
  next
    case (UnsubscribeData x)
    with d show ?thesis by (intro exI[of _ "Unsubscribe a"]) (simp add: token_typed_def)
  qed
qed

text \<open>What the caller relies on when something else has run.\<close>

definition client_moves :: "'c mqtt_client \<Rightarrow> 'c mqtt_client \<Rightarrow> bool" where
  "client_moves c c' \<longleftrightarrow>
     client_inv c' \<and> grows c c' \<and> keeps_account c c' \<and> (\<forall>tk. token_typed c tk \<longrightarrow> token_typed c' tk) \<and>
     outgoing_tx c' = outgoing_tx c \<and> options c' = options c"

lemma client_moves_refl: "client_inv c \<Longrightarrow> client_moves c c"
  by (simp add: client_moves_def grows_refl)

lemma keeps_account_trans: "keeps_account s s1 \<Longrightarrow> keeps_account s1 s2 \<Longrightarrow> keeps_account s s2"
  unfolding keeps_account_def by (metis)

lemma client_moves_trans: "client_moves c c1 \<Longrightarrow> client_moves c1 c2 \<Longrightarrow> client_moves c c2"
  by (auto simp: client_moves_def intro: grows_trans keeps_account_trans)

lemma moved_typed:
  assumes "client_moves c c'" and "token_typed c' tk"
  shows "token_typed c tk"
proof -
  have "tok_live c (token_addr tk)"
    using assms token_typed_live[OF assms(2)] by (simp add: client_moves_def keeps_account_def)
  then obtain u where u: "token_addr u = token_addr tk" "token_typed c u" using token_typed_cell by blast
  with assms(1) have "token_typed c' u" by (simp add: client_moves_def)
  with token_typed_unique[OF this assms(2) u(1)] u(2) show ?thesis by simp
qed

lemma same_client_fields:
  assumes "same_client c c'"
  shows "options c' = options c" "connect_status c' = connect_status c"
  using assms by (simp_all add: same_client_def client_fields_def)

lemma link_step_options:
  assumes "link_step K ev l = Done (Some l')" and "\<nexists>req. ev = Request req"
  shows "options (link_client l') = options (link_client l)"
  using assms
  by (cases rule: link_step_clientE)
    (auto simp: finish_connect_def Let_def connection_over_view
      dest: same_client_fields[OF dispatch_same] same_client_fields[OF write_step_same])

lemma link_step_moves:
  assumes "link_step K ev l = Done (Some l')" and "link_ok l" and "\<nexists>req. ev = Request req"
  shows "client_moves (link_client l) (link_client l')"
proof -
  have inv: "client_inv (link_client l)" using assms(2) by (simp add: link_ok_def)
  have "link_keeps (link_client l) (link_client l')"
    using link_step_keeps[OF assms(1) inv] assms(2) by (simp add: link_ok_def)
  with keeps_account_link[OF assms(1) inv assms(3)] token_typed_link[OF assms(1,3)]
    link_step_options[OF assms(1,3)]
  show ?thesis by (auto simp: client_moves_def link_keeps_def)
qed


subsection \<open>What the caller's own code keeps\<close>

definition caller_moves :: "'c mqtt_client \<Rightarrow> 'c mqtt_client \<Rightarrow> bool" where
  "caller_moves c c' \<longleftrightarrow>
     client_moves c c' \<and> settles_bound c c' \<and> outgoing c' = outgoing c \<and> connect_status c' = connect_status c"

lemma caller_moves_refl: "client_inv c \<Longrightarrow> caller_moves c c"
  by (simp add: caller_moves_def client_moves_refl)

lemma keeps_account_cells:
  assumes "keeps_account s s1" and "cells s2 = cells s1" and "packet_ids s2 = packet_ids s1"
  shows "keeps_account s s2"
  using assms by (simp add: keeps_account_def publish_qos_def tok_view_defs)

lemma outgoing_poll [simp]: "outgoing (snd (tok_poll a w c)) = outgoing c"
  by (simp add: tok_poll_def split: option.split)

lemma caller_moves_poll:
  assumes "client_inv c"
  shows "caller_moves c (snd (tok_poll a w c))"
proof -
  have "keeps_account c (snd (tok_poll a w c))" "grows c (snd (tok_poll a w c))"
    by (simp_all add: keeps_account_def grows_def publish_qos_def tok_simps)
  moreover have "token_typed (snd (tok_poll a w c)) tk = token_typed c tk" for tk
    by (simp add: token_typed_def tok_simps)
  moreover have "settles_bound c (snd (tok_poll a w c))" by (simp add: settles_bound_def tok_simps)
  ultimately show ?thesis
    using tok_poll_inv[OF assms] by (simp add: caller_moves_def client_moves_def)
qed

lemma caller_moves_permit: "client_inv c \<Longrightarrow> caller_moves c (c\<lparr>notify_permit := b\<rparr>)"
  using keeps_account_cells[OF keeps_account_refl, of "c\<lparr>notify_permit := b\<rparr>" c] grows_cells[of "c\<lparr>notify_permit := b\<rparr>" c]
  by (simp add: caller_moves_def client_moves_def settles_bound_def)

lemma block_head_client: "snd (snd (block_head cnt c)) = c" "fst (block_head cnt c) \<in> {AtSelect, BlockExit}"
  by (auto simp: block_head_def split: option.split)

lemma block_sleep_moves:
  assumes "client_inv c"
  shows "caller_moves c (snd (snd (block_sleep cnt c))) \<and> fst (block_sleep cnt c) \<in> {AtSelect, BlockExit}"
  using caller_moves_refl[OF assms] caller_moves_permit[OF assms]
  by (auto simp: block_sleep_def block_head_def split: connect_status.split option.split)

text \<open>\<open>block\<close> empties the identifier table when the server has lost the session.\<close>

definition reset_ids :: "'c mqtt_client \<Rightarrow> 'c mqtt_client" where
  "reset_ids c = (snd (clean_up (packet_ids c) c))\<lparr>packet_ids := fst (clean_up (packet_ids c) c)\<rparr>"

lemma connection_over_reset: "connection_over c = reset_ids (c\<lparr>connect_status := Disconnected\<rparr>)"
  by (simp add: connection_over_def reset_ids_def set_connect_status_def split_beta Let_def)

lemma reset_ids_cells:
  "cells (reset_ids c) = cells (connection_over c)" "packet_ids (reset_ids c) = packet_ids (connection_over c)"
  "next_addr (reset_ids c) = next_addr c"
proof -
  show "cells (reset_ids c) = cells (connection_over c)"
    using clean_up_settles_all[of "packet_ids c" c] by (simp add: reset_ids_def connection_over_view)
qed (simp_all add: reset_ids_def connection_over_def set_connect_status_def clean_up_def Let_def)

lemma reset_ids_moves:
  assumes "client_inv c"
  shows "caller_moves c (reset_ids c)"
proof -
  have frame: "outgoing (reset_ids c) = outgoing c" "outgoing_tx (reset_ids c) = outgoing_tx c"
    "connect_status (reset_ids c) = connect_status c" "options (reset_ids c) = options c"
    by (simp_all add: reset_ids_def clean_up_def)
  have "client_inv (reset_ids c)"
    unfolding reset_ids_def by (rule clean_up_inv[OF assms]) (simp add: clean_up_def)
  moreover have "keeps_account c (reset_ids c)"
    by (rule keeps_account_cells[OF keeps_account_over[OF assms] reset_ids_cells(1,2)])
  moreover have "token_typed (reset_ids c) tk = token_typed c tk" for tk
    using token_typed_data[of "reset_ids c" "connection_over c" tk] reset_ids_cells(1)[of c] token_typed_over[of c tk]
    by (simp add: data_at_def fun_eq_iff)
  moreover have "grows c (reset_ids c)"
    using grows_connection_over[OF assms] reset_ids_cells[of c]
    by (simp add: grows_def tok_view_defs connection_over_view)
  moreover have "settles_bound c (reset_ids c)"
  proof -
    have "bound_tokens (packet_ids (reset_ids c)) = {}"
      using reset_ids_cells(2)[of c] connection_over_view(2)[of c] by (simp add: bound_tokens_def get_token_def)
    moreover have "tok_done (reset_ids c) a = tok_done (connection_over c) a"
      "tok_err (reset_ids c) a = tok_err (connection_over c) a" for a
      using reset_ids_cells(1)[of c] by (simp_all add: tok_done_def tok_err_def)
    ultimately show ?thesis using connection_over_done[OF assms] by (simp add: settles_bound_def)
  qed
  ultimately show ?thesis using frame by (simp add: caller_moves_def client_moves_def)
qed

lemma caller_moves_topics:
  assumes "caller_moves c c'" and "trie_ok m"
  shows "caller_moves c (c'\<lparr>topic_manager := m\<rparr>)"
proof -
  have "keeps_account c (c'\<lparr>topic_manager := m\<rparr>)"
    by (rule keeps_account_cells[of _ c']) (use assms(1) in \<open>simp_all add: caller_moves_def client_moves_def\<close>)
  moreover have "grows c (c'\<lparr>topic_manager := m\<rparr>)" "settles_bound c (c'\<lparr>topic_manager := m\<rparr>)"
    using assms(1) by (simp_all add: caller_moves_def client_moves_def grows_def settles_bound_def)
  ultimately show ?thesis
    using assms heap_updates_topic[of c' m] by (simp add: caller_moves_def client_moves_def)
qed

lemma block_connected_moves:
  assumes "client_inv c"
  shows "caller_moves c (snd (snd (block_connected err t cnt c))) \<and>
    (fst (block_connected err t cnt c) \<in> {AtSelect, BlockExit} \<or>
     (\<exists>subs. fst (block_connected err t cnt c) = Resubscribe subs))"
proof -
  have "trie_ok (topic_manager (reset_ids c))"
    using reset_ids_moves[OF assms] by (simp add: caller_moves_def client_moves_def client_inv_def state_inv_def)
  from caller_moves_topics[OF reset_ids_moves[OF assms] tm_clear_ok[OF this]]
  have "caller_moves c ((reset_ids c)\<lparr>topic_manager := tm_clear (topic_manager (reset_ids c))\<rparr>)" .
  then show ?thesis
    using caller_moves_refl[OF assms] block_head_client[of cnt c] block_head_client[of 0 c]
    by (auto simp: block_connected_def Let_def split_beta reset_ids_def)
qed


subsection \<open>A new token\<close>

definition opens_token :: "token \<Rightarrow> 'c mqtt_client \<Rightarrow> 'c mqtt_client \<Rightarrow> bool" where
  "opens_token tk c c' \<longleftrightarrow>
     client_inv c' \<and> token_addr tk = next_addr c \<and> token_typed c' tk \<and> next_addr c' = Suc (next_addr c) \<and>
     (\<forall>a. a \<noteq> next_addr c \<longrightarrow> cells c' a = cells c a) \<and> packet_ids c' = packet_ids c \<and>
     outgoing c' = outgoing c \<and> outgoing_tx c' = outgoing_tx c \<and> options c' = options c \<and>
     connect_status c' = connect_status c"

lemma request_begin_opens:
  assumes "client_inv c"
  shows "opens_token (request_token req (next_addr c)) c (request_begin req c)"
proof -
  have "packet_ids (request_begin req c) = packet_ids c"
    by (cases req) (simp_all add: publish_set_qos_def)
  with request_begin_under_way[OF assms, of req] show ?thesis
    by (auto simp: opens_token_def prepared_def untouched_def under_way_def)
qed

lemma cells_ops:
  "b \<noteq> a \<Longrightarrow> cells (tok_set_error e a c) b = cells c b"
  "b \<noteq> a \<Longrightarrow> cells (connect_set_return_code code a c) b = cells c b"
  "b \<noteq> next_addr c \<Longrightarrow> cells (connect_start c) b = cells c b"
  by (simp_all add: tok_set_error_def connect_set_return_code_def map_data_def connect_start_def cells_new_token
      split: option.split)

lemma next_addr_ops:
  "next_addr (connect_set_return_code code a c) = next_addr c"
  "next_addr (connect_start c) = Suc (next_addr c)"
  by (simp_all add: connect_set_return_code_def connect_start_def tok_simps)

lemma connect_start_typed: "token_typed (connect_start c) (Connect (next_addr c))"
  by (simp add: token_typed_def connect_default_def)

lemma connect_reply_refused:
  assumes "connect_accepts Disconnected (NetOpen sent) first = None"
  shows "\<exists>e c1. connect_reply first now ch t c = refuse_connect e t c1 \<and>
    (c1 = c \<or> (\<exists>n. c1 = connect_set_return_code n t c))"
proof (cases first)
  case (FirstPacket p)
  show ?thesis
  proof (cases p)
    case (ConnackPacket code sp)
    with FirstPacket assms show ?thesis by (cases code) (auto simp: connect_reply_def)
  qed (auto simp: FirstPacket connect_reply_def)
qed (auto simp: connect_reply_def)

text \<open>A \<open>connect\<close> that is not accepted leaves the connection, if there is one, as it is.\<close>

lemma connect_fails:
  assumes "client_inv c" and "connect_accepts (connect_status c) net first = None"
    and "connect K net first now ch c = Done (t, c')"
  shows "t = next_addr c \<and> opens_token (Connect t) c c'"
proof -
  note inv = connect_inv[OF assms(1,3)]
  show ?thesis
  proof (cases "connect_status c")
    case Disconnected
    show ?thesis
    proof (cases net)
      case (NetError e)
      with Disconnected assms(3) inv show ?thesis
        by (auto simp: connect_eq opens_token_def refuse_connect_def set_connect_status_def Let_def
            cells_ops next_addr_ops connect_start_typed tok_simps)
    next
      case (NetOpen sent)
      with Disconnected assms(3) obtain out where t: "t = next_addr c"
        and c': "c' = connect_reply first now ch t (awaiting_connack out c)"
        by (auto simp: connect_eq bind_outcome_Done_iff awaiting_connack_def set_connect_status_def Let_def)
      from connect_reply_refused assms(2) Disconnected NetOpen
      obtain e c1 where "c' = refuse_connect e t c1"
        "c1 = awaiting_connack out c \<or> (\<exists>n. c1 = connect_set_return_code n t (awaiting_connack out c))"
        unfolding c' by metis
      then show ?thesis
        using inv t Disconnected
        by (auto simp: opens_token_def refuse_connect_def set_connect_status_def awaiting_connack_def tok_simps
            cells_ops next_addr_ops token_typed_connect connect_start_typed)
    qed (use Disconnected assms(3) in \<open>simp add: connect_eq Let_def\<close>)
  qed (use assms(3) inv in \<open>auto simp: connect_eq opens_token_def Let_def cells_ops next_addr_ops
      token_typed_connect connect_start_typed tok_simps\<close>)
qed


subsection \<open>The invariant\<close>

fun is_reply :: "variable_packet \<Rightarrow> bool" where
  "is_reply (PubackPacket i) = True"
| "is_reply (PubrecPacket i) = True"
| "is_reply (PubrelPacket i) = True"
| "is_reply (PubcompPacket i) = True"
| "is_reply p = False"

text \<open>
  The connection: its channels and the client, no supervision without cause and none missing, and
  every packet in the channel of the kind of its token.
\<close>

definition conn_ok :: "'c link \<Rightarrow> bool" where
  "conn_ok l \<longleftrightarrow>
     link_ok l \<and> reader l \<noteq> ReadPanicked \<and> (supervising l \<or> tasks_over l) \<and>
     (connect_status (link_client l) = Disconnected \<and> finishing l = None \<longrightarrow> \<not> supervising l) \<and>
     (connect_status (link_client l) = Connecting \<longrightarrow> finishing l \<noteq> None) \<and>
     (pinging l \<longrightarrow> outgoing_tx (link_client l) \<noteq> None) \<and>
     (\<forall>pt \<in> set (outgoing (link_client l)). handed_typed (link_client l) pt) \<and>
     (\<forall>p \<in> set (answered l). is_reply p)"

fun caller_ok :: "caller \<Rightarrow> 'c link \<Rightarrow> bool" where
  "caller_ok (Finishing t ret) l =
     ((\<exists>sp. finishing l = Some (sp, t)) \<and> token_typed (link_client l) (Connect t))"
| "caller_ok (InRequest req t pc ret) l = (finishing l = None \<and> under_way req t pc (link_client l))"
| "caller_ok (Awaiting t ret) l = (finishing l = None \<and> tok_live (link_client l) t)"
| "caller_ok (InBlock pc cnt) l =
     (finishing l = None \<and> (pc = AtSelect \<or> (\<exists>subs. pc = Resubscribe subs)))"
| "caller_ok k l = (finishing l = None)"

definition session_ok :: "'c session \<Rightarrow> bool" where
  "session_ok s \<longleftrightarrow> conn_ok (conn s) \<and> caller_ok (caller s) (conn s)"

subsection \<open>A task's step keeps it\<close>

lemma reader_step:
  assumes "link_step K ev l = Done (Some l')" and "codec_laws K"
  shows "(reader l \<noteq> ReadPanicked \<longrightarrow> reader l' \<noteq> ReadPanicked) \<and>
    (\<exists>ps. answered l' = answered l @ ps \<and> (\<forall>p \<in> set ps. is_reply p))"
proof (cases ev)
  case (ReadFrame f)
  with assms(1) have l': "l' = read_frame K f l" "reader l = Reading" by (auto split: if_splits)
  show ?thesis
  proof (cases f)
    case (Frame p)
    from dispatch_packet_response[OF assms(2), of p "link_client l"] obtain c where
      d: "dispatch_packet K p (link_client l) =
        Done (if ends_loop p then Break else (case response_of p of None \<Rightarrow> Continue | Some r \<Rightarrow> Respond r), c)"
      by blast
    have "is_reply r" if "response_of p = Some r" for r
      using that by (cases p) (auto split: qos_with_packet_identifier.splits)
    then show ?thesis
      using l' by (auto simp: read_frame_def Frame d split: option.split)
  qed (use l' in \<open>simp_all add: read_frame_def\<close>)
next
  case (PingTick now now2)
  with assms(1) have "ping_tick now now2 l = Some l'" by simp
  then show ?thesis by (cases rule: ping_tickE) simp_all
next
  case (Request req)
  with assms(1) have "link_request K req l = Done (Some l')" by simp
  then show ?thesis by (cases rule: link_requestE) simp_all
qed (use assms(1) in \<open>auto simp: send_response_def take_message_def take_outgoing_def
    write_returns_def finish_link_def supervise_def
    split: if_splits list.splits reader_status.splits writer_status.splits option.splits prod.splits\<close>)

lemma link_step_finishing:
  assumes "link_step K ev l = Done (Some l')" and "ev \<noteq> Finish"
  shows "finishing l' = finishing l"
proof (cases ev)
  case (PingTick now now2)
  with assms have "ping_tick now now2 l = Some l'" by simp
  then show ?thesis by (cases rule: ping_tickE) simp_all
next
  case (Request req)
  with assms have "link_request K req l = Done (Some l')" by simp
  then show ?thesis by (cases rule: link_requestE) simp_all
next
  case (ReadFrame f)
  with assms show ?thesis
    by (auto simp: read_frame_def split: if_splits frame.splits outcome.splits prod.splits dispatch.splits)
qed (use assms in \<open>auto simp: send_response_def take_message_def take_outgoing_def write_returns_def supervise_def
    split: if_splits list.splits reader_status.splits writer_status.splits option.splits prod.splits\<close>)

lemma link_step_status:
  assumes "link_step K ev l = Done (Some l')" and "\<nexists>req. ev = Request req" and "ev \<noteq> Finish"
  shows "connect_status (link_client l') =
    (if ev = Supervise then Disconnected else connect_status (link_client l))"
  using assms(1,2)
  by (cases rule: link_step_clientE)
    (use assms(3) in \<open>auto simp: connection_over_view
      dest: same_client_fields[OF dispatch_same] same_client_fields[OF write_step_same]\<close>)

text \<open>What a task adds to the outgoing channel is a ping.\<close>

lemma link_step_outgoing:
  assumes "link_step K ev l = Done (Some l')" and "\<nexists>req. ev = Request req"
  shows "\<exists>pts. outgoing (link_client l') = outgoing (link_client l) @ pts \<and>
    (\<forall>pt \<in> set pts. pt = packet_and_token_new PingreqPacket)"
  using assms
  by (cases rule: link_step_clientE)
    (auto simp: connection_over_view send_outgoing_def dispatch_outgoing)

lemma link_step_pinging:
  "link_step K ev l = Done (Some l') \<Longrightarrow> pinging l' \<Longrightarrow> pinging l"
  by (cases ev)
    (auto simp: read_frame_def send_response_def take_message_def take_outgoing_def write_returns_def
      finish_link_def supervise_def ping_tick_def link_request_def bind_outcome_Done_iff Let_def
      simp del: do_request.simps
      split: if_splits frame.splits outcome.splits prod.splits dispatch.splits list.splits
        reader_status.splits writer_status.splits option.splits)


lemma handed_typed_moves:
  "client_moves c c' \<Longrightarrow> handed_typed c pt \<Longrightarrow> handed_typed c' pt"
  by (rule handed_typed_mono) (auto simp: client_moves_def keeps_account_def)

lemma handed_typed_ping: "handed_typed h (packet_and_token_new PingreqPacket)"
  by (simp add: handed_typed_def packet_and_token_new_def)

lemma conn_ok_task:
  assumes "link_step K ev l = Done (Some l')" and "conn_ok l" and "codec_laws K" and "task_event ev"
  shows "conn_ok l'"
proof -
  have ok: "link_ok l" using assms(2) by (simp add: conn_ok_def)
  have ev: "\<nexists>req. ev = Request req" "ev \<noteq> Finish" using assms(4) by auto
  note moves = link_step_moves[OF assms(1) ok ev(1)]
  obtain pts where out: "outgoing (link_client l') = outgoing (link_client l) @ pts"
    "\<forall>pt \<in> set pts. pt = packet_and_token_new PingreqPacket"
    using link_step_outgoing[OF assms(1) ev(1)] by blast
  have typed: "\<forall>pt \<in> set (outgoing (link_client l')). handed_typed (link_client l') pt"
  proof
    fix pt assume "pt \<in> set (outgoing (link_client l'))"
    with out consider "pt \<in> set (outgoing (link_client l))" | "pt = packet_and_token_new PingreqPacket" by auto
    then show "handed_typed (link_client l') pt"
      by cases (use assms(2) handed_typed_moves[OF moves] handed_typed_ping in \<open>auto simp: conn_ok_def\<close>)
  qed
  have "supervising l' \<or> tasks_over l'"
    using link_step_flags[OF assms(1)] assms(2) by (auto simp: conn_ok_def)
  moreover have "connect_status (link_client l') = Disconnected \<and> finishing l' = None \<longrightarrow> \<not> supervising l'"
    using link_step_status[OF assms(1) ev] link_step_finishing[OF assms(1) ev(2)] link_step_flags[OF assms(1)] assms(2)
    by (auto simp: conn_ok_def split: if_splits)
  moreover have "connect_status (link_client l') = Connecting \<longrightarrow> finishing l' \<noteq> None"
    using link_step_status[OF assms(1) ev] link_step_finishing[OF assms(1) ev(2)] assms(2)
    by (auto simp: conn_ok_def split: if_splits)
  moreover have "pinging l' \<longrightarrow> outgoing_tx (link_client l') \<noteq> None"
    using link_step_pinging[OF assms(1)] moves assms(2) by (auto simp: conn_ok_def client_moves_def)
  moreover have "reader l' \<noteq> ReadPanicked" "\<forall>p \<in> set (answered l'). is_reply p"
    using reader_step[OF assms(1,3)] assms(2) by (auto simp: conn_ok_def)
  ultimately show ?thesis
    using typed link_step_ok[OF assms(1) ok] by (simp add: conn_ok_def)
qed

lemma moved_live: "client_moves c c' \<Longrightarrow> tok_live c a \<Longrightarrow> tok_live c' a"
  by (simp add: client_moves_def grows_def)

lemma under_way_moves: "under_way req t pc c \<Longrightarrow> client_moves c c' \<Longrightarrow> under_way req t pc c'"
  unfolding client_moves_def by (blast intro: under_way_account)

lemma caller_ok_moves:
  assumes "caller_ok k l" and "client_moves (link_client l) (link_client l')" and "finishing l' = finishing l"
  shows "caller_ok k l'"
  using assms under_way_moves[OF _ assms(2)] moved_live[OF assms(2)]
  by (cases k) (auto simp: client_moves_def)

lemma session_ok_task:
  assumes "link_step K ev (conn s) = Done (Some l')" and "session_ok s" and "codec_laws K" and "task_event ev"
  shows "session_ok (s\<lparr>conn := l'\<rparr>)"
proof -
  have ev: "\<nexists>req. ev = Request req" "ev \<noteq> Finish" using assms(4) by auto
  have "link_ok (conn s)" using assms(2) by (simp add: session_ok_def conn_ok_def)
  from link_step_moves[OF assms(1) this ev(1)] caller_ok_moves link_step_finishing[OF assms(1) ev(2)]
    conn_ok_task[OF assms(1) _ assms(3,4)] assms(2)
  show ?thesis by (auto simp: session_ok_def)
qed

subsection \<open>The caller's steps keep it\<close>

text \<open>A step of the caller changes the client and leaves the tasks where they are.\<close>

lemma with_client_view [simp]:
  "session_client (with_client c s) = c"
  "conn (with_client c s) = (conn s)\<lparr>link_client := c\<rparr>"
  "caller (with_client c s) = caller s" "program (with_client c s) = program s"
  "printed (with_client c s) = printed s" "epoch (with_client c s) = epoch s"
  by (simp_all add: with_client_def)

lemma link_client_same [simp]: "l\<lparr>link_client := link_client l\<rparr> = l"
  by (cases l) simp

lemma tasks_over_client [simp]: "tasks_over (l\<lparr>link_client := c\<rparr>) = tasks_over l"
  by (simp add: tasks_over_def)

lemma conn_ok_client:
  assumes "conn_ok l" and "finishing l = None" and "client_inv c"
    and "outgoing c = outgoing (link_client l) @ pts" and "length (queued (l\<lparr>link_client := c\<rparr>)) \<le> capacity"
    and "outgoing_tx c = outgoing_tx (link_client l)" and "connect_status c = connect_status (link_client l)"
    and "\<And>pt. handed_typed (link_client l) pt \<Longrightarrow> handed_typed c pt" and "\<forall>pt \<in> set pts. handed_typed c pt"
  shows "conn_ok (l\<lparr>link_client := c\<rparr>)"
proof -
  have "channels_ok (l\<lparr>link_client := c\<rparr>)"
    by (rule channels_client[OF _ assms(4,5)]) (use assms(1) in \<open>simp add: conn_ok_def link_ok_def\<close>)
  with assms show ?thesis by (auto simp: conn_ok_def link_ok_def)
qed

lemma conn_ok_caller:
  assumes "conn_ok l" and "finishing l = None" and "caller_moves (link_client l) c"
  shows "conn_ok (l\<lparr>link_client := c\<rparr>)"
proof (rule conn_ok_client[OF assms(1,2), of _ "[]"])
  have "channels_ok l" using assms(1) by (simp add: conn_ok_def link_ok_def)
  from queued_same[OF this] show "length (queued (l\<lparr>link_client := c\<rparr>)) \<le> capacity"
    using assms(3) by (simp add: caller_moves_def)
  show "handed_typed (link_client l) pt \<Longrightarrow> handed_typed c pt" for pt
    using handed_typed_moves assms(3) by (auto simp: caller_moves_def)
qed (use assms(3) in \<open>auto simp: caller_moves_def client_moves_def\<close>)

lemma opens_token_typed:
  assumes "opens_token tk c c'" and "client_inv c" and "token_typed c u"
  shows "token_typed c' u"
proof -
  have "token_addr u \<noteq> next_addr c"
    using token_typed_live[OF assms(3)] assms(2) by (auto simp: client_inv_def state_inv_def heap_ok_def)
  with assms(1,3) show ?thesis by (simp add: opens_token_def token_typed_def data_at_def)
qed

lemma opens_token_live:
  assumes "opens_token tk c c'" and "client_inv c" and "tok_live c a"
  shows "cells c' a = cells c a"
  using assms by (auto simp: opens_token_def client_inv_def state_inv_def heap_ok_def)

lemma conn_ok_opens:
  assumes "conn_ok l" and "finishing l = None" and "opens_token tk (link_client l) c"
  shows "conn_ok (l\<lparr>link_client := c\<rparr>)"
proof (rule conn_ok_client[OF assms(1,2), of _ "[]"])
  have inv: "client_inv (link_client l)" and ok: "channels_ok l"
    using assms(1) by (simp_all add: conn_ok_def link_ok_def)
  from queued_same[OF ok] show "length (queued (l\<lparr>link_client := c\<rparr>)) \<le> capacity"
    using assms(3) by (simp add: opens_token_def)
  show "handed_typed (link_client l) pt \<Longrightarrow> handed_typed c pt" for pt
    by (erule handed_typed_mono)
      (auto intro: opens_token_typed[OF assms(3) inv]
        simp: publish_qos_def data_at_def opens_token_live[OF assms(3) inv])
qed (use assms(3) in \<open>auto simp: opens_token_def\<close>)


lemma session_ok_finishing:
  "session_ok s \<Longrightarrow> (\<forall>t ret. caller s \<noteq> Finishing t ret) \<Longrightarrow> finishing (conn s) = None"
  by (cases "caller s") (auto simp: session_ok_def)

lemma session_okD:
  assumes "session_ok s"
  shows "conn_ok (conn s)" "link_ok (conn s)" "client_inv (session_client s)" "channels_ok (conn s)"
    "caller_ok (caller s) (conn s)"
  using assms by (simp_all add: session_ok_def conn_ok_def link_ok_def)

lemma session_ok_caller:
  assumes "session_ok s" and "finishing (conn s) = None" and "caller_moves (session_client s) c"
    and "conn s' = (conn s)\<lparr>link_client := c\<rparr>" and "caller_ok (caller s') (conn s')"
  shows "session_ok s'"
  using conn_ok_caller[OF session_okD(1)[OF assms(1)] assms(2,3)] assms(4,5) by (simp add: session_ok_def)

lemma caller_moves_inv: "caller_moves c c' \<Longrightarrow> client_inv c'"
  by (simp add: caller_moves_def client_moves_def)

lemma caller_moves_trans: "caller_moves c c1 \<Longrightarrow> caller_moves c1 c2 \<Longrightarrow> caller_moves c c2"
  by (auto simp: caller_moves_def intro: client_moves_trans settles_bound_trans)

lemma caller_moves_live: "caller_moves c c' \<Longrightarrow> tok_live c a \<Longrightarrow> tok_live c' a"
  unfolding caller_moves_def by (blast intro: moved_live)

lemma resume_block_ok:
  assumes "session_ok s" and "finishing (conn s) = None" and "caller_moves (session_client s) (snd (snd b))"
    and "fst b \<in> {AtSelect, BlockExit} \<or> (\<exists>subs. fst b = Resubscribe subs)"
  shows "session_ok (resume_block b s)"
proof -
  obtain pc cnt c where b: "b = (pc, cnt, c)" by (cases b)
  show ?thesis
    by (rule session_ok_caller[OF assms(1,2), of c]) (use assms(2-4) in \<open>auto simp: b\<close>)
qed

lemma block_start_moves:
  "client_inv c \<Longrightarrow> caller_moves c (snd (snd (block_start c))) \<and> fst (block_start c) \<in> {AtSelect, BlockExit}"
  using block_head_client[of 0 c] by (simp add: block_start_def caller_moves_refl)

lemma session_ok_update:
  "session_ok (s\<lparr>program := calls\<rparr>) = session_ok s" "session_ok (s\<lparr>printed := errs\<rparr>) = session_ok s"
  by (simp_all add: session_ok_def)

lemma begin_request_ok:
  assumes "session_ok s" and "finishing (conn s) = None"
  shows "session_ok (begin_request req ret s)"
proof -
  note inv = session_okD(3)[OF assms(1)]
  from conn_ok_opens[OF session_okD(1)[OF assms(1)] assms(2) request_begin_opens[OF inv]]
    request_begin_under_way[OF inv] assms(2)
  show ?thesis by (simp add: session_ok_def begin_request_def)
qed

lemma accepted_client:
  assumes "client_inv c"
  shows "client_inv (adopt_state now ch (awaiting_connack out c))"
    and "token_typed (adopt_state now ch (awaiting_connack out c)) (Connect (next_addr c))"
proof -
  show "client_inv (adopt_state now ch (awaiting_connack out c))"
    using awaiting_view(1)[OF client_invD[OF assms]] by (simp add: client_inv_def adopt_state_def)
  show "token_typed (adopt_state now ch (awaiting_connack out c)) (Connect (next_addr c))"
    using awaiting_data[of out c] by (simp add: adopt_state_def) (simp add: token_typed_def connect_default_def)
qed

lemma connect_acceptsD:
  "connect_accepts st net first = Some (sent, sp) \<Longrightarrow>
     st = Disconnected \<and> net = NetOpen sent \<and> first = FirstPacket (ConnackPacket ConnectionAccepted sp)"
  by (induction st net first rule: connect_accepts.induct) simp_all

text \<open>The two ways a \<open>connect\<close> begins.\<close>

lemma begin_connect_cases:
  assumes "begin_connect K net first now ch ret s = Done s'"
  obtains (accepted) sent sp out where
      "connect_accepts (connect_status (session_client s)) net first = Some (sent, sp)"
      "s' = s\<lparr>conn := link_open sp (next_addr (session_client s))
          (adopt_state now ch (awaiting_connack out (session_client s))),
        caller := Finishing (next_addr (session_client s)) ret, epoch := Suc (next_addr (session_client s))\<rparr>"
    | (failed) token c where
      "connect_accepts (connect_status (session_client s)) net first = None"
      "connect K net first now ch (session_client s) = Done (token, c)"
      "s' = (with_client c s)\<lparr>caller := Awaiting token ret\<rparr>"
  using assms
  by (cases "connect_accepts (connect_status (session_client s)) net first")
    (auto simp: begin_connect_def Let_def bind_outcome_Done_iff)

lemma begin_connect_ok:
  assumes "begin_connect K net first now ch ret s = Done s'" and "session_ok s" and "finishing (conn s) = None"
  shows "session_ok s'"
proof -
  note inv = session_okD(3)[OF assms(2)]
  from assms(1) show ?thesis
  proof (cases rule: begin_connect_cases)
    case (accepted sent sp out)
    note new = accepted_client[OF inv, of now ch out]
    have "link_ok (conn s')"
      unfolding accepted(2) using link_ok_open[OF new(1)] by (simp add: adopt_state_def)
    with new(2) show ?thesis
      by (simp add: session_ok_def conn_ok_def accepted(2) link_open_def)
        (simp add: adopt_state_def awaiting_connack_def set_connect_status_def)
  next
    case (failed token c)
    from connect_fails[OF inv failed(1,2)] have t: "opens_token (Connect token) (session_client s) c" by blast
    from conn_ok_opens[OF session_okD(1)[OF assms(2)] assms(3) t] assms(3) t show ?thesis
      using token_typed_live[of c "Connect token"]
      by (auto simp: session_ok_def failed(3) opens_token_def)
  qed
qed

lemma resume_with_ok:
  assumes "session_ok s" and "finishing (conn s) = None" and "tok_live (session_client s) t"
  shows "session_ok (resume_with ret t err s)"
proof -
  have "session_ok (s\<lparr>caller := k\<rparr>)" "session_ok (s\<lparr>caller := k, printed := errs\<rparr>)"
    if "caller_ok k (conn s)" for k errs
    using that assms(1) by (simp_all add: session_ok_def)
  moreover have "session_ok (resume_block (block_connected err t cnt (session_client s)) s)" for cnt
    by (rule resume_block_ok[OF assms(1,2)]) (use block_connected_moves[OF session_okD(3)[OF assms(1)]] in blast)+
  ultimately show ?thesis
    using assms(2) by (cases "(ret, t, err, s)" rule: resume_with.cases) auto
qed

lemma handed_typed_step_frame: "step_frame t c c' \<Longrightarrow> handed_typed c pt \<Longrightarrow> handed_typed c' pt"
  by (rule handed_typed_mono) (auto simp: step_frame_qos, simp add: step_frame_def)

lemma advance_request_ok:
  assumes "advance_request K req t pc ret s = Done (Some s')" and "session_ok s"
    and "caller s = InRequest req t pc ret"
  shows "session_ok s'"
proof (cases "pc = Returned")
  case True
  with assms show ?thesis by (auto simp: advance_request_def session_ok_def under_way_live)
next
  case False
  let ?c = "session_client s" let ?ok = "writer (conn s) \<noteq> WriteEnded"
  from False assms(1) obtain pc' c where room: "\<not> must_wait pc (conn s)"
    and run: "request_step K ?ok req t (pc, ?c) = Done (pc', c)"
    and s': "s' = (with_client c s)\<lparr>caller := InRequest req t pc' ret\<rparr>"
    by (auto simp: advance_request_def bind_outcome_Done_iff split: if_splits)
  have way: "under_way req t pc ?c" and fin: "finishing (conn s) = None"
    using session_okD(5)[OF assms(2)] assms(3) by simp_all
  note sound = request_step_sound[OF way session_okD(3)[OF assms(2)] run, unfolded step_sound_def fst_conv snd_conv]
  have frame: "step_frame t ?c c" using sound by blast
  have "\<exists>pts. outgoing c = outgoing ?c @ pts \<and> (\<forall>pt \<in> set pts. handed_typed ?c pt) \<and>
      length (queued ((conn s)\<lparr>link_client := c\<rparr>)) \<le> capacity"
  proof (cases "outgoing c = outgoing ?c")
    case True
    with queued_same[OF session_okD(4)[OF assms(2)]] show ?thesis by simp
  next
    case False
    with sound obtain p subs where pc: "pc = Offering p (request_token req t) subs" and ok: ?ok
      and out: "outgoing c = outgoing ?c @ [packet_and_token_new_with p (request_token req t)]"
      by blast
    have "handed_typed ?c (packet_and_token_new_with p (request_token req t))"
      using way by (simp add: pc under_way_def handed_typed_def packet_and_token_new_with_def)
    moreover have "taken (conn s) \<le> length (outgoing ?c)" "length (queued (conn s)) < capacity"
      using session_okD(4)[OF assms(2)] room ok by (auto simp: channels_ok_def accounted_def must_wait_def pc)
    ultimately show ?thesis using out by (simp add: queued_def)
  qed
  then obtain pts where pts: "outgoing c = outgoing ?c @ pts" "\<forall>pt \<in> set pts. handed_typed ?c pt"
    "length (queued ((conn s)\<lparr>link_client := c\<rparr>)) \<le> capacity" by blast
  have "conn_ok ((conn s)\<lparr>link_client := c\<rparr>)"
    by (rule conn_ok_client[OF session_okD(1)[OF assms(2)] fin _ pts(1,3)])
      (use sound frame pts(2) handed_typed_step_frame[OF frame] in \<open>auto simp: step_frame_def\<close>)
  with sound fin show ?thesis by (simp add: session_ok_def s')
qed

lemma finishing_ok:
  assumes "finish_link (conn s) = Some l" and "session_ok s" and "caller s = Finishing t ret"
  shows "session_ok (s\<lparr>conn := l, caller := Awaiting t ret\<rparr>)"
proof -
  have step: "link_step K Finish (conn s) = Done (Some l)" for K :: "'a libs" using assms(1) by simp
  note ok = session_okD(2)[OF assms(2)]
  have moves: "client_moves (session_client s) (link_client l)" by (rule link_step_moves[OF step ok]) simp
  obtain sp where l: "l = (conn s)\<lparr>link_client := finish_connect sp t (session_client s), finishing := None\<rparr>"
    and t: "token_typed (session_client s) (Connect t)"
    using assms(1) session_okD(5)[OF assms(2)] assms(3) by (auto simp: finish_link_def)
  have "conn_ok l"
    using session_okD(1)[OF assms(2)] link_step_ok[OF step ok] handed_typed_moves[OF moves]
    by (auto simp: conn_ok_def l tasks_over_def)
  then show ?thesis
    using moved_live[OF moves] token_typed_live[OF t] by (simp add: session_ok_def l)
qed


text \<open>The program's next call, and the steps of the call under way.\<close>

lemma next_call_ok:
  assumes "next_call K net first now ch s = Done (Some s')" and "session_ok s"
  shows "session_ok s'"
proof -
  have run: "caller s = Running" using assms(1) by (auto simp: next_call_def split: if_splits)
  have fin: "finishing (conn s) = None" by (rule session_ok_finishing[OF assms(2)]) (simp add: run)
  have less: "session_ok (s\<lparr>program := calls\<rparr>)" "finishing (conn (s\<lparr>program := calls\<rparr>)) = None" for calls
    using assms(2) fin by (simp_all add: session_ok_update)
  show ?thesis
  proof (cases "program s")
    case Nil
    with assms run fin show ?thesis by (auto simp: next_call_def session_ok_def)
  next
    case (Cons call calls)
    show ?thesis
    proof (cases call)
      case (CallConnect e)
      with assms(1) run Cons have
        "begin_connect K net first now ch (ToProgram e) (s\<lparr>program := calls\<rparr>) = Done s'"
        by (auto simp: next_call_def bind_outcome_Done_iff)
      from begin_connect_ok[OF this less] show ?thesis .
    next
      case (CallRequest req e)
      with assms(1) run Cons begin_request_ok[OF less] show ?thesis by (auto simp: next_call_def)
    next
      case CallBlock
      with assms(1) run Cons have "s' = resume_block (block_start (session_client s)) (s\<lparr>program := calls\<rparr>)"
        by (simp add: next_call_def)
      then show ?thesis
        using resume_block_ok[OF less, of calls "block_start (session_client s)"]
          block_start_moves[OF session_okD(3)[OF assms(2)]]
        by auto
    qed
  qed
qed

lemma advance_ok:
  assumes "advance K s = Done (Some s')" and "session_ok s"
  shows "session_ok s'"
proof (cases "caller s")
  case (Finishing t ret)
  with assms(1) obtain l where "finish_link (conn s) = Some l" "s' = s\<lparr>conn := l, caller := Awaiting t ret\<rparr>"
    by (auto simp: advance_def)
  with finishing_ok[OF _ assms(2) Finishing] show ?thesis by simp
next
  case (InRequest req t pc ret)
  with assms(1) have "advance_request K req t pc ret s = Done (Some s')" by (simp add: advance_def)
  from advance_request_ok[OF this assms(2) InRequest] show ?thesis .
next
  case (InBlock pc cnt)
  have fin: "finishing (conn s) = None" by (rule session_ok_finishing[OF assms(2)]) (simp add: InBlock)
  from InBlock assms(1) consider "s' = resume_block (block_head cnt (session_client s)) s"
    | req ret where "s' = begin_request req ret s"
    by (auto simp: advance_def split: block_pc.splits list.splits)
  then show ?thesis
  proof cases
    case 1
    then show ?thesis
      using resume_block_ok[OF assms(2) fin, of "block_head cnt (session_client s)"] block_head_client[of cnt "session_client s"]
        caller_moves_refl[OF session_okD(3)[OF assms(2)]]
      by auto
  next
    case 2
    with begin_request_ok[OF assms(2) fin] show ?thesis by simp
  qed
qed (use assms(1) in \<open>simp_all add: advance_def\<close>)

lemma session_ok_with_client:
  assumes "session_ok s" and "finishing (conn s) = None" and "caller_moves (session_client s) c"
  shows "session_ok (with_client c s)"
proof (rule session_ok_caller[OF assms])
  show "caller_ok (caller (with_client c s)) (conn (with_client c s))"
    using caller_ok_moves[of "caller s" "conn s" "conn (with_client c s)"] session_okD(5)[OF assms(1)] assms(3)
    by (simp add: caller_moves_def)
qed simp

lemma poll_awaited_ok:
  assumes "poll_awaited w s = Some s'" and "session_ok s"
  shows "session_ok s'"
proof -
  from assms(1) obtain t ret where k: "caller s = Awaiting t ret"
    by (auto simp: poll_awaited_def split: caller.splits)
  have fin: "finishing (conn s) = None" by (rule session_ok_finishing[OF assms(2)]) (simp add: k)
  obtain r c where poll: "tok_poll t w (session_client s) = (r, c)" by (cases "tok_poll t w (session_client s)")
  have c: "c = snd (tok_poll t w (session_client s))" by (simp add: poll)
  note moves = caller_moves_poll[OF session_okD(3)[OF assms(2)], of t w, folded c]
  note ok = session_ok_with_client[OF assms(2) fin moves]
  have "tok_live (session_client (with_client c s)) t"
    using caller_moves_live[OF moves] session_okD(5)[OF assms(2)] k by simp
  from resume_with_ok[OF ok _ this] fin ok show ?thesis
    using assms(1) by (cases r) (auto simp: poll_awaited_def k poll)
qed

lemma sleep_elapsed_ok:
  assumes "sleep_elapsed s = Some s'" and "session_ok s"
  shows "session_ok s'"
proof -
  from assms(1) obtain cnt where k: "caller s = InBlock AtSelect cnt"
    and s': "s' = resume_block (block_sleep cnt (session_client s)) s"
    by (auto simp: sleep_elapsed_def split: caller.splits block_pc.splits)
  have "finishing (conn s) = None" by (rule session_ok_finishing[OF assms(2)]) (simp add: k)
  from resume_block_ok[OF assms(2) this] block_sleep_moves[OF session_okD(3)[OF assms(2)], of cnt]
  show ?thesis unfolding s' by blast
qed

lemma notified_ok:
  assumes "notified K net first now ch s = Done (Some s')" and "session_ok s"
  shows "session_ok s'"
proof -
  let ?s = "with_client ((session_client s)\<lparr>notify_permit := False\<rparr>) s"
  from assms(1) obtain cnt where k: "caller s = InBlock AtSelect cnt"
    and run: "begin_connect K net first now ch (ToBlock (cnt + 1)) ?s = Done s'"
    by (auto simp: notified_def bind_outcome_Done_iff split: caller.splits block_pc.splits if_splits)
  have fin: "finishing (conn s) = None" by (rule session_ok_finishing[OF assms(2)]) (simp add: k)
  have "session_ok ?s"
    by (rule session_ok_with_client[OF assms(2) fin caller_moves_permit[OF session_okD(3)[OF assms(2)]]])
  from begin_connect_ok[OF run this] fin show ?thesis by simp
qed

lemma session_step_ok:
  assumes "session_step K ev s = Done (Some s')" and "session_ok s" and "codec_laws K"
  shows "session_ok s'"
proof (cases ev)
  case (Task e)
  with assms(1) obtain l where "link_step K e (conn s) = Done (Some l)" "s' = s\<lparr>conn := l\<rparr>" "task_event e"
    by (auto simp: bind_outcome_Done_iff simp del: link_step.simps split: if_splits)
  with session_ok_task[OF _ assms(2,3)] show ?thesis by blast
qed (use assms(1) next_call_ok[OF _ assms(2)] advance_ok[OF _ assms(2)] poll_awaited_ok[OF _ assms(2)]
    sleep_elapsed_ok[OF _ assms(2)] notified_ok[OF _ assms(2)] in auto)

lemma session_start_ok: "session_ok (session_start K now opts calls)"
proof -
  have inv: "client_inv (mqtt_client_new K now empty_heap opts)" by (rule client_inv_new[OF empty_heap_ok])
  have new: "outgoing (mqtt_client_new K now empty_heap opts) = []"
    by (simp add: mqtt_client_new_def state_new_def state.extend_def heap.extend_def)
  have "accounted (link_none (mqtt_client_new K now empty_heap opts)) [] [] []"
    by (simp add: accounted_def link_none_def new queued_def capacity_def)
  from channels_okI[OF this] inv new show ?thesis
    by (simp add: session_ok_def conn_ok_def link_ok_def session_start_def Let_def)
      (simp add: link_none_def tasks_over_def)
qed

lemma session_run_ok: "session_run K s evs s' \<Longrightarrow> session_ok s \<Longrightarrow> codec_laws K \<Longrightarrow> session_ok s'"
  by (induction rule: session_run.induct) (auto dest: session_step_ok)


subsection \<open>Which steps panic\<close>

fun transport_panics :: "session_event \<Rightarrow> bool" where
  "transport_panics (NextCall net first now ch) \<longleftrightarrow> net = NetPanic"
| "transport_panics (Notified net first now ch) \<longleftrightarrow> net = NetPanic"
| "transport_panics ev \<longleftrightarrow> False"

text \<open>
  In a build with overflow checks the counter of \<open>block\<close>'s attempts overflows, or a request's search for an identifier.
\<close>

definition overflows :: "'c libs \<Rightarrow> 'c session \<Rightarrow> bool" where
  "overflows K s \<longleftrightarrow> overflow_checks K \<and>
     (case caller s of
        InBlock AtSelect cnt \<Rightarrow> cnt = 65535
      | InRequest req t TakingId ret \<Rightarrow> get_id True (request_token req t) (packet_ids (session_client s)) = Panic
      | _ \<Rightarrow> False)"

lemma begin_connect_panics:
  assumes "begin_connect K net first now ch ret s = Panic" and "build_connect_packet K (options (session_client s)) \<noteq> Panic"
  shows "net = NetPanic \<and> connect_status (session_client s) = Disconnected"
proof (cases "connect_accepts (connect_status (session_client s)) net first")
  case None
  with assms(1) have panic: "connect K net first now ch (session_client s) = Panic"
    by (auto simp: begin_connect_def bind_outcome_Panic_iff Let_def)
  then have "connect_status (session_client s) = Disconnected"
    by (cases "connect_status (session_client s)") (simp_all add: connect_eq Let_def)
  with panic connect_panics assms(2) show ?thesis by blast
next
  case (Some r)
  with assms show ?thesis by (cases r) (auto simp: begin_connect_def bind_outcome_Panic_iff Let_def)
qed

lemma link_step_returns: "task_event ev \<Longrightarrow> link_step K ev l \<noteq> Panic"
  by (cases ev) simp_all

lemma session_step_panics:
  assumes "session_step K ev s = Panic" and "session_ok s" and "build_connect_packet K (options (session_client s)) \<noteq> Panic"
  shows "transport_panics ev \<and> connect_status (session_client s) = Disconnected \<or> overflows K s"
proof (cases ev)
  case (Task e)
  with assms(1) link_step_returns[of e K "conn s"] show ?thesis
    by (auto simp: bind_outcome_Panic_iff simp del: link_step.simps split: if_splits)
next
  case (NextCall net first now ch)
  with assms(1) obtain ret calls where "begin_connect K net first now ch ret (s\<lparr>program := calls\<rparr>) = Panic"
    by (auto simp: next_call_def bind_outcome_Panic_iff split: if_splits list.splits call.splits)
  from begin_connect_panics[OF this] assms(3) NextCall show ?thesis by simp
next
  case Advance
  with assms(1) obtain req t pc ret where k: "caller s = InRequest req t pc ret"
    and "advance_request K req t pc ret s = Panic"
    by (auto simp: advance_def split: caller.splits block_pc.splits list.splits)
  then have "request_step K (writer (conn s) \<noteq> WriteEnded) req t (pc, session_client s) = Panic"
    by (auto simp: advance_request_def bind_outcome_Panic_iff split: if_splits)
  from request_step_panics[OF _ this] session_okD(5)[OF assms(2)] k show ?thesis by (auto simp: overflows_def)
next
  case (Notified net first now ch)
  with assms(1) consider cnt where "caller s = InBlock AtSelect cnt" "overflow_checks K" "cnt = 65535"
    | ret where "begin_connect K net first now ch ret (with_client ((session_client s)\<lparr>notify_permit := False\<rparr>) s) = Panic"
    by (auto simp: notified_def bind_outcome_Panic_iff split: caller.splits block_pc.splits if_splits)
  then show ?thesis
  proof cases
    case 1
    then show ?thesis by (simp add: overflows_def)
  next
    case 2
    from begin_connect_panics[OF this] assms(3) Notified show ?thesis by simp
  qed
qed (use assms(1) in simp_all)

end
