(* ===== verification/Session_Account.thy ===== *)
theory Session_Account
  imports Session_Safety
begin

section \<open>The requests of a session\<close>

text \<open>
  What becomes of the requests of a program (\<open>Session\<close>): as long as a connection lives, each of them is
  with the caller, in the identifier table or on its way to the socket; and a request that is nowhere
  any more keeps its caller waiting for good.
\<close>

subsection \<open>The kinds of step\<close>

text \<open>
  What one step does to the connection: a task's, the end of \<open>connect\<close>, the caller's own code, a new token
  (of a request, or of a connect that is not accepted), a step of a request, or a new connection.
\<close>

definition idle :: "caller \<Rightarrow> bool" where
  "idle k \<longleftrightarrow> k = Running \<or> (\<exists>pc cnt. k = InBlock pc cnt)"

definition new_connection :: "'c session \<Rightarrow> 'c session \<Rightarrow> bool" where
  "new_connection s s' \<longleftrightarrow>
     idle (caller s) \<and> connect_status (session_client s) = Disconnected \<and>
     (\<exists>sp c ret. client_inv c \<and> outgoing c = [] \<and> outgoing_tx c \<noteq> None \<and> packet_ids c = packet_ids (session_client s) \<and>
        (\<forall>a. a \<noteq> next_addr (session_client s) \<longrightarrow> cells c a = cells (session_client s) a) \<and>
        next_addr c = Suc (next_addr (session_client s)) \<and> options c = options (session_client s) \<and>
        conn s' = link_open sp (next_addr (session_client s)) c \<and>
        caller s' = Finishing (next_addr (session_client s)) ret \<and> epoch s' = next_addr c)"

inductive session_kind :: "'c libs \<Rightarrow> 'c session \<Rightarrow> 'c session \<Rightarrow> bool" for K s where
  by_task: "link_step K e (conn s) = Done (Some (conn s')) \<Longrightarrow> task_event e \<Longrightarrow>
    caller s' = caller s \<Longrightarrow> epoch s' = epoch s \<Longrightarrow> session_kind K s s'"
| by_finish: "caller s = Finishing t ret \<Longrightarrow> finish_link (conn s) = Some (conn s') \<Longrightarrow>
    caller s' = Awaiting t ret \<Longrightarrow> epoch s' = epoch s \<Longrightarrow> session_kind K s s'"
| by_caller: "caller_moves (session_client s) c \<Longrightarrow> conn s' = (conn s)\<lparr>link_client := c\<rparr> \<Longrightarrow> epoch s' = epoch s \<Longrightarrow>
    finishing (conn s) = None \<Longrightarrow> (\<And>req t pc ret. caller s = InRequest req t pc ret \<Longrightarrow> pc = Returned) \<Longrightarrow>
    (\<And>req t pc ret. caller s' \<noteq> InRequest req t pc ret) \<Longrightarrow> session_kind K s s'"
| by_token: "opens_token tk (session_client s) c \<Longrightarrow> conn s' = (conn s)\<lparr>link_client := c\<rparr> \<Longrightarrow> epoch s' = epoch s \<Longrightarrow>
    idle (caller s) \<Longrightarrow>
    (\<exists>req. tk = request_token req (token_addr tk) \<and> caller s' = InRequest req (token_addr tk) Checking ret) \<and>
      \<not> tok_done c (token_addr tk) \<or>
    tk = Connect (token_addr tk) \<and> caller s' = Awaiting (token_addr tk) ret \<Longrightarrow> session_kind K s s'"
| by_request: "caller s = InRequest req t pc ret \<Longrightarrow>
    request_step K (writer (conn s) \<noteq> WriteEnded) req t (pc, session_client s) = Done (pc', c) \<Longrightarrow>
    step_sound (writer (conn s) \<noteq> WriteEnded) req t pc (session_client s) (pc', c) \<Longrightarrow>
    conn s' = (conn s)\<lparr>link_client := c\<rparr> \<Longrightarrow> caller s' = InRequest req t pc' ret \<Longrightarrow> epoch s' = epoch s \<Longrightarrow>
    session_kind K s s'"
| by_connection: "new_connection s s' \<Longrightarrow> session_kind K s s'"

lemma idle_finishing: "idle (caller s) \<Longrightarrow> session_ok s \<Longrightarrow> finishing (conn s) = None"
  by (auto simp: idle_def intro: session_ok_finishing)

lemma accepted_connection:
  fixes c0 :: "'c mqtt_client"
  assumes "client_inv c0" and "c = adopt_state now ch (awaiting_connack out (c0\<lparr>notify_permit := b\<rparr>))"
  shows "client_inv c \<and> outgoing c = [] \<and> outgoing_tx c \<noteq> None \<and> packet_ids c = packet_ids c0 \<and>
    (\<forall>a. a \<noteq> next_addr c0 \<longrightarrow> cells c a = cells c0 a) \<and> next_addr c = Suc (next_addr c0) \<and> options c = options c0"
proof -
  have "client_inv c" unfolding assms(2) by (rule accepted_client) (simp add: assms(1))
  then show ?thesis
    by (simp add: assms(2) adopt_state_def awaiting_connack_def set_connect_status_def cells_ops next_addr_ops)
qed

lemma session_kind_connect:
  assumes "begin_connect K net first now ch ret (with_client ((session_client s)\<lparr>notify_permit := b\<rparr>) s) = Done s'"
    and "session_ok s" and "idle (caller s)"
  shows "session_kind K s s'"
proof -
  let ?c = "(session_client s)\<lparr>notify_permit := b\<rparr>"
  have inv: "client_inv ?c" using session_okD(3)[OF assms(2)] by simp
  from assms(1) show ?thesis
  proof (cases rule: begin_connect_cases)
    case (accepted sent sp out)
    let ?a = "adopt_state now ch (awaiting_connack out ?c)"
    note new = accepted_connection[OF session_okD(3)[OF assms(2)] refl, of now ch out b]
    have "conn s' = link_open sp (next_addr (session_client s)) ?a \<and>
        caller s' = Finishing (next_addr (session_client s)) ret \<and> epoch s' = next_addr ?a"
      using new by (simp add: accepted(2))
    moreover have "connect_status (session_client s) = Disconnected"
      using connect_acceptsD[OF accepted(1)] by simp
    ultimately have "new_connection s s'"
      unfolding new_connection_def using new assms(3) by blast
    then show ?thesis by (rule by_connection)
  next
    case (failed token c)
    have "opens_token (Connect token) ?c c"
      using connect_fails[of ?c net first K now ch token c] inv failed(1,2) by auto
    then have "opens_token (Connect token) (session_client s) c" by (auto simp: opens_token_def)
    from by_token[OF this _ _ assms(3)] show ?thesis unfolding failed(3) by simp
  qed
qed

lemma session_kind_request:
  assumes "session_ok s" and "idle (caller s)" and "caller s' = InRequest req (next_addr (session_client s)) Checking ret"
    and "conn s' = (conn s)\<lparr>link_client := request_begin req (session_client s)\<rparr>" and "epoch s' = epoch s"
  shows "session_kind K s s'"
  by (rule by_token[OF request_begin_opens[OF session_okD(3)[OF assms(1)]] assms(4,5,2)])
    (use assms(3) request_begin_under_way[OF session_okD(3)[OF assms(1)], of req] in \<open>auto simp: prepared_def\<close>)

lemma new_connection_program: "new_connection (s\<lparr>program := calls\<rparr>) s' = new_connection s s'"
  by (simp add: new_connection_def)

lemma session_kind_program:
  assumes "session_kind K (s\<lparr>program := calls\<rparr>) s'"
  shows "session_kind K s s'"
  using assms
proof cases
  case (by_caller c)
  then show ?thesis by (intro session_kind.by_caller[of s c s']) simp_all
next
  case by_connection
  then show ?thesis unfolding new_connection_program by (rule session_kind.by_connection)
qed (auto intro: by_task by_finish by_token by_request)

text \<open>Every step is of one of the kinds.\<close>

lemma caller_moves_kind:
  assumes "session_ok s" and "idle (caller s) \<or> (\<exists>t ret. caller s = Awaiting t ret)"
    and "caller_moves (session_client s) c" and "conn s' = (conn s)\<lparr>link_client := c\<rparr>" and "epoch s' = epoch s"
    and "\<And>req t pc ret. caller s' \<noteq> InRequest req t pc ret"
  shows "session_kind K s s'"
proof (rule by_caller[OF assms(3-5) _ _ assms(6)])
  show "finishing (conn s) = None"
    using session_ok_finishing[OF assms(1)] assms(2) by (auto simp: idle_def)
qed (use assms(2) in \<open>auto simp: idle_def\<close>)

lemma resume_block_view:
  "conn (resume_block b s) = (conn s)\<lparr>link_client := snd (snd b)\<rparr>" "epoch (resume_block b s) = epoch s"
  "caller (resume_block b s) \<noteq> InRequest req t pc ret"
  by (cases b; simp)+

lemma next_call_kind:
  assumes "next_call K net first now ch s = Done (Some s')" and "session_ok s"
  shows "session_kind K s s'"
proof -
  have run: "caller s = Running" using assms(1) by (auto simp: next_call_def split: if_splits)
  then have idle: "idle (caller s)" by (simp add: idle_def)
  have less: "session_ok (s\<lparr>program := calls\<rparr>)" for calls using assms(2) by (simp add: session_ok_update)
  note inv = session_okD(3)[OF assms(2)]
  show ?thesis
  proof (cases "program s")
    case Nil
    with assms(1) run have "s' = s\<lparr>caller := Exited\<rparr>" by (simp add: next_call_def)
    then show ?thesis using caller_moves_refl[OF inv] idle
      by (intro caller_moves_kind[OF assms(2), of "session_client s"]) simp_all
  next
    case (Cons call calls)
    show ?thesis
    proof (cases call)
      case (CallConnect e)
      with assms(1) run Cons have
        "begin_connect K net first now ch (ToProgram e) (s\<lparr>program := calls\<rparr>) = Done s'"
        by (auto simp: next_call_def bind_outcome_Done_iff)
      then have "session_kind K (s\<lparr>program := calls\<rparr>) s'"
        using session_kind_connect[where s = "s\<lparr>program := calls\<rparr>" and b = "notify_permit (session_client s)"]
          less idle by (simp add: with_client_def)
      then show ?thesis by (rule session_kind_program)
    next
      case (CallRequest req e)
      with assms(1) run Cons have s': "s' = begin_request req (ToProgram e) (s\<lparr>program := calls\<rparr>)"
        by (simp add: next_call_def)
      show ?thesis
        by (rule session_kind_request[OF assms(2) idle, of _ req "ToProgram e"]) (simp_all add: s' begin_request_def)
    next
      case CallBlock
      with assms(1) run Cons have "s' = resume_block (block_start (session_client s)) (s\<lparr>program := calls\<rparr>)"
        by (simp add: next_call_def)
      then show ?thesis
        using block_start_moves[OF inv] idle
        by (intro caller_moves_kind[OF assms(2)]) (simp_all add: resume_block_view)
    qed
  qed
qed

lemma advance_kind:
  assumes "advance K s = Done (Some s')" and "session_ok s"
  shows "session_kind K s s'"
proof (cases "caller s")
  case (Finishing t ret)
  with assms(1) show ?thesis by (auto simp: advance_def intro: by_finish[OF Finishing])
next
  case (InRequest req t pc ret)
  with assms(1) have a: "advance_request K req t pc ret s = Done (Some s')" by (simp add: advance_def)
  note inv = session_okD(3)[OF assms(2)]
  have fin: "finishing (conn s) = None" by (rule session_ok_finishing[OF assms(2)]) (simp add: InRequest)
  show ?thesis
  proof (cases "pc = Returned")
    case True
    with a have "s' = s\<lparr>caller := Awaiting t ret\<rparr>" by (simp add: advance_request_def)
    with caller_moves_refl[OF inv] fin InRequest True show ?thesis by (intro by_caller[of s "session_client s"]) simp_all
  next
    case False
    with a obtain pc' c where
      run: "request_step K (writer (conn s) \<noteq> WriteEnded) req t (pc, session_client s) = Done (pc', c)"
      and s': "s' = (with_client c s)\<lparr>caller := InRequest req t pc' ret\<rparr>"
      by (auto simp: advance_request_def bind_outcome_Done_iff split: if_splits)
    have "under_way req t pc (session_client s)" using session_okD(5)[OF assms(2)] InRequest by simp
    from by_request[OF InRequest run request_step_sound[OF this inv run]] show ?thesis by (simp add: s')
  qed
next
  case (InBlock pc cnt)
  have idle: "idle (caller s)" by (simp add: InBlock idle_def)
  from InBlock assms(1) consider "s' = resume_block (block_head cnt (session_client s)) s"
    | req ret where "s' = begin_request req ret s"
    by (auto simp: advance_def split: block_pc.splits list.splits)
  then show ?thesis
  proof cases
    case 1
    then show ?thesis
      using caller_moves_refl[OF session_okD(3)[OF assms(2)]] idle block_head_client(1)[of cnt "session_client s"]
      by (intro caller_moves_kind[OF assms(2), of "session_client s"]) (simp_all add: resume_block_view)
  next
    case 2
    then show ?thesis
      by (intro session_kind_request[OF assms(2) idle, of _ req ret]) (simp_all add: begin_request_def)
  qed
qed (use assms(1) in \<open>simp_all add: advance_def\<close>)

lemma resume_with_view:
  "client_inv (session_client s) \<Longrightarrow> \<exists>c. caller_moves (session_client s) c \<and>
    conn (resume_with ret t err s) = (conn s)\<lparr>link_client := c\<rparr> \<and> epoch (resume_with ret t err s) = epoch s \<and>
    (\<forall>req u pc ret'. caller (resume_with ret t err s) \<noteq> InRequest req u pc ret')"
proof -
  assume inv: "client_inv (session_client s)"
  have same: "conn s = (conn s)\<lparr>link_client := session_client s\<rparr>" by simp
  show ?thesis
  proof (cases ret)
    case (ToBlock cnt)
    then show ?thesis
      using block_connected_moves[OF inv, of err t cnt] by (auto simp: resume_block_view)
  qed (cases "(ret, t, err, s)" rule: resume_with.cases; use caller_moves_refl[OF inv] same in auto)+
qed

lemma poll_awaited_kind:
  assumes "poll_awaited w s = Some s'" and "session_ok s"
  shows "session_kind K s s'"
proof -
  from assms(1) obtain t ret where k: "caller s = Awaiting t ret"
    by (auto simp: poll_awaited_def split: caller.splits)
  obtain r c where poll: "tok_poll t w (session_client s) = (r, c)" by (cases "tok_poll t w (session_client s)")
  have c: "c = snd (tok_poll t w (session_client s))" by (simp add: poll)
  note moves = caller_moves_poll[OF session_okD(3)[OF assms(2)], of t w, folded c]
  note kind = caller_moves_kind[OF assms(2), unfolded k]
  show ?thesis
  proof (cases r)
    case (Ready err)
    with assms(1) poll have s': "s' = resume_with ret t err (with_client c s)" by (simp add: poll_awaited_def k)
    have "client_inv (session_client (with_client c s))" using caller_moves_inv[OF moves] by simp
    from resume_with_view[OF this, of ret t err] obtain c' where
      "caller_moves c c'" "conn s' = (conn s)\<lparr>link_client := c'\<rparr>" "epoch s' = epoch s"
      "\<And>req u pc ret'. caller s' \<noteq> InRequest req u pc ret'"
      by (auto simp: s')
    from kind[OF _ caller_moves_trans[OF moves this(1)] this(2-4)] show ?thesis by simp
  next
    case Pending
    with assms(1) poll have "s' = with_client c s" by (simp add: poll_awaited_def k)
    with kind[OF _ moves, of s'] show ?thesis by (simp add: k)
  qed
qed

lemma session_step_kind:
  assumes "session_step K ev s = Done (Some s')" and "session_ok s"
  shows "session_kind K s s'"
proof (cases ev)
  case (Task e)
  with assms(1) have "link_step K e (conn s) = Done (Some (conn s'))" "s' = s\<lparr>conn := conn s'\<rparr>" "task_event e"
    by (auto simp: bind_outcome_Done_iff simp del: link_step.simps split: if_splits)
  then have "link_step K e (conn s) = Done (Some (conn s'))" "caller s' = caller s" "epoch s' = epoch s"
    by (simp, metis session.select_convs(2) session.update_convs(1) session.surjective, metis session.select_convs(5) session.update_convs(1) session.surjective)
  with \<open>task_event e\<close> show ?thesis by (intro by_task[of K e s s'])
next
  case SleepElapsed
  with assms(1) obtain cnt where k: "caller s = InBlock AtSelect cnt"
    and s': "s' = resume_block (block_sleep cnt (session_client s)) s"
    by (auto simp: sleep_elapsed_def split: caller.splits block_pc.splits)
  show ?thesis
    using block_sleep_moves[OF session_okD(3)[OF assms(2)], of cnt] k
    by (intro caller_moves_kind[OF assms(2)]) (auto simp: s' resume_block_view idle_def)
next
  case (Notified net first now ch)
  with assms(1) obtain cnt where k: "caller s = InBlock AtSelect cnt"
    and run: "begin_connect K net first now ch (ToBlock (cnt + 1))
      (with_client ((session_client s)\<lparr>notify_permit := False\<rparr>) s) = Done s'"
    by (auto simp: notified_def bind_outcome_Done_iff split: caller.splits block_pc.splits if_splits)
  from session_kind_connect[OF run assms(2)] k show ?thesis by (simp add: idle_def)
qed (use assms(1) next_call_kind[OF _ assms(2)] advance_kind[OF _ assms(2)] poll_awaited_kind[OF _ assms(2)] in auto)


subsection \<open>What every step keeps\<close>

lemma session_kind_options:
  assumes "session_kind K s s'" and "session_ok s"
  shows "options (session_client s') = options (session_client s)"
  using assms(1)
proof cases
  case (by_task e)
  have "\<nexists>req. e = Request req" using by_task(2) by auto
  from link_step_options[OF by_task(1) this] show ?thesis .
next
  case (by_finish t ret)
  then have "link_step K Finish (conn s) = Done (Some (conn s'))" by simp
  from link_step_options[OF this] show ?thesis by simp
qed (auto simp: caller_moves_def client_moves_def opens_token_def step_sound_def step_frame_def
    new_connection_def link_open_def)

lemma session_run_options:
  "session_run K s evs s' \<Longrightarrow> session_ok s \<Longrightarrow> codec_laws K \<Longrightarrow>
     options (session_client s') = options (session_client s)"
proof (induction rule: session_run.induct)
  case (session_next s evs s1 ev s2)
  from session_run_ok[OF session_next.hyps(1) session_next.prems] have "session_ok s1" .
  with session_kind_options[OF session_step_kind[OF session_next.hyps(2) this] this] session_next show ?case by simp
qed simp

lemma session_start_options [simp]: "options (session_client (session_start K now opts calls)) = opts"
  by (simp add: session_start_def Let_def link_none_def mqtt_client_new_def state.extend_def)

text \<open>A new connection finds the tasks of the one before it over.\<close>

lemma session_kind_epoch:
  assumes "session_kind K s s'" and "session_ok s" and "epoch s' \<noteq> epoch s"
  shows "tasks_over (conn s) \<and> \<not> supervising (conn s)"
  using assms(1)
proof cases
  case by_connection
  then have "connect_status (session_client s) = Disconnected" "finishing (conn s) = None"
    using idle_finishing[OF _ assms(2)] by (auto simp: new_connection_def)
  with session_okD(1)[OF assms(2)] show ?thesis by (auto simp: conn_ok_def)
qed (use assms(3) in simp_all)

text \<open>The supervising task sets the keep-alive task's exit flag when it ends.\<close>

definition exit_told :: "'c link \<Rightarrow> bool" where
  "exit_told l \<longleftrightarrow> supervising l \<or> exit_flag l"

lemma link_step_exit_told:
  assumes "link_step K ev l = Done (Some l')" and "exit_told l"
  shows "exit_told l'"
proof (cases ev)
  case (PingTick now now2)
  with assms(1) have "ping_tick now now2 l = Some l'" by simp
  then show ?thesis by (cases rule: ping_tickE) (use assms(2) in \<open>auto simp: exit_told_def\<close>)
next
  case (Request req)
  with assms(1) have "link_request K req l = Done (Some l')" by simp
  then show ?thesis by (cases rule: link_requestE) (use assms(2) in \<open>auto simp: exit_told_def\<close>)
next
  case (ReadFrame f)
  with assms show ?thesis
    by (auto simp: exit_told_def read_frame_def split: if_splits frame.splits outcome.splits prod.splits dispatch.splits)
qed (use assms in \<open>auto simp: exit_told_def send_response_def take_message_def take_outgoing_def write_returns_def
    finish_link_def supervise_def
    split: if_splits list.splits reader_status.splits writer_status.splits option.splits prod.splits\<close>)

lemma session_kind_exit_told:
  assumes "session_kind K s s'" and "exit_told (conn s)"
  shows "exit_told (conn s')"
  using assms(1)
proof cases
  case (by_task e)
  with link_step_exit_told assms(2) show ?thesis by blast
next
  case (by_finish t ret)
  then have "link_step K Finish (conn s) = Done (Some (conn s'))" by simp
  with link_step_exit_told assms(2) show ?thesis by blast
qed (use assms(2) in \<open>auto simp: exit_told_def new_connection_def link_open_def\<close>)

lemma session_run_exit_told:
  "session_run K s evs s' \<Longrightarrow> session_ok s \<Longrightarrow> codec_laws K \<Longrightarrow> exit_told (conn s) \<Longrightarrow> exit_told (conn s')"
proof (induction rule: session_run.induct)
  case (session_next s evs s1 ev s2)
  from session_run_ok[OF session_next.hyps(1) session_next.prems(1,2)] have "session_ok s1" .
  with session_kind_exit_told[OF session_step_kind[OF session_next.hyps(2) this]] session_next show ?case by simp
qed simp


subsection \<open>Every request is somewhere\<close>

definition at_work :: "caller \<Rightarrow> addr \<Rightarrow> bool" where
  "at_work k a \<longleftrightarrow> (\<exists>req pc ret. k = InRequest req a pc ret \<and> \<not> late pc)"

definition session_tracked :: "'c session \<Rightarrow> bool" where
  "session_tracked s \<longleftrightarrow>
     (\<forall>tk. token_typed (session_client s) tk \<and> (\<forall>a. tk \<noteq> Connect a) \<and> epoch s \<le> token_addr tk \<and>
        \<not> at_work (caller s) (token_addr tk) \<longrightarrow> tracked (conn s) (token_addr tk))"

lemma session_trackedD:
  "session_tracked s \<Longrightarrow> token_typed (session_client s) tk \<Longrightarrow> (\<And>a. tk \<noteq> Connect a) \<Longrightarrow>
     epoch s \<le> token_addr tk \<Longrightarrow> \<not> at_work (caller s) (token_addr tk) \<Longrightarrow> tracked (conn s) (token_addr tk)"
  by (simp add: session_tracked_def)

lemma session_tracked_moves:
  assumes "session_tracked s" and "client_moves (session_client s) (session_client s')"
    and "epoch s' = epoch s" and "\<And>a. at_work (caller s) a \<Longrightarrow> at_work (caller s') a"
    and "\<And>a. tracked (conn s) a \<Longrightarrow> tok_live (session_client s') a \<Longrightarrow> tracked (conn s') a"
  shows "session_tracked s'"
  unfolding session_tracked_def
proof (intro allI impI)
  fix tk assume tk: "token_typed (session_client s') tk \<and> (\<forall>a. tk \<noteq> Connect a) \<and> epoch s' \<le> token_addr tk \<and>
    \<not> at_work (caller s') (token_addr tk)"
  then have "tracked (conn s) (token_addr tk)"
    using session_trackedD[OF assms(1) moved_typed[OF assms(2)], of tk] assms(3,4) by auto
  with assms(5) tk show "tracked (conn s') (token_addr tk)" using token_typed_live by blast
qed

text \<open>The same token when the client is replaced under it.\<close>

lemma tracked_client:
  assumes "tracked l a" and "channels_ok l" and "outgoing c = outgoing (link_client l) @ pts"
    and "tok_done (link_client l) a \<Longrightarrow> tok_done c a"
    and "a \<in> bound_tokens (packet_ids (link_client l)) \<Longrightarrow> a \<in> bound_tokens (packet_ids c) \<or> tok_done c a"
    and "publish_qos c a = publish_qos (link_client l) a"
  shows "tracked (l\<lparr>link_client := c\<rparr>) a"
proof -
  have "set (in_hand l) \<subseteq> set (in_hand (l\<lparr>link_client := c\<rparr>))"
    using assms(2,3) by (auto simp: in_hand_def queued_def channels_ok_def accounted_def split: writer_status.split)
  moreover have "completes_on_write c tk = completes_on_write (link_client l) tk" if "token_addr tk = a" for tk
    using that assms(6) by (auto simp: completes_on_write_def split: token.split)
  ultimately show ?thesis using assms(1,4,5) by (fastforce simp: tracked_def)
qed


lemma session_tracked_request:
  assumes "session_tracked s" and "session_ok s" and "caller s = InRequest req t pc ret"
    and "step_sound (writer (conn s) \<noteq> WriteEnded) req t pc (session_client s) (pc', c)"
    and "conn s' = (conn s)\<lparr>link_client := c\<rparr>" and "caller s' = InRequest req t pc' ret" and "epoch s' = epoch s"
  shows "session_tracked s'"
  unfolding session_tracked_def
proof (intro allI impI)
  fix tk assume tk: "token_typed (session_client s') tk \<and> (\<forall>a. tk \<noteq> Connect a) \<and> epoch s' \<le> token_addr tk \<and>
    \<not> at_work (caller s') (token_addr tk)"
  let ?c = "session_client s" and ?a = "token_addr tk"
  have frame: "step_frame t ?c c" using assms(4) by (simp add: step_sound_def)
  have cell: "cells c ?a = cells ?c ?a" if "?a \<noteq> t" using frame that by (simp add: step_frame_def)
  have mono: "tok_done ?c ?a \<Longrightarrow> tok_done c ?a" "publish_qos c ?a = publish_qos ?c ?a"
    "?a \<in> bound_tokens (packet_ids ?c) \<Longrightarrow> ?a \<in> bound_tokens (packet_ids c)"
    using frame cell step_frame_qos[OF frame] by (cases "?a = t"; auto simp: step_frame_def tok_view_defs)+
  obtain pts where pts: "outgoing c = outgoing ?c @ pts" using assms(4) by (auto simp: step_sound_def)
  note keep = tracked_client[OF _ session_okD(4)[OF assms(2)] pts, of ?a, OF _ mono(1) _ mono(2)]
  have old: "token_typed ?c tk"
  proof (cases "?a = t")
    case True
    have "token_typed ?c (request_token req t)" using session_okD(5)[OF assms(2)] assms(3) by (simp add: under_way_def)
    moreover from this have "token_typed c (request_token req t)" using frame by (simp add: step_frame_def)
    ultimately show ?thesis using token_typed_unique[of c "request_token req t" tk] tk True assms(5) by simp
  next
    case False
    with tk cell assms(5) show ?thesis by (simp add: token_typed_def data_at_def)
  qed
  show "tracked (conn s') ?a"
  proof (cases "at_work (caller s) ?a")
    case False
    with session_trackedD[OF assms(1) old] tk assms(7) have "tracked (conn s) ?a" by simp
    with keep mono(3) show ?thesis by (simp add: assms(5))
  next
    case True
    then have t: "?a = t" and pc: "\<not> late pc" by (auto simp: at_work_def assms(3))
    have pc': "late pc'" using tk by (auto simp: at_work_def assms(6) t)
    from assms(4) pc pc' consider "tok_done c t"
      | p subs where "pc = Offering p (request_token req t) subs"
        "outgoing c = outgoing ?c @ [packet_and_token_new_with p (request_token req t)]"
      by (auto simp: step_sound_def)
    then show ?thesis
    proof cases
      case 1
      then show ?thesis by (simp add: tracked_def assms(5) t)
    next
      case 2
      have "covered c (request_token req t)"
        using session_okD(5)[OF assms(2)] assms(3) 2(1) step_frame_covered[OF frame] by (simp add: under_way_def)
      moreover have "packet_and_token_new_with p (request_token req t) \<in> set (in_hand ((conn s)\<lparr>link_client := c\<rparr>))"
        using session_okD(4)[OF assms(2)] 2(2) by (auto simp: in_hand_def queued_def channels_ok_def accounted_def)
      ultimately show ?thesis
        using request_token_addr[of req t]
        by (auto simp: tracked_def covered_def assms(5) t packet_and_token_new_with_def
            intro!: bexI[of _ "packet_and_token_new_with p (request_token req t)"])
    qed
  qed
qed

lemma session_tracked_token:
  assumes "session_tracked s" and "session_ok s" and "opens_token tk (session_client s) c"
    and "conn s' = (conn s)\<lparr>link_client := c\<rparr>" and "epoch s' = epoch s" and "idle (caller s)"
    and "at_work (caller s') (next_addr (session_client s)) \<or> (\<exists>a. tk = Connect a)"
  shows "session_tracked s'"
  unfolding session_tracked_def
proof (intro allI impI)
  fix u assume u: "token_typed (session_client s') u \<and> (\<forall>a. u \<noteq> Connect a) \<and> epoch s' \<le> token_addr u \<and>
    \<not> at_work (caller s') (token_addr u)"
  let ?c = "session_client s"
  have tk: "token_typed c tk" "token_addr tk = next_addr ?c" using assms(3) by (simp_all add: opens_token_def)
  have a: "token_addr u \<noteq> next_addr ?c"
    using u assms(4,7) token_typed_unique[OF tk(1), of u] tk(2) by auto
  then have cell: "cells c (token_addr u) = cells ?c (token_addr u)" using assms(3) by (simp add: opens_token_def)
  then have "token_typed ?c u" using u assms(4) by (simp add: token_typed_def data_at_def)
  moreover have "\<not> at_work (caller s) (token_addr u)" using assms(6) by (auto simp: idle_def at_work_def)
  ultimately have "tracked (conn s) (token_addr u)"
    using session_trackedD[OF assms(1), of u] u assms(5) by simp
  from tracked_client[OF this session_okD(4)[OF assms(2)], of c "[]"] cell assms(3)
  show "tracked (conn s') (token_addr u)"
    by (simp add: assms(4) opens_token_def tok_view_defs publish_qos_def)
qed

lemma session_kind_tracked:
  assumes "session_kind K s s'" and "session_ok s" and "session_tracked s"
  shows "session_tracked s'"
  using assms(1)
proof cases
  case (by_task e)
  have ev: "\<nexists>req. e = Request req" using by_task(2) by auto
  note ok = session_okD(2)[OF assms(2)]
  show ?thesis
    by (rule session_tracked_moves[OF assms(3) link_step_moves[OF by_task(1) ok ev] by_task(4)])
      (use tracked_step[OF by_task(1) ok ev] by_task(3) in auto)
next
  case (by_finish t ret)
  then have step: "link_step K Finish (conn s) = Done (Some (conn s'))" by simp
  note ok = session_okD(2)[OF assms(2)]
  show ?thesis
    by (rule session_tracked_moves[OF assms(3) link_step_moves[OF step ok] by_finish(4)])
      (use tracked_step[OF step ok] by_finish in \<open>auto simp: at_work_def\<close>)
next
  case (by_caller c)
  have moves: "client_moves (session_client s) (session_client s')" using by_caller(1,2) by (simp add: caller_moves_def)
  show ?thesis
  proof (rule session_tracked_moves[OF assms(3) moves by_caller(3)])
    show "at_work (caller s) a \<Longrightarrow> at_work (caller s') a" for a
      using by_caller(5) by (auto simp: at_work_def)
    show "tracked (conn s') a" if "tracked (conn s) a" for a
      using tracked_client[OF that session_okD(4)[OF assms(2)], of c "[]"] by_caller(1)
      by (simp add: by_caller(2) caller_moves_def client_moves_def keeps_account_def)
  qed
next
  case (by_token tk c ret)
  then have "at_work (caller s') (next_addr (session_client s)) \<or> (\<exists>a. tk = Connect a)"
    by (auto simp: at_work_def opens_token_def)
  from session_tracked_token[OF assms(3,2) by_token(1-4) this] show ?thesis .
next
  case (by_request req t pc ret pc' c)
  from session_tracked_request[OF assms(3,2) by_request(1,3-6)] show ?thesis .
next
  case by_connection
  then obtain c where c: "client_inv c" "session_client s' = c" "epoch s' = next_addr c"
    by (auto simp: new_connection_def link_open_def)
  have "\<not> epoch s' \<le> token_addr tk" if "token_typed c tk" for tk
    using token_typed_live[OF that] c(1,3) by (auto simp: client_inv_def state_inv_def heap_ok_def)
  with c show ?thesis by (auto simp: session_tracked_def)
qed

lemma session_start_tracked: "session_tracked (session_start K now opts calls)"
proof -
  have "cells (mqtt_client_new K now empty_heap opts) a = None" for a
    by (simp add: mqtt_client_new_def state_new_def empty_heap_def state.extend_def heap.extend_def)
  then show ?thesis
    by (simp add: session_tracked_def session_start_def Let_def link_none_def token_typed_def data_at_def)
qed

lemma session_run_tracked:
  assumes "session_run K (session_start K now opts calls) evs s" and "codec_laws K"
  shows "session_ok s \<and> session_tracked s"
  using assms
proof (induction "session_start K now opts calls" evs s rule: session_run.induct)
  case session_refl
  then show ?case by (simp add: session_start_ok session_start_tracked)
next
  case (session_next evs s1 ev s2)
  then have "session_ok s1" "session_tracked s1" by simp_all
  with session_step_ok[OF session_next.hyps(3) _ assms(2)] session_kind_tracked[OF session_step_kind[OF session_next.hyps(3)]]
  show ?case by simp
qed


text \<open>
  C8. No request of a program is forgotten while its connection lives, at the grain of the code's atomic steps:
  a token of the present connection, whatever its kind except that of \<open>connect\<close>, that would still keep its
  caller waiting has an identifier in the table, so that the server's answer or the end of the connection settles
  it; or its packet is in the channel or being written and completes it when it is; or the caller is still at work
  on the request, before the hand-over of its packet.
\<close>

theorem session_requests_accounted:
  assumes "codec_laws K" and "session_run K (session_start K now opts calls) evs s"
    and "token_typed (session_client s) tk" and "\<And>a. tk \<noteq> Connect a" and "epoch s \<le> token_addr tk"
    and "fst (tok_poll (token_addr tk) w (session_client s)) = Pending"
  shows "(\<exists>i u. get_token i (packet_ids (session_client s)) = Some u \<and> token_addr u = token_addr tk) \<or>
    (\<exists>pt. (writer (conn s) = WritingOut pt \<or> pt \<in> set (queued (conn s))) \<and> pt_token pt \<noteq> None \<and>
       token_addr (the (pt_token pt)) = token_addr tk \<and>
       (publish_qos (session_client s) (token_addr tk) = Some Level0 \<or> pt_token pt = Some (Disconnect (token_addr tk)))) \<or>
    (\<exists>req pc ret. caller s = InRequest req (token_addr tk) pc ret \<and> \<not> late pc)"
proof (cases "at_work (caller s) (token_addr tk)")
  case True
  then show ?thesis by (auto simp: at_work_def)
next
  case False
  have "session_tracked s" using session_run_tracked[OF assms(2,1)] by simp
  from session_trackedD[OF this assms(3,4,5) False] have "tracked (conn s) (token_addr tk)" .
  moreover have "\<not> tok_done (session_client s) (token_addr tk)" using assms(6) by (simp add: tok_simps split: if_splits)
  ultimately consider "token_addr tk \<in> bound_tokens (packet_ids (session_client s))"
    | pt u where "pt \<in> set (in_hand (conn s))" "pt_token pt = Some u" "token_addr u = token_addr tk"
        "completes_on_write (session_client s) u"
    unfolding tracked_def by blast
  then show ?thesis
  proof cases
    case 1
    then show ?thesis unfolding bound_tokens_def by (intro disjI1) (simp, metis)
  next
    case 2
    then have "publish_qos (session_client s) (token_addr tk) = Some Level0 \<or> u = Disconnect (token_addr tk)"
      by (cases u) (auto simp: completes_on_write_def)
    moreover have "writer (conn s) = WritingOut pt \<or> pt \<in> set (queued (conn s))"
      using 2(1) by (auto simp: in_hand_def split: writer_status.splits)
    ultimately have "\<exists>pt. (writer (conn s) = WritingOut pt \<or> pt \<in> set (queued (conn s))) \<and> pt_token pt \<noteq> None \<and>
       token_addr (the (pt_token pt)) = token_addr tk \<and>
       (publish_qos (session_client s) (token_addr tk) = Some Level0 \<or> pt_token pt = Some (Disconnect (token_addr tk)))"
      using 2(2,3) by (intro exI[of _ pt]) auto
    then show ?thesis by blast
  qed
qed

subsection \<open>A wait that never ends\<close>

text \<open>
  Nothing is left that would settle the token \<open>a\<close>: it holds no identifier, and its packet is not on the way or
  the write task is over.
\<close>

definition hopeless :: "'c link \<Rightarrow> addr \<Rightarrow> bool" where
  "hopeless l a \<longleftrightarrow>
     tok_live (link_client l) a \<and> \<not> tok_done (link_client l) a \<and> a \<notin> bound_tokens (packet_ids (link_client l)) \<and>
     (writer l = WriteEnded \<or> (\<forall>pt \<in> set (in_hand l). \<forall>tk. pt_token pt = Some tk \<longrightarrow> token_addr tk \<noteq> a))"

lemma write_step_settled_by:
  "write_step (OutRecv (Some pt) r) s = (going, out, s') \<Longrightarrow> packet_ids s' = packet_ids s \<and>
     (tok_done s' a \<longrightarrow> tok_done s a \<or> (\<exists>tk. pt_token pt = Some tk \<and> token_addr tk = a))"
  "write_step (MsgRecv (Some p) r) s = (going, out, s') \<Longrightarrow> packet_ids s' = packet_ids s \<and> (tok_done s' a \<longrightarrow> tok_done s a)"
  by (cases r; auto simp: complete_written_def tok_simps split: option.splits token.splits if_splits)+

lemma write_returns_settles:
  assumes "write_returns r l = Some l'"
  shows "packet_ids (link_client l') = packet_ids (link_client l) \<and>
    (tok_done (link_client l') a \<longrightarrow> tok_done (link_client l) a \<or>
       (\<exists>pt tk. writer l = WritingOut pt \<and> pt_token pt = Some tk \<and> token_addr tk = a))"
proof (cases "writer l")
  case (WritingOut pt)
  with assms obtain going out where
    "write_step (OutRecv (Some pt) r) (link_client l) = (going, out, link_client l')"
    by (auto simp: write_returns_def split: prod.splits)
  from write_step_settled_by(1)[OF this, of a] WritingOut show ?thesis by auto
next
  case (WritingMsg p)
  with assms obtain going out where
    "write_step (MsgRecv (Some p) r) (link_client l) = (going, out, link_client l')"
    by (auto simp: write_returns_def split: prod.splits)
  from write_step_settled_by(2)[OF this, of a] show ?thesis by auto
qed (use assms in \<open>simp_all add: write_returns_def\<close>)

lemma link_step_settles:
  assumes "link_step K ev l = Done (Some l')" and "task_event ev" and "client_inv (link_client l)"
  shows "bound_tokens (packet_ids (link_client l')) \<subseteq> bound_tokens (packet_ids (link_client l)) \<and>
    (tok_done (link_client l') a \<longrightarrow> tok_done (link_client l) a \<or> a \<in> bound_tokens (packet_ids (link_client l)) \<or>
       (\<exists>pt tk. writer l = WritingOut pt \<and> pt_token pt = Some tk \<and> token_addr tk = a))"
proof (cases "\<exists>r. ev = WriteReturns r")
  case True
  with assms(1) obtain r where "write_returns r l = Some l'" by auto
  from write_returns_settles[OF this, of a] show ?thesis by auto
next
  case False
  have ev: "\<nexists>req. ev = Request req" using assms(2) by auto
  from assms(1) ev show ?thesis
  proof (cases rule: link_step_clientE)
    case (read p d)
    from settles_bound_dispatch[OF read(3)] show ?thesis by (auto simp: settles_bound_def)
  next
    case (wrote e going out)
    with False show ?thesis by simp
  next
    case ended
    then show ?thesis
      using connection_over_done(1)[OF assms(3), of a] connection_over_view(2)[of "link_client l"]
      by (auto simp: bound_tokens_def get_token_def)
  qed (use assms(2) in auto)
qed


lemma writer_ended_stays: "link_step K ev l = Done (Some l') \<Longrightarrow> writer l = WriteEnded \<Longrightarrow> writer l' = WriteEnded"
proof (cases ev)
  case (PingTick now now2)
  moreover assume "link_step K ev l = Done (Some l')" "writer l = WriteEnded"
  ultimately have "ping_tick now now2 l = Some l'" by simp
  then show ?thesis by (cases rule: ping_tickE) (use \<open>writer l = WriteEnded\<close> in simp_all)
next
  case (Request req)
  moreover assume "link_step K ev l = Done (Some l')" "writer l = WriteEnded"
  ultimately have "link_request K req l = Done (Some l')" by simp
  then show ?thesis by (cases rule: link_requestE) (use \<open>writer l = WriteEnded\<close> in simp_all)
qed (auto simp: send_response_def take_message_def take_outgoing_def write_returns_def finish_link_def supervise_def
    split: if_splits list.splits reader_status.splits option.splits)

lemma hopeless_task:
  assumes "link_step K ev l = Done (Some l')" and "link_ok l" and "task_event ev" and "hopeless l a"
  shows "hopeless l' a"
proof -
  have ev: "\<nexists>req. ev = Request req" using assms(3) by auto
  have inv: "client_inv (link_client l)" and ok: "channels_ok l" using assms(2) by (simp_all add: link_ok_def)
  note settles = link_step_settles[OF assms(1,3) inv, of a]
  have live: "tok_live (link_client l') a"
    using moved_live[OF link_step_moves[OF assms(1,2) ev]] assms(4) by (simp add: hopeless_def)
  have writing: "writer l \<noteq> WritingOut pt" if "pt_token pt = Some tk" "token_addr tk = a" for pt tk
    using that assms(4) by (auto simp: hopeless_def in_hand_def)
  have hand: "writer l' = WriteEnded \<or> (\<forall>pt \<in> set (in_hand l'). \<forall>tk. pt_token pt = Some tk \<longrightarrow> token_addr tk \<noteq> a)"
  proof (cases "writer l = WriteEnded")
    case True
    then show ?thesis using writer_ended_stays[OF assms(1)] by simp
  next
    case False
    with assms(4) have "\<forall>pt \<in> set (in_hand l). \<forall>tk. pt_token pt = Some tk \<longrightarrow> token_addr tk \<noteq> a"
      by (simp add: hopeless_def)
    with in_hand_step[OF assms(1) ok ev] show ?thesis by auto
  qed
  show ?thesis
    using settles live hand writing assms(4) unfolding hopeless_def by blast
qed

text \<open>A caller that awaits such a token does nothing but poll it.\<close>

lemma hopeless_step:
  assumes "session_step K ev s = Done (Some s')" and "session_ok s" and "caller s = Awaiting a ret"
    and "hopeless (conn s) a"
  shows "caller s' = Awaiting a ret \<and> hopeless (conn s') a"
proof (cases ev)
  case (Task e)
  with assms(1) obtain l where l: "link_step K e (conn s) = Done (Some l)" "s' = s\<lparr>conn := l\<rparr>" "task_event e"
    by (auto simp: bind_outcome_Done_iff simp del: link_step.simps split: if_splits)
  from hopeless_task[OF l(1) session_okD(2)[OF assms(2)] l(3) assms(4)] l(2) assms(3) show ?thesis by simp
next
  case (PollToken w)
  have pending: "fst (tok_poll a w (session_client s)) = Pending"
    using assms(4) by (simp add: hopeless_def tok_simps)
  then obtain c where c: "tok_poll a w (session_client s) = (Pending, c)" "c = snd (tok_poll a w (session_client s))"
    by (metis prod.collapse)
  from c(1) have "s' = with_client c s" using assms(1,3) PollToken by (simp add: poll_awaited_def)
  moreover from c(2) have "hopeless ((conn s)\<lparr>link_client := c\<rparr>) a"
    using assms(4) in_hand_client[of c "conn s"] by (simp add: hopeless_def tok_simps)
  ultimately show ?thesis using assms(3) by simp
qed (use assms(1,3) in \<open>auto simp: next_call_def advance_def sleep_elapsed_def notified_def\<close>)

lemma hopeless_run:
  assumes "session_run K s evs s'" and "session_ok s" and "codec_laws K" and "caller s = Awaiting a ret"
    and "hopeless (conn s) a"
  shows "caller s' = Awaiting a ret \<and> hopeless (conn s') a"
  using assms
proof (induction rule: session_run.induct)
  case (session_next s evs s1 ev s2)
  from session_run_ok[OF session_next.hyps(1) session_next.prems(1,2)] have "session_ok s1" .
  with hopeless_step[OF session_next.hyps(2)] session_next.IH session_next.prems show ?case by blast
qed simp

text \<open>
  C17. A program can hang: if the token it awaits holds no packet identifier and its packet has not been written by the
  time the write task is over (a publish at level 0, or a disconnect, still in the channel), or is nowhere in
  it (a second \<open>connect\<close>), then it waits for ever: whatever the tasks do from then on, also the end of the
  connection, the program makes no further step, and each of its polls finds the token pending.
\<close>

theorem abandoned_wait_never_ends:
  assumes "codec_laws K" and "session_run K (session_start K now opts calls) evs0 s"
    and "caller s = Awaiting a ret" and "fst (tok_poll a w (session_client s)) = Pending"
    and "\<forall>i tk. get_token i (packet_ids (session_client s)) = Some tk \<longrightarrow> token_addr tk \<noteq> a"
    and "writer (conn s) = WriteEnded \<or>
      (\<forall>pt. writer (conn s) = WritingOut pt \<or> pt \<in> set (queued (conn s)) \<longrightarrow>
        (\<forall>tk. pt_token pt = Some tk \<longrightarrow> token_addr tk \<noteq> a))"
    and "session_run K s evs s'"
  shows "caller s' = Awaiting a ret \<and> fst (tok_poll a w' (session_client s')) = Pending"
proof -
  have ok: "session_ok s" by (rule session_run_ok[OF assms(2) session_start_ok assms(1)])
  have "tok_live (session_client s) a" using session_okD(5)[OF ok] assms(3) by simp
  moreover have "\<not> tok_done (session_client s) a" using assms(4) by (simp add: tok_simps split: if_splits)
  moreover have "a \<notin> bound_tokens (packet_ids (session_client s))" using assms(5) by (auto simp: bound_tokens_def)
  ultimately have "hopeless (conn s) a"
    using assms(6) unfolding hopeless_def in_hand_def by (cases "writer (conn s)") auto
  from hopeless_run[OF assms(7) ok assms(1,3) this] show ?thesis by (simp add: hopeless_def tok_simps)
qed


subsection \<open>Witnesses\<close>

text \<open>The program of \<open>sample_session\<close> until it awaits its publish, and when the server has gone away.\<close>

abbreviation sample_events :: "session_event list" where
  "sample_events \<equiv> [accepting 1, Advance, PollToken 0, accepting 1, Advance, Advance, Advance, Advance, Advance]"

lemma sample_awaiting:
  "\<exists>s. session_play sample_libs sample_events sample_session = Done (Some s) \<and>
     token_typed (session_client s) (Publish 1) \<and> epoch s = 1 \<and> fst (tok_poll 1 7 (session_client s)) = Pending \<and>
     index (packet_ids (session_client s)) = [] \<and> caller s = Awaiting 1 (ToProgram PrintOn)"
  by (simp add: sample_session_def session_play_defs options_new_def options_default_def Let_def sample_libs_def
      token_typed_def packet_ids_new_def)

lemma sample_abandoned:
  "\<exists>s s'. session_play sample_libs (sample_events @ [Task (ReadFrame FrameEnd), Task TakeMessage]) sample_session = Done (Some s) \<and>
     fst (tok_poll 1 7 (session_client s)) = Pending \<and>
     index (packet_ids (session_client s)) = [] \<and> caller s = Awaiting 1 (ToProgram PrintOn) \<and>
     writer (conn s) = WriteEnded \<and> session_play sample_libs [Task Supervise, PollToken 3] s = Done (Some s') \<and>
     \<not> is_connected (session_client s')"
  by (simp add: sample_session_def session_play_defs options_new_def options_default_def Let_def sample_libs_def
      token_typed_def packet_ids_new_def supervise_def connection_over_def clean_up_def)


lemma session_requests_accounted_witness:
  "\<exists>s pt. session_run sample_libs sample_session sample_events s \<and>
     (writer (conn s) = WritingOut pt \<or> pt \<in> set (queued (conn s))) \<and> token_addr (the (pt_token pt)) = 1"
proof -
  obtain s where run: "session_run sample_libs sample_session sample_events s"
    and s: "token_typed (session_client s) (Publish 1)" "epoch s \<le> token_addr (Publish 1)"
      "fst (tok_poll (token_addr (Publish 1)) 7 (session_client s)) = Pending"
      "index (packet_ids (session_client s)) = []" "caller s = Awaiting 1 (ToProgram PrintOn)"
    using sample_awaiting session_playI by fastforce
  from session_requests_accounted[OF sample_libs_codec run[unfolded sample_session_def] s(1) _ s(2,3)] s(4,5) run
  show ?thesis by (auto simp: get_token_def)
qed

lemma abandoned_wait_never_ends_witness:
  "\<exists>s'. session_run sample_libs sample_session
       (sample_events @ [Task (ReadFrame FrameEnd), Task TakeMessage] @ [Task Supervise, PollToken 3]) s' \<and>
     \<not> is_connected (session_client s') \<and> caller s' = Awaiting 1 (ToProgram PrintOn)"
proof -
  obtain s s' where run: "session_run sample_libs sample_session (sample_events @ [Task (ReadFrame FrameEnd), Task TakeMessage]) s"
    and s: "fst (tok_poll 1 7 (session_client s)) = Pending" "index (packet_ids (session_client s)) = []"
      "caller s = Awaiting 1 (ToProgram PrintOn)" "writer (conn s) = WriteEnded"
    and on: "session_run sample_libs s [Task Supervise, PollToken 3] s'" "\<not> is_connected (session_client s')"
    using sample_abandoned session_playI by blast
  have "caller s' = Awaiting 1 (ToProgram PrintOn)"
    using abandoned_wait_never_ends[OF sample_libs_codec run[unfolded sample_session_def] s(3,1) _ _ on(1)] s(2,4)
    by (simp add: get_token_def)
  moreover have "session_run sample_libs sample_session
      ((sample_events @ [Task (ReadFrame FrameEnd), Task TakeMessage]) @ [Task Supervise, PollToken 3]) s'"
    by (rule session_run_append[OF on(1) run])
  ultimately show ?thesis using on(2) by auto
qed

end
