(* ===== verification/Session_Delivery.thy ===== *)
theory Session_Delivery
  imports Session_Account
begin

section \<open>What reaches the socket\<close>

text \<open>
  The packets of a session (\<open>Session\<close>): each is of the kind of its token, a publish at level 0 succeeds
  only if its packet was written, and a request that is overtaken by the end of its connection keeps
  the identifier it takes.
\<close>

subsection \<open>Types\<close>

lemma requests_in_iff: "Inr pt \<in> set xs \<longleftrightarrow> pt \<in> set (requests_in xs)"
  by (induction xs rule: requests_in.induct) auto

lemma responses_in_iff: "Inl p \<in> set xs \<longleftrightarrow> p \<in> set (responses_in xs)"
  by (induction xs rule: responses_in.induct) auto

lemma written_from:
  assumes "channels_ok l"
  shows "Inl p \<in> set (written l) \<Longrightarrow> p \<in> set (answered l)"
    and "Inr pt \<in> set (written l) \<Longrightarrow> pt \<in> set (outgoing (link_client l))"
proof -
  from assms obtain unsent msgs outs where "accounted l unsent msgs outs" by (auto simp: channels_ok_def)
  then have a: "answered l = responses_in (written l) @ msgs @ messages l @ unsent"
    and t: "take (taken l) (outgoing (link_client l)) = requests_in (written l) @ outs"
    by (simp_all add: accounted_def)
  show "Inl p \<in> set (written l) \<Longrightarrow> p \<in> set (answered l)" by (simp add: responses_in_iff a)
  assume "Inr pt \<in> set (written l)"
  then have "pt \<in> set (take (taken l) (outgoing (link_client l)))" by (simp add: requests_in_iff t)
  then show "pt \<in> set (outgoing (link_client l))" by (rule in_set_takeD)
qed

text \<open>
  C10. Packets are well typed: in every state a program can reach, each packet in the outgoing channel or written
  from it is of the kind of its token (a PUBLISH for a publish, a SUBSCRIBE for a subscribe, an UNSUBSCRIBE for
  an unsubscribe, a DISCONNECT for a disconnect, a PINGREQ without a token), that token's cell is of that kind
  too, a publish has the level its token says, which is what the write task goes by, every packet that needs an
  identifier has one that is not 0, and whatever else is written is an acknowledgement of the QoS protocol.
\<close>

theorem session_packets_are_typed:
  assumes "codec_laws K" and "session_run K (session_start K now opts calls) evs s"
  shows "(\<forall>pt. pt \<in> set (outgoing (session_client s)) \<or> Inr pt \<in> set (written (conn s)) \<longrightarrow>
      packet_fits (session_client s) (pt_token pt) (pt_packet pt) \<and>
      (\<forall>tk. pt_token pt = Some tk \<longrightarrow> token_typed (session_client s) tk)) \<and>
    (\<forall>p. Inl p \<in> set (written (conn s)) \<longrightarrow> is_reply p)"
proof -
  have ok: "session_ok s" by (rule session_run_ok[OF assms(2) session_start_ok assms(1)])
  from session_okD(1)[OF ok] have "\<forall>pt \<in> set (outgoing (session_client s)). handed_typed (session_client s) pt"
    "\<forall>p \<in> set (answered (conn s)). is_reply p"
    by (simp_all add: conn_ok_def)
  with written_from[OF session_okD(4)[OF ok]] show ?thesis by (auto simp: handed_typed_def)
qed

subsection \<open>Level 0\<close>

text \<open>
  The token \<open>a\<close> of a publish at level 0 holds no identifier, and is settled without an error only
  when its packet has been written.
\<close>

definition level0_ok :: "'c link \<Rightarrow> addr \<Rightarrow> bool" where
  "level0_ok l a \<longleftrightarrow>
     a \<notin> bound_tokens (packet_ids (link_client l)) \<and>
     (tok_done (link_client l) a \<and> tok_err (link_client l) a = None \<longrightarrow>
        (\<exists>pt. Inr pt \<in> set (written l) \<and> pt_token pt = Some (Publish a)))"

definition session_level0 :: "'c session \<Rightarrow> bool" where
  "session_level0 s \<longleftrightarrow>
     (\<forall>a. epoch s \<le> a \<and> publish_qos (session_client s) a = Some Level0 \<longrightarrow> level0_ok (conn s) a)"

lemma publish_qos_typed: "publish_qos h a = Some q \<longleftrightarrow> data_at h a = Some (PublishData q)"
  by (auto simp: publish_qos_def split: option.splits token_data.splits)

lemma publish_token_typed:
  assumes "publish_qos h a = Some q" and "token_typed h tk" and "token_addr tk = a"
  shows "tk = Publish a"
  using assms by (cases tk) (auto simp: publish_qos_typed token_typed_def)

lemma written_grows: "link_step K ev l = Done (Some l') \<Longrightarrow> set (written l) \<subseteq> set (written l')"
  by (cases ev)
    (auto simp: send_response_def take_message_def take_outgoing_def write_returns_def
      finish_link_def supervise_def ping_tick_def link_request_def bind_outcome_Done_iff Let_def
      simp del: do_request.simps
      split: if_splits outcome.splits prod.splits list.splits
        reader_status.splits writer_status.splits option.splits)

definition same_token :: "addr \<Rightarrow> ('c, 'a) state_scheme \<Rightarrow> ('c, 'a) state_scheme \<Rightarrow> bool" where
  "same_token a s s' \<longleftrightarrow>
     (a \<in> bound_tokens (packet_ids s') \<longrightarrow> a \<in> bound_tokens (packet_ids s)) \<and>
     tok_done s' a = tok_done s a \<and> tok_err s' a = tok_err s a"

lemma level0_same:
  "level0_ok l a \<Longrightarrow> same_token a (link_client l) (link_client l') \<Longrightarrow> set (written l) \<subseteq> set (written l') \<Longrightarrow>
     level0_ok l' a"
  by (auto simp: level0_ok_def same_token_def)

lemma write_step_other:
  "write_step (MsgRecv (Some p) r) s = (going, out, s') \<Longrightarrow> same_token a s s'"
  "write_step (OutRecv (Some pt) r) s = (going, out, s') \<Longrightarrow>
     \<forall>tk. pt_token pt = Some tk \<longrightarrow> token_addr tk \<noteq> a \<Longrightarrow> same_token a s s'"
  by (cases r; auto simp: same_token_def complete_written_def tok_simps split: option.splits token.splits if_splits)+

lemma write_step_publish:
  "write_step (OutRecv (Some pt) r) s = (going, out, s') \<Longrightarrow> pt_token pt = Some (Publish a) \<Longrightarrow> tok_live s a \<Longrightarrow>
     packet_ids s' = packet_ids s \<and> (\<not> going \<longrightarrow> tok_err s' a \<noteq> None)"
  by (cases r) (auto simp: complete_written_def tok_simps)

lemma level0_write:
  assumes "write_returns r l = Some l'" and "level0_ok l a"
    and "\<And>pt tk. writer l = WritingOut pt \<Longrightarrow> pt_token pt = Some tk \<Longrightarrow> token_addr tk = a \<Longrightarrow>
      tk = Publish a \<and> tok_live (link_client l) a"
  shows "level0_ok l' a"
proof (cases "writer l")
  case (WritingMsg p)
  with assms(1) obtain going out where "write_step (MsgRecv (Some p) r) (link_client l) = (going, out, link_client l')"
    "set (written l) \<subseteq> set (written l')"
    by (auto simp: write_returns_def split: prod.splits)
  with level0_same[OF assms(2) write_step_other(1)] show ?thesis by blast
next
  case (WritingOut pt)
  with assms(1) obtain going out where w: "write_step (OutRecv (Some pt) r) (link_client l) = (going, out, link_client l')"
    "written l' = written l @ (if going then [Inr pt] else [])"
    by (auto simp: write_returns_def split: prod.splits)
  show ?thesis
  proof (cases "\<exists>tk. pt_token pt = Some tk \<and> token_addr tk = a")
    case True
    with assms(3)[OF WritingOut] have pt: "pt_token pt = Some (Publish a)" "tok_live (link_client l) a" by auto
    from write_step_publish[OF w(1) pt] w(2) assms(2) pt(1) show ?thesis
      by (auto simp: level0_ok_def)
  next
    case False
    with level0_same[OF assms(2) write_step_other(2)[OF w(1)]] w(2) show ?thesis by auto
  qed
qed (use assms(1) in \<open>simp_all add: write_returns_def\<close>)

lemma tok_err_finish: "a \<noteq> t \<Longrightarrow> tok_err (finish_connect sp t c) a = tok_err c a \<and> tok_done (finish_connect sp t c) a = tok_done c a"
  by (simp add: finish_connect_def Let_def tok_simps)


lemma level0_task:
  assumes "link_step K ev l = Done (Some l')" and "\<nexists>req. ev = Request req" and "conn_ok l" and "level0_ok l a"
    and "publish_qos (link_client l) a = Some Level0" and "ev = Finish \<Longrightarrow> \<forall>sp. finishing l \<noteq> Some (sp, a)"
  shows "level0_ok l' a"
proof (cases "\<exists>r. ev = WriteReturns r")
  case True
  with assms(1) obtain r where w: "write_returns r l = Some l'" by auto
  show ?thesis
  proof (rule level0_write[OF w assms(4)])
    fix pt tk assume "writer l = WritingOut pt" and tk: "pt_token pt = Some tk" "token_addr tk = a"
    have "pt \<in> set (outgoing (link_client l))"
    proof -
      obtain unsent msgs outs where "accounted l unsent msgs outs"
        using assms(3) by (auto simp: conn_ok_def link_ok_def channels_ok_def)
      then have "pt \<in> set (take (taken l) (outgoing (link_client l)))"
        using \<open>writer l = WritingOut pt\<close> by (simp add: accounted_def)
      then show ?thesis by (rule in_set_takeD)
    qed
    then have typed: "token_typed (link_client l) tk"
      using assms(3) tk(1) by (auto simp: conn_ok_def handed_typed_def)
    from publish_token_typed[OF assms(5) typed tk(2)] token_typed_live[OF typed] tk(2)
    show "tk = Publish a \<and> tok_live (link_client l) a" by simp
  qed
next
  case False
  note grows = written_grows[OF assms(1)]
  have inv: "client_inv (link_client l)" using assms(3) by (simp add: conn_ok_def link_ok_def)
  have "same_token a (link_client l) (link_client l')"
    using assms(1,2)
  proof (cases rule: link_step_clientE)
    case (read p d)
    from settles_bound_dispatch[OF read(3)] assms(4) show ?thesis
      by (auto simp: settles_bound_def same_token_def level0_ok_def)
  next
    case (wrote e going out)
    with False show ?thesis by simp
  next
    case (finished sp t)
    with assms(1) obtain sp' t' where "finishing l = Some (sp', t')" and
      l': "link_client l' = finish_connect sp' t' (link_client l)"
      by (auto simp: finish_link_def split: option.splits)
    then have "a \<noteq> t'" using assms(6)[OF finished(1)] by auto
    then show ?thesis using tok_err_finish[of a t' sp' "link_client l"] by (simp add: l' same_token_def)
  next
    case ended
    have "index (packet_ids (connection_over (link_client l))) = []" by (simp add: connection_over_view)
    then show ?thesis
      using ended(2) connection_over_done[OF inv, of a] assms(4)
      by (auto simp: same_token_def level0_ok_def bound_tokens_def get_token_def)
  qed (simp_all add: same_token_def)
  from level0_same[OF assms(4) this grows] show ?thesis .
qed

lemma request_step_level0:
  assumes "request_step K ok (ReqPublish topic Level0 retained payload) t (pc, c) = Done (pc', c')"
  shows "packet_ids c' = packet_ids c"
  using assms
  by (cases pc)
    (auto simp: publish_qos_id_def bind_outcome_Done_iff add_subscriptions_def dest: offer_ids
      split: if_splits option.splits)


lemma level0_request:
  assumes "session_level0 s" and "session_ok s" and "caller s = InRequest req t pc ret"
    and "request_step K (writer (conn s) \<noteq> WriteEnded) req t (pc, session_client s) = Done (pc', c)"
    and "step_frame t (session_client s) c" and "conn s' = (conn s)\<lparr>link_client := c\<rparr>" and "epoch s' = epoch s"
  shows "session_level0 s'"
  unfolding session_level0_def
proof (intro allI impI)
  fix a assume a: "epoch s' \<le> a \<and> publish_qos (session_client s') a = Some Level0"
  let ?c = "session_client s"
  have qos: "publish_qos ?c a = Some Level0"
    using a step_frame_qos[OF assms(5)] by (simp add: assms(6))
  with assms(1,7) a have ok: "level0_ok (conn s) a" by (simp add: session_level0_def)
  show "level0_ok (conn s') a"
  proof (cases "a = t")
    case False
    then have "same_token a ?c c"
      using assms(5) by (auto simp: same_token_def step_frame_def tok_view_defs)
    then show ?thesis by (intro level0_same[OF ok]) (simp_all add: assms(6))
  next
    case True
    have way: "under_way req t pc ?c" using session_okD(5)[OF assms(2)] assms(3) by simp
    then have "req = ReqPublish topic Level0 retained payload" if "req = ReqPublish topic q retained payload"
      for topic q retained payload
      using that qos True by (simp add: under_way_def)
    moreover have "\<exists>topic q retained payload. req = ReqPublish topic q retained payload"
      using way publish_token_typed[OF qos, of "request_token req t"] True by (cases req) (auto simp: under_way_def)
    ultimately obtain topic retained payload where "req = ReqPublish topic Level0 retained payload" by blast
    from request_step_level0[OF assms(4)[unfolded this]] have "packet_ids c = packet_ids ?c" .
    moreover have "fails_only t ?c c" using assms(5) by (simp add: step_frame_def)
    ultimately show ?thesis
      using ok True by (auto simp: level0_ok_def assms(6) fails_only_def)
  qed
qed

lemma session_kind_level0:
  assumes "session_kind K s s'" and "session_ok s" and "session_level0 s"
  shows "session_level0 s'"
  using assms(1)
proof cases
  case (by_task e)
  have ev: "\<nexists>req. e = Request req" "e \<noteq> Finish" using by_task(2) by auto
  have "publish_qos (session_client s') a = publish_qos (session_client s) a" for a
    using link_step_moves[OF by_task(1) session_okD(2)[OF assms(2)] ev(1)] by (simp add: client_moves_def keeps_account_def)
  with level0_task[OF by_task(1) ev(1) session_okD(1)[OF assms(2)]] ev(2) assms(3) by_task(4) show ?thesis
    by (simp add: session_level0_def)
next
  case (by_finish t ret)
  then have step: "link_step K Finish (conn s) = Done (Some (conn s'))" by simp
  have qos: "publish_qos (session_client s') a = publish_qos (session_client s) a" for a
    using link_step_moves[OF step session_okD(2)[OF assms(2)]] by (simp add: client_moves_def keeps_account_def)
  have "finishing (conn s) \<noteq> Some (sp, a)" if "publish_qos (session_client s) a = Some Level0" for sp a
  proof
    assume "finishing (conn s) = Some (sp, a)"
    then have "token_typed (session_client s) (Connect a)" using session_okD(5)[OF assms(2)] by_finish(1) by auto
    with publish_token_typed[OF that, of "Connect a"] show False by simp
  qed
  with level0_task[OF step _ session_okD(1)[OF assms(2)]] qos assms(3) by_finish(4) show ?thesis
    by (simp add: session_level0_def)
next
  case (by_caller c)
  have "level0_ok (conn s') a" if "level0_ok (conn s) a" for a
    by (rule level0_same[OF that])
      (use by_caller(1) that in \<open>auto simp: by_caller(2) caller_moves_def settles_bound_def same_token_def level0_ok_def\<close>)
  moreover have "publish_qos (session_client s') a = publish_qos (session_client s) a" for a
    using by_caller(1) by (simp add: by_caller(2) caller_moves_def client_moves_def keeps_account_def)
  ultimately show ?thesis using assms(3) by_caller(3) by (simp add: session_level0_def)
next
  case (by_token tk c ret)
  let ?n = "next_addr (session_client s)"
  have inv: "state_inv (session_client s)" by (rule client_invD[OF session_okD(3)[OF assms(2)]])
  have c: "cells c a = cells (session_client s) a" if "a \<noteq> ?n" for a using by_token(1) that by (simp add: opens_token_def)
  show ?thesis
    unfolding session_level0_def
  proof (intro allI impI)
    fix a assume a: "epoch s' \<le> a \<and> publish_qos (session_client s') a = Some Level0"
    show "level0_ok (conn s') a"
    proof (cases "a = ?n")
      case True
      have tk: "token_typed c tk" "token_addr tk = ?n" "packet_ids c = packet_ids (session_client s)"
        using by_token(1) by (simp_all add: opens_token_def)
      have "tk = Publish ?n" using publish_token_typed[OF _ tk(1)] a True tk(2) by (simp add: by_token(2))
      with by_token(5) have "\<not> tok_done c ?n" by auto
      then show ?thesis using fresh_not_bound[OF inv] True tk(3) by (simp add: level0_ok_def by_token(2))
    next
      case False
      with a by_token(2,3) assms(3) c[OF False] have "level0_ok (conn s) a"
        by (simp add: session_level0_def publish_qos_def data_at_def)
      then show ?thesis
        by (rule level0_same) (use by_token(1) c[OF False] in \<open>simp_all add: by_token(2) same_token_def opens_token_def tok_view_defs\<close>)
    qed
  qed
next
  case (by_request req t pc ret pc' c)
  from by_request(3) have "step_frame t (session_client s) c" by (simp add: step_sound_def)
  from level0_request[OF assms(3,2) by_request(1,2) this by_request(4,6)] show ?thesis .
next
  case by_connection
  then obtain c where c: "client_inv c" "session_client s' = c" "epoch s' = next_addr c"
    by (auto simp: new_connection_def link_open_def)
  have "publish_qos c a \<noteq> Some Level0" if "next_addr c \<le> a" for a
    using that c(1) by (auto simp: publish_qos_typed client_inv_def state_inv_def heap_ok_def tok_view_defs)
  with c show ?thesis by (auto simp: session_level0_def)
qed


lemma session_run_level0:
  assumes "session_run K (session_start K now opts calls) evs s" and "codec_laws K"
  shows "session_ok s \<and> session_level0 s"
  using assms
proof (induction "session_start K now opts calls" evs s rule: session_run.induct)
  case session_refl
  have "cells (mqtt_client_new K now empty_heap opts) a = None" for a
    by (simp add: mqtt_client_new_def state_new_def empty_heap_def state.extend_def heap.extend_def)
  then show ?case
    by (simp add: session_start_ok) (simp add: session_level0_def session_start_def Let_def link_none_def
        publish_qos_def data_at_def)
next
  case (session_next evs s1 ev s2)
  then have "session_ok s1" "session_level0 s1" by simp_all
  with session_step_ok[OF session_next.hyps(3) _ assms(2)] session_kind_level0[OF session_step_kind[OF session_next.hyps(3)]]
  show ?case by simp
qed

lemma level0_written:
  assumes "session_ok s" and "session_level0 s" and "publish_qos (session_client s) a = Some Level0" and "epoch s \<le> a"
    and "tok_done (session_client s) a" and "tok_err (session_client s) a = None"
  shows "\<exists>pt p. Inr pt \<in> set (written (conn s)) \<and> pt_token pt = Some (Publish a) \<and>
    pt_packet pt = PublishPacket p \<and> pp_qos p = QLevel0"
proof -
  from assms(2-6) obtain pt where pt: "Inr pt \<in> set (written (conn s))" "pt_token pt = Some (Publish a)"
    by (auto simp: session_level0_def level0_ok_def)
  with written_from(2)[OF session_okD(4)[OF assms(1)]] session_okD(1)[OF assms(1)]
  have "handed_typed (session_client s) pt" by (simp add: conn_ok_def)
  with pt(2) assms(3) obtain p where "pt_packet pt = PublishPacket p" "level_of (pp_qos p) = Level0"
    by (auto simp: handed_typed_def split: variable_packet.splits)
  then show ?thesis using pt by (cases "pp_qos p") auto
qed

text \<open>
  C16. A publish at level 0 does not report success too early: if its token, of the present connection, is ready without
  an error, then its PUBLISH packet has been written to the socket, at level 0.
\<close>

theorem level0_success_means_written:
  assumes "codec_laws K" and "session_run K (session_start K now opts calls) evs s"
    and "publish_qos (session_client s) a = Some Level0" and "epoch s \<le> a"
    and "fst (tok_poll a w (session_client s)) = Ready None"
  shows "\<exists>pt p. Inr pt \<in> set (written (conn s)) \<and> pt_token pt = Some (Publish a) \<and>
    pt_packet pt = PublishPacket p \<and> pp_qos p = QLevel0"
proof -
  have "tok_done (session_client s) a" "tok_err (session_client s) a = None"
    using assms(5) by (simp_all add: tok_simps split: if_splits)
  with session_run_level0[OF assms(2,1)] level0_written[OF _ _ assms(3,4)] show ?thesis by blast
qed

subsection \<open>A request overtaken by the end of its connection\<close>

fun rank :: "request_pc \<Rightarrow> nat" where
  "rank Returned = 0" | "rank (Registering subs) = 1" | "rank (Offering p tk subs) = 2" | "rank pc = 3"

text \<open>Past the search for an identifier, with the channel closed, the request fails and nothing else happens.\<close>

lemma closed_step:
  assumes "under_way req t pc c" and "request_step K False req t (pc, c) = Done (pc', c')" and "\<not> early pc" and "pc \<noteq> Returned"
  shows "rank pc' < rank pc \<and> \<not> early pc' \<and> packet_ids c' = packet_ids c \<and> connect_status c' = connect_status c \<and>
    (tok_err c t \<noteq> None \<or> \<not> late pc \<longrightarrow> tok_err c' t \<noteq> None \<or> \<not> late pc')"
proof (cases pc)
  case (PreparingPublish qos)
  have "tok_live c t" by (rule under_way_live[OF assms(1)])
  with assms(1,2) PreparingPublish show ?thesis
    by (cases req) (auto simp: under_way_def tok_simps split: option.splits)
next
  case (Preparing i)
  have live: "tok_live c t" by (rule under_way_live[OF assms(1)])
  show ?thesis
  proof (cases req)
    case (ReqUnsubscribe topics)
    obtain r c1 where run: "unsubscribe_loop K topics t c = (r, c1)"
      by (cases "unsubscribe_loop K topics t c")
    have "connect_status c1 = connect_status c"
      using step_frame_unsubscribe_loop[OF run] by (simp add: step_frame_def)
    with assms(2) Preparing ReqUnsubscribe unsubscribe_loop_frame[OF run] live show ?thesis
      by (cases r) (auto simp: run tok_simps)
  qed (use assms(1,2) Preparing live in \<open>auto simp: under_way_def tok_simps split: option.splits\<close>)
next
  case (Offering p tk subs)
  have "tok_live c t" "tk = request_token req t" using under_way_live[OF assms(1)] assms(1) Offering by (simp_all add: under_way_def)
  with assms(2) Offering show ?thesis
    by (auto simp: offer_def bind_outcome_Done_iff tok_simps split: option.splits)
next
  case (Registering subs)
  with assms(2) show ?thesis by (auto simp: add_subscriptions_def tok_simps)
qed (use assms in simp_all)

lemma closed_run:
  assumes "session_ok s" and "caller s = InRequest req t pc ret" and "\<not> early pc" and "writer (conn s) = WriteEnded"
    and "\<not> overflow_checks K" and "codec_laws K" and "tok_err (session_client s) t \<noteq> None \<or> \<not> late pc"
  shows "\<exists>n s'. session_run K s (replicate n Advance) s' \<and> caller s' = Awaiting t ret \<and>
    packet_ids (session_client s') = packet_ids (session_client s) \<and>
    connect_status (session_client s') = connect_status (session_client s) \<and> tok_err (session_client s') t \<noteq> None"
  using assms
proof (induction "rank pc" arbitrary: s pc rule: less_induct)
  case less
  show ?case
  proof (cases "pc = Returned")
    case True
    with less.prems(2) have "session_step K Advance s = Done (Some (s\<lparr>caller := Awaiting t ret\<rparr>))"
      by (simp add: advance_def advance_request_def)
    from session_run_Cons[OF this session_run.session_refl] less.prems(7) True show ?thesis
      by (intro exI[of _ "Suc 0"] exI[of _ "s\<lparr>caller := Awaiting t ret\<rparr>"]) simp
  next
    case False
    have way: "under_way req t pc (session_client s)"
      using session_okD(5)[OF less.prems(1)] less.prems(2) by simp
    from request_step_returns[OF way less.prems(5), of False] obtain pc' c where
      step: "request_step K False req t (pc, session_client s) = Done (pc', c)"
      by (cases "request_step K False req t (pc, session_client s)") auto
    let ?s = "(with_client c s)\<lparr>caller := InRequest req t pc' ret\<rparr>"
    note closed = closed_step[OF way step less.prems(3) False]
    have run: "session_step K Advance s = Done (Some ?s)"
      using False less.prems(2,4) step
      by (simp add: advance_def advance_request_def must_wait_def split: request_pc.split)
    have "session_ok ?s" by (rule session_step_ok[OF run less.prems(1,6)])
    with less.hyps[of pc' ?s] closed less.prems(4-7) obtain n s' where
      "session_run K ?s (replicate n Advance) s'" "caller s' = Awaiting t ret"
      "packet_ids (session_client s') = packet_ids (session_client s)"
      "connect_status (session_client s') = connect_status (session_client s)" "tok_err (session_client s') t \<noteq> None"
      by auto
    with session_run_Cons[OF run, of "replicate n Advance"] show ?thesis
      by (intro exI[of _ "Suc n"] exI[of _ s']) simp
  qed
qed


fun needs_id :: "request \<Rightarrow> bool" where
  "needs_id ReqDisconnect = False"
| "needs_id (ReqPublish topic q retained payload) = (q \<noteq> Level0)"
| "needs_id req = True"

lemma take_id_next:
  assumes "\<not> overflow_checks K" and "ids_left c" and "needs_id req"
  shows "\<exists>pc. \<not> early pc \<and> \<not> late pc \<and> take_id K req t c =
    Done (pc, c\<lparr>packet_ids := bind_id (next_id c) (request_token req t) (packet_ids c)\<rparr>)"
proof (cases "searches req")
  case True
  have "next_id c \<noteq> 0" using assms(2) by (simp add: ids_left_def)
  then have "take_id K req t c =
      Done (Preparing (next_id c), c\<lparr>packet_ids := bind_id (next_id c) (request_token req t) (packet_ids c)\<rparr>)"
    using get_id_next[of c c "request_token req t"] assms(1,2) by (simp add: take_id_searches[OF True])
  then show ?thesis by (intro exI[of _ "Preparing (next_id c)"]) simp
next
  case False
  with assms(3) obtain topic q retained payload where req: "req = ReqPublish topic q retained payload" "q \<noteq> Level0"
    by (cases req) auto
  with publish_qos_id_release[OF assms(1) refl, of q t c] assms(2)
  have "take_id K req t c = Done (PreparingPublish (qos_with q (next_id c)),
      c\<lparr>packet_ids := bind_id (next_id c) (request_token req t) (packet_ids c)\<rparr>)"
    by simp
  then show ?thesis by (intro exI[of _ "PreparingPublish (qos_with q (next_id c))"]) simp
qed

text \<open>
  C18. A request can be overtaken by the end of its connection: if the connection ends after the request has found the
  client connected and before it searches for an identifier, the request goes on to take one, finds the channel
  closed and fails; the identifier stays taken although the client is disconnected. This is for a release build in which
  an identifier is left, and a request that takes one. Between the two checks nothing looks at the status again.
\<close>

theorem late_request_keeps_id:
  assumes "codec_laws K" and "\<not> overflow_checks K" and "session_run K (session_start K now opts calls) evs s"
    and "caller s = InRequest req t TakingId ret" and "needs_id req"
    and "writer (conn s) = WriteEnded" and "connect_status (session_client s) = Disconnected"
    and "ids_left (session_client s)"
  shows "\<exists>n s'. session_run K s (replicate n Advance) s' \<and> caller s' = Awaiting t ret \<and>
    tok_err (session_client s') t \<noteq> None \<and> \<not> is_connected (session_client s') \<and>
    get_token (next_id (session_client s)) (packet_ids (session_client s')) = Some (request_token req t)"
proof -
  let ?c = "session_client s"
  have ok: "session_ok s" by (rule session_run_ok[OF assms(3) session_start_ok assms(1)])
  from take_id_next[OF assms(2,8,5), of t] obtain pc where pc: "\<not> early pc" "\<not> late pc"
    "take_id K req t ?c = Done (pc, ?c\<lparr>packet_ids := bind_id (next_id ?c) (request_token req t) (packet_ids ?c)\<rparr>)"
    by blast
  define s1 where "s1 = (with_client (?c\<lparr>packet_ids := bind_id (next_id ?c) (request_token req t) (packet_ids ?c)\<rparr>) s)
    \<lparr>caller := InRequest req t pc ret\<rparr>"
  have step: "session_step K Advance s = Done (Some s1)"
    by (simp add: advance_def advance_request_def must_wait_def assms(4) pc(3) s1_def)
  have ok1: "session_ok s1" by (rule session_step_ok[OF step ok assms(1)])
  have s1: "caller s1 = InRequest req t pc ret" "writer (conn s1) = WriteEnded"
    using assms(6) by (simp_all add: s1_def)
  from closed_run[OF ok1 s1(1) pc(1) s1(2) assms(2,1)] pc(2) obtain n s' where
    "session_run K s1 (replicate n Advance) s'" "caller s' = Awaiting t ret"
    "packet_ids (session_client s') = packet_ids (session_client s1)"
    "connect_status (session_client s') = connect_status (session_client s1)" "tok_err (session_client s') t \<noteq> None"
    by blast
  with session_run_Cons[OF step this(1)] assms(7) show ?thesis
    by (intro exI[of _ "Suc n"] exI[of _ s']) (simp add: s1_def is_connected_def)
qed

subsection \<open>Witnesses\<close>

lemma session_packets_are_typed_witness:
  "\<exists>s pt. session_run sample_libs sample_session sample_events s \<and> outgoing (session_client s) = [pt] \<and>
     packet_fits (session_client s) (pt_token pt) (pt_packet pt)"
proof -
  obtain s pt where "session_play sample_libs sample_events sample_session = Done (Some s)"
    and pt: "outgoing (session_client s) = [pt]"
    by (simp add: sample_session_def session_play_defs options_new_def options_default_def Let_def sample_libs_def)
  from session_playI[OF this(1)] have run: "session_run sample_libs sample_session sample_events s" .
  from session_packets_are_typed[OF sample_libs_codec run[unfolded sample_session_def]] run pt show ?thesis by auto
qed

lemma level0_success_means_written_witness:
  "\<exists>s pt p. session_run sample_libs sample_session (sample_events @ [Task TakeOutgoing, Task (WriteReturns (WriteOk 5))]) s \<and>
     Inr pt \<in> set (written (conn s)) \<and> pt_packet pt = PublishPacket p \<and> pp_qos p = QLevel0"
proof -
  obtain s where "session_play sample_libs (sample_events @ [Task TakeOutgoing, Task (WriteReturns (WriteOk 5))]) sample_session =
      Done (Some s)"
    and s: "publish_qos (session_client s) 1 = Some Level0" "epoch s \<le> 1"
      "fst (tok_poll 1 7 (session_client s)) = Ready None"
    by (simp add: sample_session_def session_play_defs options_new_def options_default_def Let_def sample_libs_def)
  from session_playI[OF this(1)] have
    run: "session_run sample_libs sample_session (sample_events @ [Task TakeOutgoing, Task (WriteReturns (WriteOk 5))]) s" .
  from level0_success_means_written[OF sample_libs_codec run[unfolded sample_session_def] s] run show ?thesis by blast
qed

text \<open>A subscribe whose connection ends after its first check.\<close>

definition sample_late :: "(u16 \<Rightarrow> publish_packet option) session" where
  "sample_late = session_start sample_libs 0 options_new
     [CallConnect PanicOn, CallRequest (ReqSubscribe ''a/b'' Level1 5) PrintOn]"

abbreviation late_events :: "session_event list" where
  "late_events \<equiv> [accepting 1, Advance, PollToken 0, accepting 1, Advance,
     Task (ReadFrame FrameEnd), Task TakeMessage, Task Supervise]"

lemma sample_late_play:
  "\<exists>s. session_play sample_libs late_events sample_late = Done (Some s) \<and>
     caller s = InRequest (ReqSubscribe ''a/b'' Level1 5) 1 TakingId (ToProgram PrintOn) \<and>
     writer (conn s) = WriteEnded \<and> connect_status (session_client s) = Disconnected \<and>
     packet_ids (session_client s) = packet_ids_new"
  by (simp add: sample_late_def session_play_defs options_new_def options_default_def Let_def sample_libs_def
      subscribe_default_def supervise_def connection_over_def clean_up_def packet_ids_new_def)

lemma late_request_keeps_id_witness:
  "\<exists>n s'. session_run sample_libs sample_late (late_events @ replicate n Advance) s' \<and>
     \<not> is_connected (session_client s') \<and> get_token 2 (packet_ids (session_client s')) = Some (Subscribe 1)"
proof -
  obtain s where "session_play sample_libs late_events sample_late = Done (Some s)"
    and k: "caller s = InRequest (ReqSubscribe ''a/b'' Level1 5) 1 TakingId (ToProgram PrintOn)"
    and s: "writer (conn s) = WriteEnded" "connect_status (session_client s) = Disconnected"
      "packet_ids (session_client s) = packet_ids_new"
    using sample_late_play by blast
  from session_playI[OF this(1)] have run: "session_run sample_libs sample_late late_events s" .
  have next_id: "ids_left (session_client s)" "next_id (session_client s) = 2"
    using sample_client_next s(3) by (simp_all add: ids_left_def next_id_def sample_client_view)
  have "needs_id (ReqSubscribe ''a/b'' Level1 5)" by simp
  from late_request_keeps_id[OF sample_libs_codec sample_libs_flags(1) run[unfolded sample_late_def] k this s(1,2) next_id(1)]
    next_id(2)
  obtain n s' where "session_run sample_libs s (replicate n Advance) s'" "\<not> is_connected (session_client s')"
    "get_token 2 (packet_ids (session_client s')) = Some (Subscribe 1)"
    by auto
  with session_run_append[OF this(1) run] show ?thesis by blast
qed

end
