(* ===== verification/Session_Origin.thy ===== *)
theory Session_Origin
  imports Session_Delivery
begin

section \<open>Where packets and callbacks come from\<close>

text \<open>
  What a program (\<open>Session\<close>) sends and what its callbacks get: every packet the client hands to the write task was
  asked for by one of the program's calls, and every callback it starts was given with a subscription of the
  program, for a message the server has sent. \<open>D\<close> stands for the subscriptions and \<open>R\<close> for the PUBLISH packets that
  may occur.
\<close>

subsection \<open>The subscriptions in a token\<close>

definition subs_data :: "'a heap_scheme \<Rightarrow> addr \<Rightarrow> subscription list" where
  "subs_data h a = (case data_at h a of Some (SubscribeData ss rs) \<Rightarrow> ss | _ \<Rightarrow> [])"

lemma subs_data_ops [simp]:
  "subs_data (tok_set_error e b h) a = subs_data h a"
  "subs_data (tok_flow_complete b h) a = subs_data h a"
  "subs_data (snd (tok_poll b w h)) a = subs_data h a"
  "subs_data (set_result i code b h) a = subs_data h a"
  "subs_data (connect_set_return_code c b h) a = subs_data h a"
  "subs_data (connect_set_session_present b h) a = subs_data h a"
  "subs_data (publish_set_qos q b h) a = subs_data h a"
  "subs_data (unsubscribe_add_topic f b h) a = subs_data h a"
  by (auto simp: subs_data_def set_result_def connect_set_return_code_def connect_set_session_present_def
      publish_set_qos_def unsubscribe_add_topic_def tok_simps split: option.split token_data.splits)

lemma subs_data_new [simp]:
  "subs_data (snd (new_token connect_default h)) a = (if a = next_addr h then [] else subs_data h a)"
  "subs_data (snd (new_token DisconnectData h)) a = (if a = next_addr h then [] else subs_data h a)"
  "subs_data (snd (new_token publish_default h)) a = (if a = next_addr h then [] else subs_data h a)"
  "subs_data (snd (new_token subscribe_default h)) a = (if a = next_addr h then [] else subs_data h a)"
  "subs_data (snd (new_token unsubscribe_default h)) a = (if a = next_addr h then [] else subs_data h a)"
  by (simp_all add: subs_data_def tok_simps connect_default_def publish_default_def subscribe_default_def
      unsubscribe_default_def)

lemma subs_data_add: "set (subs_data (add_subscriptions xs b h) a) \<subseteq> set xs \<union> set (subs_data h a)"
  by (cases "data_at h a") (auto simp: subs_data_def add_subscriptions_def tok_simps split: token_data.splits)

lemma subs_data_cells: "data_at s' a = data_at s a \<Longrightarrow> subs_data s' a = subs_data s a"
  by (simp add: subs_data_def)

lemma subs_data_fold_error [simp]: "subs_data (fold (token_set_error e) ts h) a = subs_data h a"
  by (induction ts arbitrary: h) simp_all

subsection \<open>The invariant of the client\<close>

definition filed_from :: "(subscription \<Rightarrow> bool) \<Rightarrow> (string \<times> subscription) list \<Rightarrow> bool" where
  "filed_from D m \<longleftrightarrow> (\<forall>(f, x) \<in> set m. D x \<and> sub_topic x = f)"

definition topics_from :: "(subscription \<Rightarrow> bool) \<Rightarrow> topic_manager \<Rightarrow> bool" where
  "topics_from D m \<longleftrightarrow> (\<forall>f. \<forall>x \<in> set (tm_subs_at m f). D x \<and> sub_topic x = f)"

definition started_from ::
  "'c libs \<Rightarrow> (subscription \<Rightarrow> bool) \<Rightarrow> (publish_packet \<Rightarrow> bool) \<Rightarrow> handler \<times> message \<Rightarrow> bool" where
  "started_from K D R call \<longleftrightarrow>
     (\<exists>x p. D x \<and> R p \<and> call = (sub_handler x, message_from K p) \<and>
        filter_text_matches (sub_topic x) (pp_topic_name p))"

definition client_from ::
  "'c libs \<Rightarrow> (subscription \<Rightarrow> bool) \<Rightarrow> (publish_packet \<Rightarrow> bool) \<Rightarrow> ('c, 'a) state_scheme \<Rightarrow> bool" where
  "client_from K D R s \<longleftrightarrow>
     (\<forall>a. \<forall>x \<in> set (subs_data s a). D x) \<and> topics_from D (topic_manager s) \<and> filed_from D (subscriptions s) \<and>
     (\<forall>i p. cache_view K (pending_packets s) i = Some p \<longrightarrow> R p) \<and>
     (\<forall>call \<in> set (spawned s). started_from K D R call)"

lemma client_from_same:
  assumes "\<And>a. set (subs_data s' a) \<subseteq> set (subs_data s a)" and "topic_manager s' = topic_manager s"
    and "subscriptions s' = subscriptions s" and "pending_packets s' = pending_packets s" and "spawned s' = spawned s"
    and "client_from K D R s"
  shows "client_from K D R s'"
  using assms unfolding client_from_def by (metis subsetD)

lemma filed_from_insert: "filed_from D m \<Longrightarrow> D x \<Longrightarrow> filed_from D (btree_insert (sub_topic x) x m)"
  using set_btree_insert[of "sub_topic x" x m] by (auto simp: filed_from_def)

lemma topics_from_ops:
  "topics_from D m \<Longrightarrow> D x \<Longrightarrow> topics_from D (tm_add x m)"
  "topics_from D m \<Longrightarrow> topics_from D (fold (\<lambda>t m. snd (tm_remove t m)) ts m)"
  "topics_from D (tm_clear m)"
  by (auto simp: topics_from_def fold_tm_remove split: if_splits)

lemma started_from_match:
  assumes "topics_from D m" and "x \<in> set (tm_match_topic (pp_topic_name p) m)" and "R p"
  shows "started_from K D R (sub_handler x, message_from K p)"
proof -
  obtain f where f: "filter_text_matches f (pp_topic_name p)" "x \<in> set (tm_subs_at m f)"
    using assms(2) by (auto simp: tm_match_iff)
  then have "D x" "sub_topic x = f" using assms(1) by (auto simp: topics_from_def)
  with f(1) assms(3) show ?thesis unfolding started_from_def by (intro exI[of _ x] exI[of _ p]) simp
qed

lemma client_from_spawn:
  assumes "client_from K D R s" and "R p"
  shows "client_from K D R (spawn_handlers (tm_match_topic (pp_topic_name p) (topic_manager s)) (message_from K p) s)"
proof -
  let ?xs = "tm_match_topic (pp_topic_name p) (topic_manager s)"
  have data: "subs_data (spawn_handlers xs m s) a = subs_data s a" for xs m a
    by (rule subs_data_cells) (simp add: spawn_handlers_def)
  have "topics_from D (topic_manager s)" using assms(1) by (simp add: client_from_def)
  then have "\<forall>x \<in> set ?xs. started_from K D R (sub_handler x, message_from K p)"
    using started_from_match assms(2) by blast
  then have "\<forall>call \<in> set (map (\<lambda>x. (sub_handler x, message_from K p)) ?xs). started_from K D R call" by simp
  with assms(1) data show ?thesis by (simp only: client_from_def spawn_handlers_frame set_append ball_Un) simp
qed

subsection \<open>The read task\<close>

lemma client_from_suback_body:
  assumes "client_from K D R s"
  shows "client_from K D R (suback_body i code a s)"
proof -
  let ?s = "set_result i code a s"
  have s: "client_from K D R ?s"
    by (rule client_from_same[OF _ _ _ _ _ assms]) (simp, simp_all add: set_result_def)
  show ?thesis
  proof (cases "get_subscription i ?s a")
    case (Some x)
    then have "x \<in> set (subs_data ?s a)"
      by (auto simp: get_subscription_def subs_data_def split: option.splits token_data.splits if_splits)
    with s have "D x" by (simp add: client_from_def)
    with s Some show ?thesis
      by (auto simp: suback_body_def Let_def client_from_def topics_from_ops(1) filed_from_insert subs_data_def)
  qed (use s in \<open>simp add: suback_body_def\<close>)
qed

lemma client_from_suback_loop: "client_from K D R s \<Longrightarrow> client_from K D R (suback_loop i codes a s)"
  by (induction i codes a s rule: suback_loop.induct) (simp_all add: client_from_suback_body)

lemma tok_poll_state [simp]:
  "topic_manager (snd (tok_poll a w s)) = topic_manager s"
  "subscriptions (snd (tok_poll a w s)) = subscriptions s"
  "pending_packets (snd (tok_poll a w s)) = pending_packets s"
  "spawned (snd (tok_poll a w s)) = spawned s"
  by (simp_all add: tok_poll_def split: option.split)

lemma client_from_updates [simp]:
  "client_from K D R (tok_set_error e a s) = client_from K D R s"
  "client_from K D R (tok_flow_complete a s) = client_from K D R s"
  "client_from K D R (snd (tok_poll a w s)) = client_from K D R s"
  "client_from K D R (s\<lparr>packet_ids := ids\<rparr>) = client_from K D R s"
  "client_from K D R (s\<lparr>outgoing_tx := tx\<rparr>) = client_from K D R s"
  "client_from K D R (s\<lparr>last_sent_packet_at := now\<rparr>) = client_from K D R s"
  "client_from K D R (s\<lparr>outgoing := pts\<rparr>) = client_from K D R s"
  "client_from K D R (send_outgoing ok pt s) = client_from K D R s"
  by (simp_all add: client_from_def) (simp_all add: subs_data_def)

lemma client_from_handlers:
  assumes "client_from K D R s"
  shows "client_from K D R (handle_puback i s)" "client_from K D R (handle_pubcomp i s)"
    "client_from K D R (handle_suback i codes s)" "client_from K D R (handle_unsuback i s)"
proof -
  show "client_from K D R (handle_puback i s)" "client_from K D R (handle_pubcomp i s)"
    using assms by (simp_all add: handle_puback_def handle_pubcomp_def split: option.split)
  show "client_from K D R (handle_suback i codes s)"
    using client_from_suback_loop[OF assms] assms by (simp add: handle_suback_def split: option.split token.split)
  have "client_from K D R (s\<lparr>topic_manager := fold (\<lambda>t m. snd (tm_remove t m)) ts (topic_manager s)\<rparr>)" for ts
    using assms by (simp add: client_from_def topics_from_ops(2) subs_data_def)
  with assms show "client_from K D R (handle_unsuback i s)"
    by (simp add: handle_unsuback_def split: option.split token.split)
qed

lemma client_from_pending:
  assumes "client_from K D R s" and "\<And>i p. cache_view K c i = Some p \<Longrightarrow> R p"
  shows "client_from K D R (s\<lparr>pending_packets := c\<rparr>)"
  using assms by (simp add: client_from_def subs_data_def)

lemma client_from_pubrel:
  assumes "client_from K D R s" and "cache_laws K"
  shows "client_from K D R (snd (handle_pubrel K i s))"
proof -
  let ?s = "s\<lparr>pending_packets := snd (cache_remove K i (pending_packets s))\<rparr>"
  have parked: "\<And>i p. cache_view K (pending_packets s) i = Some p \<Longrightarrow> R p"
    using assms(1) by (simp add: client_from_def)
  have "client_from K D R ?s"
    by (rule client_from_pending[OF assms(1)]) (use cache_remove_other[OF assms(2)] parked in blast)
  moreover have "R p" if "fst (cache_remove K i (pending_packets s)) = Some p" for p
    using that parked cache_remove_fst[OF assms(2)] by simp
  ultimately show ?thesis
    using client_from_spawn[of K D R ?s] by (simp add: handle_pubrel_def split_beta Let_def split: option.split)
qed

lemma client_from_publish:
  assumes "handle_publish K p s = Done (r, s')" and "client_from K D R s" and "cache_laws K" and "R p"
  shows "client_from K D R s'"
proof -
  have parked: "\<And>i q. cache_view K (pending_packets s) i = Some q \<Longrightarrow> R q"
    using assms(2) by (simp add: client_from_def)
  have "client_from K D R (s\<lparr>pending_packets := cache_insert K i p (pending_packets s)\<rparr>)" for i
    by (rule client_from_pending[OF assms(2)]) (use cache_insert_cases[OF assms(3)] assms(4) parked in blast)
  with client_from_spawn[OF assms(2,4)] assms(1) show ?thesis
    by (auto simp: handle_publish_def split_beta Let_def bind_outcome_Done_iff split: quality_of_service.splits)
qed

lemma client_from_dispatch:
  assumes "dispatch_packet K p s = Done (d, s')" and "client_from K D R s" and "cache_laws K"
    and "\<And>q. p = PublishPacket q \<Longrightarrow> R q"
  shows "client_from K D R s'"
proof (cases p)
  case (PublishPacket q)
  with assms(1) obtain r where "handle_publish K q s = Done (r, s')" by (auto simp: bind_outcome_Done_iff)
  from client_from_publish[OF this assms(2,3)] assms(4) PublishPacket show ?thesis by blast
next
  case (PubrelPacket i)
  with assms(1) client_from_pubrel[OF assms(2,3), of i] show ?thesis by (simp add: split_beta)
qed (use assms(1,2) client_from_handlers[OF assms(2)] in auto)

subsection \<open>The other tasks\<close>

lemma client_from_write:
  "write_step e s = (going, out, s') \<Longrightarrow> client_from K D R s' = client_from K D R s"
  by (elim write_stepE) (auto simp: complete_written_def split: option.splits token.splits)

lemma client_from_fold_error [simp]: "client_from K D R (fold (token_set_error e) ts s) = client_from K D R s"
  by (induction ts arbitrary: s) simp_all

lemma client_from_over: "client_from K D R (connection_over c) = client_from K D R c"
  by (simp add: connection_over_def clean_up_def set_connect_status_def Let_def)
    (simp add: client_from_def subs_data_def data_at_def)

lemma client_from_finish: "client_from K D R (finish_connect sp t c) = client_from K D R c"
proof -
  have "client_from K D R (connect_set_session_present t (c\<lparr>connect_status := st, manual_disconnect := b\<rparr>)) = client_from K D R c"
    "client_from K D R (c\<lparr>connect_status := st, manual_disconnect := b\<rparr>) = client_from K D R c" for st b
    by (simp_all add: client_from_def) (simp_all add: subs_data_def connect_set_session_present_def data_at_def)
  then show ?thesis by (simp add: finish_connect_def Let_def)
qed

lemma client_from_link:
  assumes "link_step K ev l = Done (Some l')" and "\<nexists>req. ev = Request req" and "client_from K D R (link_client l)"
    and "cache_laws K" and "\<And>q. ev = ReadFrame (Frame (PublishPacket q)) \<Longrightarrow> R q"
  shows "client_from K D R (link_client l')"
  using assms(1,2)
proof (cases rule: link_step_clientE)
  case (read p d)
  from client_from_dispatch[OF read(3) assms(3,4)] read(4) assms(5) show ?thesis by blast
next
  case (wrote e going out)
  from client_from_write[OF wrote(3)] assms(3) show ?thesis by simp
qed (use assms(3) in \<open>simp_all add: client_from_finish client_from_over\<close>)

subsection \<open>The caller\<close>

lemma client_from_client [simp]:
  "client_from K D R (c\<lparr>connect_status := st\<rparr>) = client_from K D R c"
  "client_from K D R (c\<lparr>notify_permit := b\<rparr>) = client_from K D R c"
  "client_from K D R (c\<lparr>manual_disconnect := b\<rparr>) = client_from K D R c"
  "client_from K D R (c\<lparr>wire := ps\<rparr>) = client_from K D R c"
  by (simp_all add: client_from_def) (simp_all add: subs_data_def data_at_def)

lemma client_from_data [simp]:
  "client_from K D R (connect_set_return_code code t c) = client_from K D R c"
  "client_from K D R (publish_set_qos q t c) = client_from K D R c"
  "client_from K D R (unsubscribe_add_topic f t c) = client_from K D R c"
  by (simp_all add: client_from_def)
    (simp_all add: connect_set_return_code_def publish_set_qos_def unsubscribe_add_topic_def)

lemma client_from_new:
  assumes "client_from K D R c"
  shows "client_from K D R (snd (new_token connect_default c))" "client_from K D R (snd (new_token DisconnectData c))"
    "client_from K D R (snd (new_token publish_default c))" "client_from K D R (snd (new_token subscribe_default c))"
    "client_from K D R (snd (new_token unsubscribe_default c))"
  by (rule client_from_same[OF _ _ _ _ _ assms]; simp)+

lemma client_from_connect:
  assumes "client_from K D R c"
  shows "connect K net first now ch c = Done (token, c') \<Longrightarrow> client_from K D R c'"
    and "client_from K D R (adopt_state now ch (awaiting_connack out c))"
proof -
  note new = client_from_new(1)[OF assms]
  have reply: "client_from K D R (connect_reply first now ch t d) = client_from K D R d" for t and d :: "'a mqtt_client"
    by (simp add: connect_reply_def refuse_connect_def set_connect_status_def client_from_finish adopt_state_def
        split: first_frame.split variable_packet.split connect_return_code.split)
  show "client_from K D R c'" if "connect K net first now ch c = Done (token, c')"
    using that new
    by (auto simp: connect_def Let_def split_beta bind_outcome_Done_iff refuse_connect_def set_connect_status_def reply
        split: connect_status.splits network.splits)
  show "client_from K D R (adopt_state now ch (awaiting_connack out c))"
    using new by (simp add: adopt_state_def awaiting_connack_def set_connect_status_def connect_start_def)
qed

lemma client_from_begin: "client_from K D R c \<Longrightarrow> client_from K D R (request_begin req c)"
  by (cases req) (simp_all add: client_from_new)

lemma client_from_unsubscribe_loop:
  "unsubscribe_loop K' topics t c = (r, c') \<Longrightarrow> client_from K D R c' = client_from K D R c"
  by (induction topics arbitrary: c r) (auto split: option.splits prod.splits)

lemma client_from_reset: "client_from K D R (reset_ids c) = client_from K D R c"
  by (simp add: reset_ids_def clean_up_def Let_def)

subsection \<open>Requests and their packets\<close>

fun subs_of :: "request \<Rightarrow> subscription list" where
  "subs_of (ReqSubscribe topic q callback) = [subscription_new topic q callback]"
| "subs_of (ReqSubscribeMultiple topics callback) = map (\<lambda>(topic, q). subscription_new topic q callback) topics"
| "subs_of req = []"

text \<open>The packet of a request, up to its identifier.\<close>

fun packet_of :: "'c libs \<Rightarrow> request \<Rightarrow> variable_packet \<Rightarrow> bool" where
  "packet_of K ReqDisconnect DisconnectPacket = True"
| "packet_of K (ReqPublish topic q retained payload) (PublishPacket p) =
     (topic_name_new K topic = Some (pp_topic_name p) \<and> level_of (pp_qos p) = q \<and> pp_payload p = payload \<and>
      pp_retain p = retained \<and> \<not> pp_dup p)"
| "packet_of K (ReqSubscribe topic q callback) (SubscribePacket i fs) =
     (map (\<lambda>(tf, q). (Some tf, q)) fs = [(topic_filter_new K topic, q)])"
| "packet_of K (ReqSubscribeMultiple topics callback) (SubscribePacket i fs) =
     (map (\<lambda>(tf, q). (Some tf, q)) fs = map (\<lambda>(topic, q). (topic_filter_new K topic, q)) topics)"
| "packet_of K (ReqUnsubscribe topics) (UnsubscribePacket i tfs) = (map Some tfs = map (topic_filter_new K) topics)"
| "packet_of K req p = False"

fun pc_from :: "'c libs \<Rightarrow> (subscription \<Rightarrow> bool) \<Rightarrow> request \<Rightarrow> request_pc \<Rightarrow> bool" where
  "pc_from K D req (Offering p tk subs) =
     (packet_of K req p \<and> (case subs of Some xs \<Rightarrow> list_all D xs | None \<Rightarrow> True))"
| "pc_from K D req (Registering xs) = list_all D xs"
| "pc_from K D req pc = True"

lemma collect_filters_from:
  "collect_filters K callback topics = Some (fs, subs) \<Longrightarrow>
     map (\<lambda>(tf, q). (Some tf, q)) fs = map (\<lambda>(topic, q). (topic_filter_new K topic, q)) topics \<and>
     subs = map (\<lambda>(topic, q). subscription_new topic q callback) topics"
  by (induction topics arbitrary: fs subs) (auto split: option.splits)

lemma unsubscribe_loop_from:
  "unsubscribe_loop K topics t c = (Some tfs, c') \<Longrightarrow> map Some tfs = map (topic_filter_new K) topics"
  by (induction topics arbitrary: c tfs) (auto split: option.splits prod.splits)

lemma prepare_from:
  assumes "list_all D (subs_of req)"
  shows "prepare_packet K req t i c = (pc', c') \<Longrightarrow> pc_from K D req pc' \<and> (client_from K D R c \<longrightarrow> client_from K D R c')"
    and "prepare_publish K req t qos c = (pc', c') \<Longrightarrow> pc_fits c req t (PreparingPublish qos) \<Longrightarrow>
      pc_from K D req pc' \<and> (client_from K D R c \<longrightarrow> client_from K D R c')"
proof -
  show "pc_from K D req pc' \<and> (client_from K D R c \<longrightarrow> client_from K D R c')"
    if "prepare_packet K req t i c = (pc', c')"
  proof (cases req)
    case (ReqUnsubscribe topics)
    obtain r c1 where "unsubscribe_loop K topics t c = (r, c1)" by (cases "unsubscribe_loop K topics t c")
    with that ReqUnsubscribe unsubscribe_loop_from[of K topics t c] show ?thesis
      by (cases r) (auto simp: client_from_unsubscribe_loop)
  next
    case (ReqSubscribeMultiple topics callback)
    with that assms show ?thesis
      by (auto split: option.splits dest!: collect_filters_from)
  qed (use that assms in \<open>auto split: option.splits\<close>)
  show "pc_from K D req pc' \<and> (client_from K D R c \<longrightarrow> client_from K D R c')"
    if "prepare_publish K req t qos c = (pc', c')" "pc_fits c req t (PreparingPublish qos)"
    using that by (cases req) (auto simp: publish_packet_new_def split: option.splits)
qed

lemma take_id_from:
  assumes "take_id K req t c = Done (pc', c')"
  shows "pc_from K D req pc' \<and> (client_from K D R c \<longrightarrow> client_from K D R c')"
proof (cases req)
  case (ReqPublish topic q retained payload)
  with assms show ?thesis
    by (auto simp: publish_qos_id_def bind_outcome_Done_iff split: quality_of_service.splits if_splits)
qed (use assms in \<open>auto simp: bind_outcome_Done_iff split: if_splits\<close>)

lemma client_from_add:
  assumes "client_from K D R c" and "list_all D xs"
  shows "client_from K D R (add_subscriptions xs t c)"
proof -
  have "\<forall>a. \<forall>x \<in> set (subs_data (add_subscriptions xs t c) a). D x"
    using subs_data_add[of xs t c] assms by (fastforce simp: client_from_def list_all_iff)
  moreover have "topic_manager (add_subscriptions xs t c) = topic_manager c"
    "subscriptions (add_subscriptions xs t c) = subscriptions c"
    "pending_packets (add_subscriptions xs t c) = pending_packets c" "spawned (add_subscriptions xs t c) = spawned c"
    by (simp_all add: add_subscriptions_def)
  ultimately show ?thesis using assms(1) by (simp add: client_from_def)
qed

text \<open>A step of a request hands over no packet but the request's.\<close>

lemma request_step_from:
  assumes "request_step K ok req t (pc, c) = Done (pc', c')" and "under_way req t pc c"
    and "pc_from K D req pc" and "list_all D (subs_of req)" and "client_from K D R c"
  shows "client_from K D R c' \<and> pc_from K D req pc'"
proof (cases pc)
  case Checking
  with assms(1,5) show ?thesis by (auto split: if_splits)
next
  case TakingId
  with assms(1,5) take_id_from[of K req t c pc' c' D R] show ?thesis by simp
next
  case (PreparingPublish qos)
  with assms prepare_from(2)[OF assms(4), of K t qos c pc' c' R] show ?thesis by (simp add: under_way_def)
next
  case (Preparing i)
  with assms(1,5) prepare_from(1)[OF assms(4), of K t i c pc' c' R] show ?thesis by simp
next
  case (Offering p tk subs)
  with assms(1,3,5) show ?thesis by (auto simp: offer_def bind_outcome_Done_iff split: option.splits if_splits)
next
  case (Registering xs)
  with client_from_add[OF assms(5), of xs t] assms(1,3) show ?thesis by auto
qed (use assms(1,5) in simp)

subsection \<open>The invariant of the session\<close>

text \<open>
  The subscriptions a program makes, and the requests it causes: its own, and those \<open>block\<close> makes to renew a
  subscription.
\<close>

fun call_requests :: "call list \<Rightarrow> request list" where
  "call_requests [] = []"
| "call_requests (CallRequest req e # calls) = req # call_requests calls"
| "call_requests (call # calls) = call_requests calls"

definition program_subs :: "call list \<Rightarrow> subscription list" where
  "program_subs calls = concat (map subs_of (call_requests calls))"

definition renewal :: "subscription \<Rightarrow> request" where
  "renewal x = ReqSubscribe (sub_topic x) (sub_qos x) (sub_handler x)"

definition requests_of :: "call list \<Rightarrow> request list" where
  "requests_of calls = call_requests calls @ map renewal (program_subs calls)"

abbreviation made_by :: "call list \<Rightarrow> subscription \<Rightarrow> bool" where
  "made_by calls \<equiv> \<lambda>x. x \<in> set (program_subs calls)"

lemma call_requests_set: "CallRequest req e \<in> set calls \<Longrightarrow> req \<in> set (call_requests calls)"
  by (induction calls rule: call_requests.induct) auto

lemma subs_of_renewal: "subs_of (renewal x) = [x]"
  by (cases x) (simp add: renewal_def subscription_new_def)

lemma requests_of_subs: "req \<in> set (requests_of calls) \<Longrightarrow> list_all (made_by calls) (subs_of req)"
  by (auto simp: requests_of_def program_subs_def list_all_iff subs_of_renewal)

fun resume_from :: "call list \<Rightarrow> resume \<Rightarrow> bool" where
  "resume_from calls (ToResubscribe cnt subs) = filed_from (made_by calls) subs"
| "resume_from calls ret = True"

fun caller_from :: "'c libs \<Rightarrow> call list \<Rightarrow> caller \<Rightarrow> bool" where
  "caller_from K calls (InRequest req t pc ret) =
     (req \<in> set (requests_of calls) \<and> pc_from K (made_by calls) req pc \<and> resume_from calls ret)"
| "caller_from K calls (Finishing t ret) = resume_from calls ret"
| "caller_from K calls (Awaiting t ret) = resume_from calls ret"
| "caller_from K calls (InBlock (Resubscribe subs) cnt) = filed_from (made_by calls) subs"
| "caller_from K calls k = True"

definition sent_from :: "'c libs \<Rightarrow> call list \<Rightarrow> packet_and_token \<Rightarrow> bool" where
  "sent_from K calls pt \<longleftrightarrow>
     pt = packet_and_token_new PingreqPacket \<or> (\<exists>req \<in> set (requests_of calls). packet_of K req (pt_packet pt))"

definition session_from :: "'c libs \<Rightarrow> call list \<Rightarrow> (publish_packet \<Rightarrow> bool) \<Rightarrow> 'c session \<Rightarrow> bool" where
  "session_from K calls R s \<longleftrightarrow>
     set (program s) \<subseteq> set calls \<and> caller_from K calls (caller s) \<and>
     client_from K (made_by calls) R (session_client s) \<and>
     list_all (sent_from K calls) (outgoing (session_client s))"

lemma session_from_start: "cache_laws K \<Longrightarrow> session_from K calls R (session_start K now opts calls)"
  by (simp add: session_from_def session_start_def link_none_def Let_def client_from_def)
    (simp add: mqtt_client_new_def state_new_def state.extend_def heap.extend_def empty_heap_def subs_data_def data_at_def
      topics_from_def filed_from_def cache_laws_def)

lemma session_from_mono:
  assumes "session_from K calls R s" and "\<And>p. R p \<Longrightarrow> R' p"
  shows "session_from K calls R' s"
proof -
  have "started_from K D R' call" if "started_from K D R call" for D call
    using that assms(2) unfolding started_from_def by blast
  with assms show ?thesis unfolding session_from_def client_from_def by blast
qed

text \<open>The block's own moves.\<close>

lemma resume_block_from:
  assumes "session_from K calls R s" and "client_from K (made_by calls) R (snd (snd b))"
    and "outgoing (snd (snd b)) = outgoing (session_client s)"
    and "\<And>subs. fst b = Resubscribe subs \<Longrightarrow> filed_from (made_by calls) subs"
  shows "session_from K calls R (resume_block b s)"
proof -
  obtain pc cnt c where "b = (pc, cnt, c)" by (cases b)
  with assms show ?thesis by (cases pc) (simp_all add: session_from_def)
qed

lemma block_head_from:
  "session_from K calls R s \<Longrightarrow> session_from K calls R (resume_block (block_head cnt (session_client s)) s)"
  by (rule resume_block_from)
    (auto simp: block_head_def session_from_def split: option.splits if_splits)

lemma block_sleep_from:
  "session_from K calls R s \<Longrightarrow> session_from K calls R (resume_block (block_sleep cnt (session_client s)) s)"
  by (rule resume_block_from)
    (auto simp: block_sleep_def block_head_def session_from_def split: option.splits if_splits connect_status.splits)

lemma block_connected_from:
  assumes "session_from K calls R s"
  shows "session_from K calls R (resume_block (block_connected err t cnt (session_client s)) s)"
proof -
  let ?c = "session_client s"
  have b: "block_connected err t cnt ?c = (if err \<noteq> None then block_head cnt ?c
      else if connect_session_present ?c t then block_head 0 ?c
      else (Resubscribe (subscriptions ?c), 0, (reset_ids ?c)\<lparr>topic_manager := tm_clear (topic_manager ?c)\<rparr>))"
    by (simp add: block_connected_def reset_ids_def clean_up_def Let_def)
  have "client_from K (made_by calls) R ((reset_ids ?c)\<lparr>topic_manager := tm_clear m\<rparr>)" for m
    using assms client_from_reset[of K "made_by calls" R ?c]
    by (auto simp: session_from_def client_from_def topics_from_ops(3) subs_data_def)
  moreover have "outgoing (reset_ids ?c) = outgoing ?c" by (simp add: reset_ids_def clean_up_def)
  moreover have "filed_from (made_by calls) (subscriptions ?c)" using assms by (simp add: session_from_def client_from_def)
  ultimately show ?thesis
    using block_head_from[OF assms] assms unfolding b by (auto simp: session_from_def)
qed

text \<open>The caller's steps.\<close>

lemma begin_connect_from:
  assumes "begin_connect K net first now ch ret s = Done s'" and "session_from K calls R s" and "resume_from calls ret"
    and "client_inv (session_client s)"
  shows "session_from K calls R s'"
  using assms(1)
proof (cases rule: begin_connect_cases)
  case (accepted sent sp ps)
  then show ?thesis
    using client_from_connect(2)[of K "made_by calls" R "session_client s" now ch ps] assms(2,3)
    by (simp add: session_from_def link_open_def) (simp add: adopt_state_def)
next
  case (failed token c)
  have "client_from K (made_by calls) R c"
    using client_from_connect(1)[OF _ failed(2)] assms(2) by (simp add: session_from_def)
  moreover have "outgoing c = outgoing (session_client s)"
    using connect_fails[OF assms(4) failed(1,2)] by (simp add: opens_token_def)
  ultimately show ?thesis using assms(2,3) by (simp add: session_from_def failed(3))
qed

lemma begin_request_from:
  assumes "session_from K calls R s" and "req \<in> set (requests_of calls)" and "resume_from calls ret"
  shows "session_from K calls R (begin_request req ret s)"
proof -
  have "outgoing (request_begin req c) = outgoing c" for c :: "'a mqtt_client"
    by (cases req) (simp_all add: publish_set_qos_def)
  with assms show ?thesis by (simp add: session_from_def begin_request_def client_from_begin)
qed

lemma advance_request_from:
  assumes "advance_request K req t pc ret s = Done (Some s')" and "session_ok s" and "caller s = InRequest req t pc ret"
    and "session_from K calls R s"
  shows "session_from K calls R s'"
proof (cases "pc = Returned")
  case True
  with assms show ?thesis by (auto simp: advance_request_def session_from_def)
next
  case False
  with assms(1) obtain pc' c where
    run: "request_step K (writer (conn s) \<noteq> WriteEnded) req t (pc, session_client s) = Done (pc', c)"
    and s': "s' = (with_client c s)\<lparr>caller := InRequest req t pc' ret\<rparr>"
    by (auto simp: advance_request_def bind_outcome_Done_iff split: if_splits)
  have way: "under_way req t pc (session_client s)" using session_okD(5)[OF assms(2)] assms(3) by simp
  have origin: "req \<in> set (requests_of calls)" "pc_from K (made_by calls) req pc" "resume_from calls ret"
    "client_from K (made_by calls) R (session_client s)" "list_all (sent_from K calls) (outgoing (session_client s))"
    using assms(3,4) by (simp_all add: session_from_def)
  note step = request_step_from[OF run way origin(2) requests_of_subs[OF origin(1)] origin(4)]
  have "list_all (sent_from K calls) (outgoing c)"
    using request_step_sound[OF way session_okD(3)[OF assms(2)] run] origin(1,2,5)
    by (auto simp: step_sound_def sent_from_def packet_and_token_new_with_def)
  with step origin(1,3) assms(4) show ?thesis by (simp add: session_from_def s')
qed

lemma session_step_from:
  assumes "session_step K ev s = Done (Some s')" and "session_ok s" and "session_from K calls R s" and "cache_laws K"
    and "\<And>p. ev = Task (ReadFrame (Frame (PublishPacket p))) \<Longrightarrow> R p"
  shows "session_from K calls R s'"
proof (cases ev)
  case (Task e)
  with assms(1) obtain l where l: "link_step K e (conn s) = Done (Some l)" "s' = s\<lparr>conn := l\<rparr>" "task_event e"
    by (auto simp: bind_outcome_Done_iff simp del: link_step.simps split: if_splits)
  then have e: "\<nexists>req. e = Request req" by auto
  from client_from_link[OF l(1) e] assms(3-5) Task have "client_from K (made_by calls) R (link_client l)"
    by (simp add: session_from_def)
  moreover have "list_all (sent_from K calls) (outgoing (link_client l))"
    using link_step_outgoing[OF l(1) e] assms(3) by (auto simp: session_from_def sent_from_def list_all_iff)
  ultimately show ?thesis using assms(3) by (simp add: session_from_def l(2))
next
  case (NextCall net first now ch)
  show ?thesis
  proof (cases "program s")
    case Nil
    with NextCall assms(1,3) show ?thesis by (auto simp: next_call_def session_from_def split: if_splits)
  next
    case (Cons call rest)
    have less: "session_from K calls R (s\<lparr>program := rest\<rparr>)" and call: "call \<in> set calls"
      using assms(3) Cons by (simp_all add: session_from_def)
    show ?thesis
    proof (cases call)
      case (CallConnect e)
      with NextCall Cons assms(1) have "begin_connect K net first now ch (ToProgram e) (s\<lparr>program := rest\<rparr>) = Done s'"
        by (auto simp: next_call_def bind_outcome_Done_iff split: if_splits)
      from begin_connect_from[OF this less] session_okD(3)[OF assms(2)] show ?thesis by simp
    next
      case (CallRequest req e)
      then have "req \<in> set (requests_of calls)" using call call_requests_set by (simp add: requests_of_def)
      from begin_request_from[OF less this, of "ToProgram e"] show ?thesis
        using NextCall Cons CallRequest assms(1) by (auto simp: next_call_def split: if_splits)
    next
      case CallBlock
      with block_head_from[OF less, of 0] NextCall Cons assms(1) show ?thesis
        by (auto simp: next_call_def block_start_def split: if_splits)
    qed
  qed
next
  case Advance
  with assms(1) have a: "advance K s = Done (Some s')" by simp
  show ?thesis
  proof (cases "caller s")
    case (Finishing t ret)
    with a assms(3) show ?thesis
      by (auto simp: advance_def session_from_def finish_link_def client_from_finish split: option.splits)
  next
    case (InRequest req t pc ret)
    with a advance_request_from[OF _ assms(2) InRequest assms(3)] show ?thesis by (simp add: advance_def)
  next
    case (InBlock pc cnt)
    show ?thesis
    proof (cases pc)
      case (Resubscribe subs)
      have subs: "filed_from (made_by calls) subs" using assms(3) InBlock Resubscribe by (simp add: session_from_def)
      show ?thesis
      proof (cases subs)
        case Nil
        with a InBlock Resubscribe have "s' = resume_block (block_head cnt (session_client s)) s" by (simp add: advance_def)
        then show ?thesis using block_head_from[OF assms(3)] by blast
      next
        case (Cons entry rest)
        obtain topic x where entry: "entry = (topic, x)" by (cases entry)
        with subs Cons have x: "x \<in> set (program_subs calls)" "sub_topic x = topic" "filed_from (made_by calls) rest"
          by (simp_all add: filed_from_def)
        then have "renewal x \<in> set (requests_of calls)" by (simp add: requests_of_def)
        from begin_request_from[OF assms(3) this, of "ToResubscribe cnt rest"] x a InBlock Resubscribe Cons entry
        show ?thesis by (simp add: advance_def renewal_def)
      qed
    qed (use a InBlock in \<open>simp_all add: advance_def\<close>)
  qed (use a in \<open>simp_all add: advance_def\<close>)
next
  case (PollToken w)
  with assms(1) obtain t ret where k: "caller s = Awaiting t ret"
    by (auto simp: poll_awaited_def split: caller.splits)
  let ?c = "snd (tok_poll t w (session_client s))"
  have polled: "session_from K calls R (with_client ?c s)" using assms(3) by (simp add: session_from_def)
  have "session_from K calls R (resume_with ret t err (with_client ?c s))" for err
    using polled block_connected_from[OF polled, of err t] k
    by (cases "(ret, t, err, with_client ?c s)" rule: resume_with.cases) (auto simp: session_from_def)
  with polled assms(1) PollToken k show ?thesis
    by (auto simp: poll_awaited_def split: poll.splits prod.splits)
next
  case SleepElapsed
  with assms(1) block_sleep_from[OF assms(3)] show ?thesis
    by (auto simp: sleep_elapsed_def split: caller.splits block_pc.splits)
next
  case (Notified net first now ch)
  let ?s = "with_client ((session_client s)\<lparr>notify_permit := False\<rparr>) s"
  from Notified assms(1) obtain cnt where "begin_connect K net first now ch (ToBlock (cnt + 1)) ?s = Done s'"
    by (auto simp: notified_def bind_outcome_Done_iff split: caller.splits block_pc.splits if_splits)
  moreover have "session_from K calls R ?s" using assms(3) by (simp add: session_from_def)
  ultimately show ?thesis using begin_connect_from[where s = ?s] session_okD(3)[OF assms(2)] by simp
qed

lemma session_run_from:
  assumes "session_run K (session_start K now opts calls) evs s" and "codec_laws K" and "cache_laws K"
  shows "session_from K calls (\<lambda>p. Task (ReadFrame (Frame (PublishPacket p))) \<in> set evs) s"
  using assms
proof (induction "session_start K now opts calls" evs s rule: session_run.induct)
  case session_refl
  then show ?case by (simp add: session_from_start)
next
  case (session_next evs s1 ev s2)
  let ?R = "\<lambda>p. Task (ReadFrame (Frame (PublishPacket p))) \<in> set (evs @ [ev])"
  have "session_from K calls ?R s1"
    by (rule session_from_mono[OF session_next.hyps(2)]) (use session_next.prems in auto)
  from session_step_from[OF session_next.hyps(3) _ this] session_run_ok[OF session_next.hyps(1) session_start_ok]
    session_next.prems
  show ?case by auto
qed

lemma started_call:
  assumes "codec_laws K" and "cache_laws K" and "session_run K (session_start K now opts calls) evs s"
    and "(callback, msg) \<in> set (spawned (session_client s))"
  shows "started_from K (made_by calls) (\<lambda>p. Task (ReadFrame (Frame (PublishPacket p))) \<in> set evs) (callback, msg)"
proof -
  have "\<forall>call \<in> set (spawned (session_client s)).
      started_from K (made_by calls) (\<lambda>p. Task (ReadFrame (Frame (PublishPacket p))) \<in> set evs) call"
    using session_run_from[OF assms(3,1,2)] by (simp add: session_from_def client_from_def)
  with assms(4) show ?thesis by blast
qed

text \<open>
  C12. Callbacks get what the program subscribed to, and only that: whatever the server, the transport and the
  scheduling do, across reconnections and for every level, each callback the client starts is one the
  program registered, with the message of a PUBLISH the server has sent, whose topic the filter it was
  registered for matches.
\<close>

theorem callbacks_get_subscribed_messages:
  assumes "codec_laws K" and "cache_laws K" and "session_run K (session_start K now opts calls) evs s"
    and "(callback, msg) \<in> set (spawned (session_client s))"
  shows "\<exists>x p. x \<in> set (program_subs calls) \<and> sub_handler x = callback \<and>
    Task (ReadFrame (Frame (PublishPacket p))) \<in> set evs \<and> msg = message_from K p \<and>
    filter_text_matches (sub_topic x) (msg_topic msg)"
proof -
  let ?R = "\<lambda>p. Task (ReadFrame (Frame (PublishPacket p))) \<in> set evs"
  from started_call[OF assms] have "started_from K (made_by calls) ?R (callback, msg)" .
  then obtain x p where "x \<in> set (program_subs calls)" "?R p" "(callback, msg) = (sub_handler x, message_from K p)"
    "filter_text_matches (sub_topic x) (pp_topic_name p)"
    unfolding started_from_def by blast
  then show ?thesis by (intro exI[of _ x] exI[of _ p]) simp
qed

text \<open>
  C13. The client sends nothing of its own but pings and renewals: every packet in the outgoing channel or written from it
  is a PINGREQ, or the packet of one of the program's calls, field by field except for the identifier, or the
  SUBSCRIBE with which \<open>block\<close> renews a subscription of the program.
\<close>

theorem packets_come_from_calls:
  assumes "codec_laws K" and "cache_laws K" and "session_run K (session_start K now opts calls) evs s"
    and "pt \<in> set (outgoing (session_client s)) \<or> Inr pt \<in> set (written (conn s))"
  shows "pt = packet_and_token_new PingreqPacket \<or> (\<exists>req \<in> set (requests_of calls). packet_of K req (pt_packet pt))"
proof -
  have ok: "session_ok s" by (rule session_run_ok[OF assms(3) session_start_ok assms(1)])
  have "pt \<in> set (outgoing (session_client s))"
    using assms(4) written_from(2)[OF session_okD(4)[OF ok]] by blast
  with session_run_from[OF assms(3,1,2)] show ?thesis by (simp add: session_from_def list_all_iff sent_from_def)
qed

subsection \<open>Witnesses\<close>

lemmas subscribe_play_defs = session_play_defs subscribe_default_def get_id_successor packet_ids_new_def
  PKID_MAX_def PKID_MIN_def subscription_new_def add_subscriptions_def handle_suback_def get_token_def
  free_id_def suback_body_def set_result_def get_subscription_def handle_publish_def

lemmas topic_play_defs = tm_defs tokenize_topic_def get_matching_subscriptions_def trie_node_new_def

text \<open>The subscribe of \<open>sample_late\<close> on a connection that lives: it is accepted, and a message arrives.\<close>

abbreviation subscribed_events :: "session_event list" where
  "subscribed_events \<equiv> [accepting 1, Advance, PollToken 0, accepting 1,
     Advance, Advance, Advance, Advance, Advance, Advance, Task (ReadFrame (Frame (SubackPacket 2 [MaximumQoS Level1]))),
     Task (ReadFrame (Frame (PublishPacket (sample_publish QLevel0))))]"

lemma sample_subscribed:
  "\<exists>s. session_run sample_libs sample_late subscribed_events s \<and> (\<exists>msg. (5, msg) \<in> set (spawned (session_client s))) \<and>
     outgoing (session_client s) = [packet_and_token_new_with (SubscribePacket 2 [(''a/b'', Level1)]) (Subscribe 1)]"
proof -
  have "\<exists>s. session_play sample_libs subscribed_events sample_late = Done (Some s) \<and>
     map fst (spawned (session_client s)) = [5] \<and>
     outgoing (session_client s) = [packet_and_token_new_with (SubscribePacket 2 [(''a/b'', Level1)]) (Subscribe 1)]"
    by (simp add: sample_late_def subscribe_play_defs options_new_def options_default_def Let_def sample_libs_def
        sample_publish_def) (simp add: topic_play_defs)
  then show ?thesis using session_playI by fastforce
qed

lemma callbacks_get_subscribed_messages_witness:
  "\<exists>s msg. session_run sample_libs sample_late subscribed_events s \<and> (5, msg) \<in> set (spawned (session_client s)) \<and>
     filter_text_matches ''a/b'' (msg_topic msg)"
proof -
  obtain s msg where run: "session_run sample_libs sample_late subscribed_events s" and m: "(5, msg) \<in> set (spawned (session_client s))"
    using sample_subscribed by blast
  from callbacks_get_subscribed_messages[OF sample_libs_codec sample_libs_cache run[unfolded sample_late_def] m]
  have "filter_text_matches ''a/b'' (msg_topic msg)" by (auto simp: program_subs_def subscription_new_def)
  with run m show ?thesis by blast
qed

lemma packets_come_from_calls_witness:
  "\<exists>s pt. session_run sample_libs sample_late subscribed_events s \<and> pt \<in> set (outgoing (session_client s)) \<and>
     packet_of sample_libs (ReqSubscribe ''a/b'' Level1 5) (pt_packet pt)"
proof -
  obtain s pt where run: "session_run sample_libs sample_late subscribed_events s" and pt: "pt \<in> set (outgoing (session_client s))"
    and "pt \<noteq> packet_and_token_new PingreqPacket"
    using sample_subscribed by (auto simp: packet_and_token_new_def packet_and_token_new_with_def)
  with packets_come_from_calls[OF sample_libs_codec sample_libs_cache run[unfolded sample_late_def], of pt]
  have "packet_of sample_libs (ReqSubscribe ''a/b'' Level1 5) (pt_packet pt)"
    by (auto simp: requests_of_def program_subs_def renewal_def subscription_new_def)
  with run pt show ?thesis by blast
qed

end
