(* ===== verification/Subscribers.thy ===== *)
theory Subscribers
  imports Session_Origin
begin

section \<open>A program that subscribes and blocks\<close>

text \<open>
  Programs of the form of \<^verbatim>\<open>simple_sub.rs\<close>: a \<open>connect\<close>, some \<open>subscribe\<close>s whose errors are printed, and \<open>block\<close>. If the
  server grants each SUBSCRIBE while the program waits for it, a program that has reached \<open>block\<close> without having printed
  an error has all its subscriptions filed, in order, and nothing else, until it reconnects.
\<close>

subsection \<open>The program and its server\<close>

type_synonym subscribe_call = "string \<times> quality_of_service \<times> handler"

fun subscribe_request :: "subscribe_call \<Rightarrow> request" where
  "subscribe_request (topic, q, callback) = ReqSubscribe topic q callback"

fun subscribe_subscription :: "subscribe_call \<Rightarrow> subscription" where
  "subscribe_subscription (topic, q, callback) = subscription_new topic q callback"

definition subscriber_rest :: "subscribe_call list \<Rightarrow> call list" where
  "subscriber_rest rs = map (\<lambda>r. CallRequest (subscribe_request r) PrintOn) rs @ [CallBlock]"

definition subscriber_calls :: "subscribe_call list \<Rightarrow> call list" where
  "subscriber_calls rs = CallConnect PanicOn # subscriber_rest rs"

text \<open>
  What the server may send: it grants a SUBSCRIBE while the program waits for the answer, does not acknowledge one
  with a packet of another kind, and sends no UNSUBACK. All other packets are free.
\<close>

fun proper_packet :: "variable_packet \<Rightarrow> 'c session \<Rightarrow> bool" where
  "proper_packet (SubackPacket i codes) s \<longleftrightarrow>
     (case get_token i (packet_ids (session_client s)) of
        Some (Subscribe t) \<Rightarrow>
          (case caller s of Awaiting a ret \<Rightarrow> a = t \<and> \<not> tok_done (session_client s) t | _ \<Rightarrow> False) \<and>
          (case codes of [MaximumQoS q] \<Rightarrow> True | _ \<Rightarrow> False)
      | _ \<Rightarrow> True)"
| "proper_packet (PubackPacket i) s \<longleftrightarrow>
     (case get_token i (packet_ids (session_client s)) of Some (Subscribe t) \<Rightarrow> False | _ \<Rightarrow> True)"
| "proper_packet (PubcompPacket i) s \<longleftrightarrow>
     (case get_token i (packet_ids (session_client s)) of Some (Subscribe t) \<Rightarrow> False | _ \<Rightarrow> True)"
| "proper_packet (UnsubackPacket i) s \<longleftrightarrow> False"
| "proper_packet p s \<longleftrightarrow> True"

text \<open>The program has not reconnected.\<close>

fun proper_event :: "session_event \<Rightarrow> 'c session \<Rightarrow> bool" where
  "proper_event (Task (ReadFrame (Frame p))) s \<longleftrightarrow> proper_packet p s"
| "proper_event (Notified net first now ch) s \<longleftrightarrow> False"
| "proper_event ev s \<longleftrightarrow> True"

inductive proper_run :: "'c libs \<Rightarrow> 'c session \<Rightarrow> session_event list \<Rightarrow> 'c session \<Rightarrow> bool" for K where
  proper_refl: "proper_run K s [] s"
| proper_next: "proper_run K s evs s1 \<Longrightarrow> proper_event ev s1 \<Longrightarrow> session_step K ev s1 = Done (Some s2) \<Longrightarrow>
    proper_run K s (evs @ [ev]) s2"

lemma proper_run_session: "proper_run K s evs s' \<Longrightarrow> session_run K s evs s'"
  by (induction rule: proper_run.induct) (auto intro: session_run.intros)

fun proper_play :: "'c libs \<Rightarrow> session_event list \<Rightarrow> 'c session \<Rightarrow> 'c session option outcome" where
  "proper_play K [] s = Done (Some s)"
| "proper_play K (ev # evs) s =
     (if proper_event ev s
      then bind_outcome (session_step K ev s) (\<lambda>r. case r of None \<Rightarrow> Done None | Some s' \<Rightarrow> proper_play K evs s')
      else Done None)"

lemma proper_playI: "proper_play K evs s = Done (Some s') \<Longrightarrow> proper_run K s0 evs0 s \<Longrightarrow> proper_run K s0 (evs0 @ evs) s'"
proof (induction evs arbitrary: s evs0)
  case (Cons ev evs)
  then obtain s1 where step: "proper_event ev s" "session_step K ev s = Done (Some s1)" and rest: "proper_play K evs s1 = Done (Some s')"
    by (auto simp: bind_outcome_Done_iff simp del: session_step.simps split: option.splits if_splits)
  from Cons.IH[OF rest proper_run.proper_next[OF Cons.prems(2) step]] show ?case by simp
qed simp

lemma proper_play_session: "proper_play K evs s = Done (Some s') \<Longrightarrow> session_run K s evs s'"
  using proper_run_session[OF proper_playI[OF _ proper_run.proper_refl]] by fastforce

subsection \<open>What a step does to a subscribe under way\<close>

definition filed :: "subscription list \<Rightarrow> ('c, 'a) state_scheme \<Rightarrow> bool" where
  "filed xs c \<longleftrightarrow> (\<forall>f. tm_subs_at (topic_manager c) f = filter (\<lambda>x. sub_topic x = f) xs)"

lemma filed_same: "topic_manager c' = topic_manager c \<Longrightarrow> filed xs c' = filed xs c"
  by (simp add: filed_def)

lemma filed_add: "filed xs c \<Longrightarrow> topic_manager c' = tm_add x (topic_manager c) \<Longrightarrow> filed (xs @ [x]) c'"
  by (simp add: filed_def)

text \<open>The topics stay and the token \<open>t\<close> is not completed, unless with an error.\<close>

definition leaves :: "addr \<Rightarrow> ('c, 'a) state_scheme \<Rightarrow> ('c, 'a) state_scheme \<Rightarrow> bool" where
  "leaves t c c' \<longleftrightarrow>
     topic_manager c' = topic_manager c \<and> fails_only t c c' \<and> (tok_done c t \<longrightarrow> tok_done c' t) \<and>
     subs_data c' t = subs_data c t"

lemma leaves_refl [simp]: "leaves t c c"
  by (simp add: leaves_def)

lemma subscribe_token_only:
  "token_typed h (Subscribe t) \<Longrightarrow> token_typed h tk \<Longrightarrow> token_addr tk = t \<Longrightarrow> tk = Subscribe t"
  by (cases tk; cases "the (data_at h t)") (auto simp: token_typed_def)

text \<open>A packet that completes no subscribe leaves every subscribe alone.\<close>

fun acks_subscribe :: "variable_packet \<Rightarrow> packet_ids \<Rightarrow> bool" where
  "acks_subscribe (SubackPacket i codes) ids \<longleftrightarrow> (\<exists>t. get_token i ids = Some (Subscribe t))"
| "acks_subscribe (PubackPacket i) ids \<longleftrightarrow> (\<exists>t. get_token i ids = Some (Subscribe t))"
| "acks_subscribe (PubcompPacket i) ids \<longleftrightarrow> (\<exists>t. get_token i ids = Some (Subscribe t))"
| "acks_subscribe (UnsubackPacket i) ids \<longleftrightarrow> True"
| "acks_subscribe p ids \<longleftrightarrow> False"

lemma dispatch_topics:
  assumes "dispatch_packet K p c = Done (d, c')" and "\<not> acks_subscribe p (packet_ids c)"
  shows "topic_manager c' = topic_manager c"
  using assms
  by (cases p)
    (auto simp: handle_puback_def handle_pubcomp_def handle_suback_def handle_publish_def handle_pubrel_def
      split_beta Let_def bind_outcome_Done_iff split: option.splits token.splits quality_of_service.splits)

lemma dispatch_leaves:
  assumes "dispatch_packet K p c = Done (d, c')" and "\<not> acks_subscribe p (packet_ids c)" and "state_inv c"
    and "token_typed c (Subscribe t)"
  shows "leaves t c c'"
proof -
  have other: "token_addr tk \<noteq> t" if "get_token i (packet_ids c) = Some tk" "\<nexists>u. tk = Subscribe u" for i tk
    using subscribe_token_only[OF assms(4) state_invD(5)[OF assms(3) that(1)]] that(2) by blast
  show ?thesis
    using assms(1,2) other
    by (cases p)
      (auto simp: leaves_def fails_only_def handle_puback_def handle_pubcomp_def handle_suback_def handle_publish_def
        handle_pubrel_def split_beta Let_def bind_outcome_Done_iff tok_simps subs_data_def
        tok_view_cells[of "spawn_handlers _ _ _" "_"]
        split: option.splits token.splits quality_of_service.splits)
qed

lemma write_topics: "write_step e s = (going, out, s') \<Longrightarrow> topic_manager s' = topic_manager s \<and> subs_data s' t = subs_data s t"
  by (elim write_stepE) (auto simp: complete_written_def subs_data_def tok_simps split: option.splits token.splits)

lemma write_leaves:
  assumes "write_step e s = (going, out, s')" and "token_typed s (Subscribe t)"
    and "\<And>pt r tk. e = OutRecv (Some pt) r \<Longrightarrow> pt_token pt = Some tk \<Longrightarrow> token_typed s tk"
  shows "leaves t s s'"
proof -
  have other: "tk = Subscribe t \<or> token_addr tk \<noteq> t" if "e = OutRecv (Some pt) r" "pt_token pt = Some tk" for pt r tk
    using subscribe_token_only[OF assms(2) assms(3)[OF that]] by blast
  have "fails_only t s s' \<and> (tok_done s t \<longrightarrow> tok_done s' t)"
  proof (cases "\<exists>pt now. e = OutRecv (Some pt) (WriteOk now)")
    case True
    then obtain pt now where e: "e = OutRecv (Some pt) (WriteOk now)" by blast
    show ?thesis
    proof (cases "pt_token pt")
      case (Some tk)
      with other[OF e] assms(1) e show ?thesis
        by (cases tk) (auto simp: fails_only_def complete_written_def tok_simps split: if_splits)
    qed (use assms(1) e in \<open>auto simp: fails_only_def complete_written_def\<close>)
  next
    case False
    with assms(1) tok_done_live[of s t] show ?thesis
      by (elim write_stepE) (auto simp: fails_only_def tok_simps split: option.splits)
  qed
  with write_topics[OF assms(1)] show ?thesis by (simp add: leaves_def)
qed

fun acks :: "link_event \<Rightarrow> packet_ids \<Rightarrow> bool" where
  "acks (ReadFrame (Frame p)) ids \<longleftrightarrow> acks_subscribe p ids"
| "acks ev ids \<longleftrightarrow> False"

lemma over_leaves:
  assumes "client_inv c"
  shows "leaves t c (connection_over c)"
proof -
  have "subs_data (connection_over c) t = subs_data c t"
    by (cases "cells c t") (simp_all add: subs_data_def data_at_def connection_over_view settle_lost_def)
  moreover have "fails_only t c (connection_over c) \<and> (tok_done c t \<longrightarrow> tok_done (connection_over c) t)"
    by (cases "cells c t")
      (auto simp: fails_only_def tok_view_defs connection_over_view settle_lost_def split: if_splits)
  ultimately show ?thesis by (simp add: leaves_def connection_over_view)
qed

lemma task_topics:
  assumes "link_step K ev l = Done (Some l')" and "task_event ev" and "\<not> acks ev (packet_ids (link_client l))"
  shows "topic_manager (link_client l') = topic_manager (link_client l)"
proof -
  have "\<nexists>req. ev = Request req" using assms(2) by auto
  with assms(1) show ?thesis
  proof (cases rule: link_step_clientE)
    case (read p d)
    with assms(3) dispatch_topics[OF read(3)] show ?thesis by simp
  next
    case (wrote e going out)
    with write_topics show ?thesis by blast
  qed (use assms(2) in \<open>simp_all add: connection_over_view\<close>)
qed

lemma task_leaves:
  assumes "link_step K ev l = Done (Some l')" and "task_event ev" and "\<not> acks ev (packet_ids (link_client l))"
    and "conn_ok l" and "token_typed (link_client l) (Subscribe t)"
  shows "leaves t (link_client l) (link_client l')"
proof -
  have inv: "client_inv (link_client l)" using assms(4) by (simp add: conn_ok_def link_ok_def)
  show ?thesis
  proof (cases "\<exists>r. ev = WriteReturns r")
    case True
    with assms(1) obtain r where "write_returns r l = Some l'" by auto
    then consider p going out where "write_step (MsgRecv (Some p) r) (link_client l) = (going, out, link_client l')"
      | pt going out where "writer l = WritingOut pt" "write_step (OutRecv (Some pt) r) (link_client l) = (going, out, link_client l')"
      by (auto simp: write_returns_def split: writer_status.splits prod.splits)
    then show ?thesis
    proof cases
      case 1
      from write_leaves[OF this assms(5)] show ?thesis by simp
    next
      case 2
      have "pt \<in> set (outgoing (link_client l))"
      proof -
        obtain unsent msgs outs where "accounted l unsent msgs outs"
          using assms(4) by (auto simp: conn_ok_def link_ok_def channels_ok_def)
        then have "pt \<in> set (take (taken l) (outgoing (link_client l)))"
          using 2(1) by (simp add: accounted_def)
        then show ?thesis by (rule in_set_takeD)
      qed
      then have "token_typed (link_client l) tk" if "pt_token pt = Some tk" for tk
        using assms(4) that by (auto simp: conn_ok_def handed_typed_def)
      with write_leaves[OF 2(2) assms(5)] show ?thesis by simp
    qed
  next
    case False
    have "\<nexists>req. ev = Request req" using assms(2) by auto
    with assms(1) show ?thesis
    proof (cases rule: link_step_clientE)
      case (read p d)
      with assms(3) dispatch_leaves[OF read(3) _ client_invD[OF inv] assms(5)] show ?thesis by simp
    next
      case ended
      with over_leaves[OF inv] show ?thesis by simp
    next
      case (pinged ok)
      then show ?thesis by (simp add: leaves_def fails_only_def subs_data_def data_at_def tok_view_defs)
    qed (use assms(2) False in simp_all)
  qed
qed

text \<open>A grant of the subscribe the program waits for files its subscription.\<close>

lemma grant_files:
  assumes "get_token i (packet_ids c) = Some (Subscribe t)" and "token_typed c (Subscribe t)" and "subs_data c t = [x]"
    and "tok_err c t = None" and "filed xs c"
  shows "filed (xs @ [x]) (handle_suback i [MaximumQoS q] c) \<and> tok_done (handle_suback i [MaximumQoS q] c) t"
proof -
  obtain ss rs where data: "data_at c t = Some (SubscribeData ss rs)"
    using assms(2) by (cases "the (data_at c t)") (auto simp: token_typed_def)
  with assms(3) have "ss = [x]" by (simp add: subs_data_def)
  with handle_suback_known[OF assms(1) data, of "[MaximumQoS q]"] token_typed_live[OF assms(2)] filed_add[OF assms(5)]
  show ?thesis by simp
qed

lemma suback_err: "tok_err (handle_suback i codes c) t = tok_err c t"
  by (simp add: handle_suback_def tok_simps split: option.split token.split)

subsection \<open>How far the program has got\<close>

fun registers :: "subscription \<Rightarrow> request_pc \<Rightarrow> bool" where
  "registers x (Offering p tk subs) \<longleftrightarrow> subs = Some [x]"
| "registers x (Registering subs) \<longleftrightarrow> subs = [x]"
| "registers x pc \<longleftrightarrow> True"

abbreviation subs_of :: "subscribe_call list \<Rightarrow> subscription list" where
  "subs_of rs \<equiv> map subscribe_subscription rs"

text \<open>A subscribe after the subscriptions \<open>xs\<close>: failed, or between its steps, or answered.\<close>

definition request_state :: "subscription list \<Rightarrow> subscription \<Rightarrow> addr \<Rightarrow> request_pc \<Rightarrow> 'c mqtt_client \<Rightarrow> bool" where
  "request_state xs x t pc c \<longleftrightarrow>
     tok_err c t \<noteq> None \<or>
     filed xs c \<and> \<not> tok_done c t \<and> registers x pc \<and> subs_data c t = (if pc = Returned then [x] else [])"

definition waiting_state :: "subscription list \<Rightarrow> subscription \<Rightarrow> addr \<Rightarrow> 'c mqtt_client \<Rightarrow> bool" where
  "waiting_state xs x t c \<longleftrightarrow>
     tok_err c t \<noteq> None \<or> filed xs c \<and> \<not> tok_done c t \<and> subs_data c t = [x] \<or> filed (xs @ [x]) c \<and> tok_done c t"

inductive subscriber_stage :: "subscribe_call list \<Rightarrow> 'c session \<Rightarrow> bool" for rs s where
  starting: "caller s = Running \<Longrightarrow> program s = subscriber_calls rs \<Longrightarrow> filed [] (session_client s) \<Longrightarrow> subscriber_stage rs s"
| connecting: "caller s \<in> {Finishing t (ToProgram PanicOn), Awaiting t (ToProgram PanicOn)} \<Longrightarrow>
    token_typed (session_client s) (Connect t) \<Longrightarrow> program s = subscriber_rest rs \<Longrightarrow> filed [] (session_client s) \<Longrightarrow>
    subscriber_stage rs s"
| aborted: "caller s = Aborted e \<Longrightarrow> subscriber_stage rs s"
| between: "caller s = Running \<Longrightarrow> rs = before @ rest \<Longrightarrow> program s = subscriber_rest rest \<Longrightarrow>
    filed (subs_of before) (session_client s) \<Longrightarrow> subscriber_stage rs s"
| requesting: "caller s = InRequest (subscribe_request r) t pc (ToProgram PrintOn) \<Longrightarrow> rs = before @ r # rest \<Longrightarrow>
    program s = subscriber_rest rest \<Longrightarrow>
    request_state (subs_of before) (subscribe_subscription r) t pc (session_client s) \<Longrightarrow> subscriber_stage rs s"
| waiting: "caller s = Awaiting t (ToProgram PrintOn) \<Longrightarrow> token_typed (session_client s) (Subscribe t) \<Longrightarrow>
    rs = before @ r # rest \<Longrightarrow> program s = subscriber_rest rest \<Longrightarrow>
    waiting_state (subs_of before) (subscribe_subscription r) t (session_client s) \<Longrightarrow> subscriber_stage rs s"
| blocked: "caller s = InBlock AtSelect cnt \<Longrightarrow> program s = [] \<Longrightarrow> filed (subs_of rs) (session_client s) \<Longrightarrow>
    subscriber_stage rs s"
| over: "caller s \<in> {Exited, Running} \<Longrightarrow> program s = [] \<Longrightarrow> subscriber_stage rs s"

lemma request_state_leaves: "leaves t c c' \<Longrightarrow> request_state xs x t pc c \<Longrightarrow> request_state xs x t pc c'"
  using filed_same[of c' c] by (auto simp: request_state_def leaves_def fails_only_def)

lemma waiting_state_leaves: "leaves t c c' \<Longrightarrow> waiting_state xs x t c \<Longrightarrow> waiting_state xs x t c'"
  using filed_same[of c' c] by (auto simp: waiting_state_def leaves_def fails_only_def)

lemma waiting_state_grant:
  assumes "get_token i (packet_ids c) = Some (Subscribe t)" and "token_typed c (Subscribe t)" and "\<not> tok_done c t"
    and "waiting_state xs x t c"
  shows "waiting_state xs x t (handle_suback i [MaximumQoS q] c)"
  using assms grant_files[OF assms(1,2)] suback_err[of i "[MaximumQoS q]" c t] by (auto simp: waiting_state_def)

lemma subscribe_request_token [simp]: "request_token (subscribe_request r) t = Subscribe t"
  by (cases r) simp

subsection \<open>Every step of a proper run\<close>

text \<open>An acknowledgement of a subscribe is the grant of the one the program waits for.\<close>

lemma proper_acks:
  assumes "proper_event (Task e) s" and "acks e (packet_ids (session_client s))"
  obtains i q t ret where "e = ReadFrame (Frame (SubackPacket i [MaximumQoS q]))"
    "get_token i (packet_ids (session_client s)) = Some (Subscribe t)" "caller s = Awaiting t ret"
    "\<not> tok_done (session_client s) t"
proof -
  obtain p where e: "e = ReadFrame (Frame p)" using assms(2) by (cases "(e, packet_ids (session_client s))" rule: acks.cases) auto
  with assms that show ?thesis
    by (cases p) (auto split: option.splits token.splits caller.splits list.splits subscribe_return_code.splits)
qed

lemma stage_task:
  assumes "link_step K e (conn s) = Done (Some l)" and "task_event e" and "proper_event (Task e) s" and "session_ok s"
    and "subscriber_stage rs s"
  shows "subscriber_stage rs (s\<lparr>conn := l\<rparr>)"
proof -
  let ?c = "session_client s" let ?s = "s\<lparr>conn := l\<rparr>"
  note ok = session_okD[OF assms(4)]
  have typed: "token_typed ?c tk \<Longrightarrow> token_typed (link_client l) tk" for tk
  proof -
    have "\<nexists>req. e = Request req" using assms(2) by auto
    from link_step_moves[OF assms(1) ok(2) this] show "token_typed ?c tk \<Longrightarrow> token_typed (link_client l) tk"
      by (simp add: client_moves_def)
  qed
  show ?thesis
  proof (cases "acks e (packet_ids ?c)")
    case True
    then obtain i q t ret where e: "e = ReadFrame (Frame (SubackPacket i [MaximumQoS q]))"
      "get_token i (packet_ids ?c) = Some (Subscribe t)" "caller s = Awaiting t ret" "\<not> tok_done ?c t"
      using proper_acks[OF assms(3)] by blast
    have c': "link_client l = handle_suback i [MaximumQoS q] ?c"
      using assms(1) e(1) by (auto simp: read_frame_def split: if_splits)
    have t: "token_typed ?c (Subscribe t)" using state_invD(5)[OF client_invD[OF ok(3)] e(2)] .
    from assms(5) show ?thesis
    proof cases
      case (connecting t')
      then have "token_typed ?c (Connect t)" using e(3) by auto
      from subscribe_token_only[OF t this] show ?thesis by simp
    next
      case (waiting t' before r rest)
      then have "t' = t" using e(3) by simp
      with waiting waiting_state_grant[OF e(2) t e(4)] typed show ?thesis
        by (intro subscriber_stage.waiting[where t = t and before = before and r = r and rest = rest]) (simp_all add: c')
    qed (use e(3) in simp_all)
  next
    case False
    note topics = task_topics[OF assms(1,2) False]
    note leave = task_leaves[OF assms(1,2) False ok(1)]
    have filed: "filed xs (link_client l) = filed xs ?c" for xs by (rule filed_same[OF topics])
    from assms(5) show ?thesis
    proof cases
      case (requesting r t pc before rest)
      have "token_typed ?c (Subscribe t)" using ok(5) requesting(1) by (simp add: under_way_def)
      with requesting request_state_leaves[OF leave] show ?thesis
        by (intro subscriber_stage.requesting[where t = t and pc = pc and before = before and r = r and rest = rest]) simp_all
    next
      case (waiting t before r rest)
      with waiting_state_leaves[OF leave] typed show ?thesis
        by (intro subscriber_stage.waiting[where t = t and before = before and r = r and rest = rest]) simp_all
    next
      case (connecting t)
      with typed filed show ?thesis by (intro subscriber_stage.connecting[where t = t]) simp_all
    qed (auto simp: filed intro: subscriber_stage.intros)
  qed
qed

lemma subscriber_rest_eq: "subscriber_rest rest = [] \<longleftrightarrow> False" "subscriber_rest rest = CallConnect e # calls \<longleftrightarrow> False"
  "subscriber_rest rest = CallRequest req e # calls \<longleftrightarrow>
     (\<exists>r rs. rest = r # rs \<and> req = subscribe_request r \<and> e = PrintOn \<and> calls = subscriber_rest rs)"
  "subscriber_rest rest = CallBlock # calls \<longleftrightarrow> rest = [] \<and> calls = []"
  by (cases rest; auto simp: subscriber_rest_def)+

text \<open>\<open>connect\<close> does not touch the topics.\<close>

lemma connect_topics:
  assumes "connect K net first now ch c = Done (t, c')"
  shows "topic_manager c' = topic_manager c"
proof -
  have reply: "topic_manager (connect_reply first now ch t d) = topic_manager d" for t and d :: "'a mqtt_client"
    by (simp add: connect_step_defs connect_set_return_code_def
        split: first_frame.split variable_packet.split connect_return_code.split)
  from assms show ?thesis
    by (auto simp: connect_eq Let_def bind_outcome_Done_iff refuse_connect_def set_connect_status_def reply
        connect_set_return_code_def split: connect_status.splits network.splits)
qed

lemma begin_connect_stage:
  assumes "begin_connect K net first now ch ret s = Done s'" and "session_ok s"
  shows "\<exists>t. caller s' \<in> {Finishing t ret, Awaiting t ret} \<and> token_typed (session_client s') (Connect t) \<and>
    program s' = program s \<and> printed s' = printed s \<and>
    topic_manager (session_client s') = topic_manager (session_client s)"
  using assms(1)
proof (cases rule: begin_connect_cases)
  case (accepted sent sp out)
  with accepted_client(2)[OF session_okD(3)[OF assms(2)], of now ch out] show ?thesis
    by (simp add: link_open_def) (simp add: adopt_state_def awaiting_connack_def set_connect_status_def)
next
  case (failed token c)
  from connect_fails[OF session_okD(3)[OF assms(2)] failed(1,2)] connect_topics[OF failed(2)] failed(3) show ?thesis
    by (auto simp: opens_token_def)
qed

lemma block_head_stage: "block_head cnt c = (AtSelect, cnt, c) \<or> block_head cnt c = (BlockExit, cnt, c)"
  by (simp add: block_head_def split: option.split)

lemma block_steps_stage:
  "\<exists>pc cnt' c'. block_start c = (pc, cnt', c') \<and> pc \<in> {AtSelect, BlockExit} \<and> topic_manager c' = topic_manager c"
  "\<exists>pc cnt' c'. block_sleep cnt c = (pc, cnt', c') \<and> pc \<in> {AtSelect, BlockExit} \<and> topic_manager c' = topic_manager c"
  by (auto simp: block_start_def block_sleep_def block_head_def split: option.split connect_status.split)

lemma resume_block_stage:
  assumes "b = (pc, cnt, c)" and "pc \<in> {AtSelect, BlockExit}" and "filed (subs_of rs) c" and "program s = []"
  shows "subscriber_stage rs (resume_block b s)"
  using assms by (auto intro: subscriber_stage.intros)

lemma request_begin_state:
  "client_inv c \<Longrightarrow> filed xs c \<Longrightarrow>
     request_state xs (subscribe_subscription r) (next_addr c) Checking (request_begin (subscribe_request r) c)"
  by (cases r) (simp add: request_state_def filed_def tok_simps)

lemma stage_next:
  assumes "next_call K net first now ch s = Done (Some s')" and "session_ok s" and "subscriber_stage rs s"
  shows "subscriber_stage rs s'"
proof -
  have running: "caller s = Running" using assms(1) by (simp add: next_call_def split: if_splits)
  from assms(3) show ?thesis
  proof cases
    case starting
    let ?s = "s\<lparr>program := subscriber_rest rs\<rparr>"
    have "session_ok ?s" using assms(2) by (simp add: session_ok_update)
    with assms(1) starting begin_connect_stage[of K net first now ch "ToProgram PanicOn" ?s s'] obtain t where
      "caller s' \<in> {Finishing t (ToProgram PanicOn), Awaiting t (ToProgram PanicOn)}"
      "token_typed (session_client s') (Connect t)" "program s' = subscriber_rest rs"
      "topic_manager (session_client s') = topic_manager (session_client s)"
      by (auto simp: next_call_def subscriber_calls_def bind_outcome_Done_iff)
    with starting filed_same show ?thesis by (intro subscriber_stage.connecting[of s' t]) auto
  next
    case (between before rest)
    show ?thesis
    proof (cases rest)
      case Nil
      with between assms(1) have s': "s' = resume_block (block_start (session_client s)) (s\<lparr>program := []\<rparr>)"
        by (simp add: next_call_def subscriber_rest_def)
      from block_steps_stage(1)[of "session_client s"] obtain pc cnt c where
        b: "block_start (session_client s) = (pc, cnt, c)" "pc \<in> {AtSelect, BlockExit}"
        "topic_manager c = topic_manager (session_client s)"
        by blast
      show ?thesis unfolding s' by (rule resume_block_stage[OF b(1,2)]) (use between Nil filed_same[OF b(3)] in simp_all)
    next
      case (Cons r rest')
      with between assms(1) have s': "s' = begin_request (subscribe_request r) (ToProgram PrintOn) (s\<lparr>program := subscriber_rest rest'\<rparr>)"
        by (simp add: next_call_def subscriber_rest_def)
      from request_begin_state[OF session_okD(3)[OF assms(2)] between(4), of r] between(2) Cons show ?thesis
        by (intro subscriber_stage.requesting[where before = before and r = r and rest = rest'])
          (simp_all add: s' begin_request_def)
    qed
  next
    case over
    with assms(1) running have "s' = s\<lparr>caller := Exited\<rparr>" by (simp add: next_call_def)
    with over show ?thesis by (auto intro: subscriber_stage.over)
  qed (use running in auto)
qed

lemma subs_data_updates [simp]:
  "subs_data (c\<lparr>packet_ids := ids\<rparr>) t = subs_data c t" "subs_data (send_outgoing ok pt c) t = subs_data c t"
  by (simp_all add: subs_data_def data_at_def)

lemma subs_data_registered:
  assumes "token_typed c (Subscribe t)" and "subs_data c t = []"
  shows "subs_data (add_subscriptions xs t c) t = xs"
proof -
  obtain ss rs where "data_at c t = Some (SubscribeData ss rs)"
    using assms(1) by (cases "the (data_at c t)") (auto simp: token_typed_def)
  with assms(2) show ?thesis by (simp add: subs_data_def add_subscriptions_def tok_simps)
qed

text \<open>A step of the request itself.\<close>

lemma request_step_state:
  assumes "request_step K ok (subscribe_request r) t (pc, c) = Done (pc', c')" and "under_way (subscribe_request r) t pc c"
    and "client_inv c" and "pc \<noteq> Returned" and "request_state xs (subscribe_subscription r) t pc c"
  shows "request_state xs (subscribe_subscription r) t pc' c'"
proof -
  obtain topic q callback where r: "r = (topic, q, callback)" by (cases r)
  have frame: "step_frame t c c'" using request_step_sound[OF assms(2,3,1)] by (simp add: step_sound_def)
  have typed: "token_typed c (Subscribe t)" using assms(2) by (simp add: under_way_def)
  note live = token_typed_live[OF typed]
  have keep: "tok_err c' t = None \<Longrightarrow> tok_err c t = None \<and> (tok_done c' t \<longrightarrow> tok_done c t)"
    "topic_manager c' = topic_manager c"
    using frame by (simp_all add: step_frame_def fails_only_def)
  show ?thesis
  proof (cases "tok_err c' t = None")
    case True
    with keep assms(4,5) filed_same[OF keep(2)] have now: "filed xs c'" "\<not> tok_done c' t"
      "registers (subscribe_subscription r) pc" "subs_data c t = []"
      by (auto simp: request_state_def)
    have "pc \<noteq> PreparingPublish qos" for qos using assms(2) by (auto simp: r under_way_def)
    then have "registers (subscribe_subscription r) pc' \<and> subs_data c' t = (if pc' = Returned then [subscribe_subscription r] else [])"
      using assms(1,4) True now(3,4) live subs_data_registered[OF typed now(4)]
      by (cases pc)
        (auto simp: r bind_outcome_Done_iff offer_def tok_simps split: if_splits option.splits)
    with now show ?thesis by (simp add: request_state_def)
  qed (simp add: request_state_def)
qed

lemma finish_link_topics: "finish_link l = Some l' \<Longrightarrow> topic_manager (link_client l') = topic_manager (link_client l)"
  by (auto simp: finish_link_def finish_connect_def Let_def split: option.splits)

lemma stage_advance:
  assumes "advance K s = Done (Some s')" and "session_ok s" and "subscriber_stage rs s"
  shows "subscriber_stage rs s'"
proof -
  note ok = session_okD[OF assms(2)]
  from assms(3) show ?thesis
  proof cases
    case (connecting t)
    then consider "caller s = Finishing t (ToProgram PanicOn)" | "caller s = Awaiting t (ToProgram PanicOn)" by auto
    then show ?thesis
    proof cases
      case 1
      with assms(1) obtain l where l: "finish_link (conn s) = Some l"
        and s': "s' = s\<lparr>conn := l, caller := Awaiting t (ToProgram PanicOn)\<rparr>"
        by (auto simp: advance_def)
      then have "link_step K Finish (conn s) = Done (Some l)" by simp
      from link_step_moves[OF this ok(2)] connecting(2) have "token_typed (link_client l) (Connect t)"
        by (simp add: client_moves_def)
      with connecting filed_same[OF finish_link_topics[OF l]] show ?thesis
        by (intro subscriber_stage.connecting[where t = t]) (simp_all add: s')
    next
      case 2
      with assms(1) show ?thesis by (simp add: advance_def)
    qed
  next
    case (requesting r t pc before rest)
    from assms(1) requesting(1) have a: "advance_request K (subscribe_request r) t pc (ToProgram PrintOn) s = Done (Some s')"
      by (simp add: advance_def)
    have way: "under_way (subscribe_request r) t pc (session_client s)" using ok(5) requesting(1) by simp
    show ?thesis
    proof (cases "pc = Returned")
      case True
      with a have "s' = s\<lparr>caller := Awaiting t (ToProgram PrintOn)\<rparr>" by (simp add: advance_request_def)
      with requesting way True show ?thesis
        by (intro subscriber_stage.waiting[where t = t and before = before and r = r and rest = rest])
          (auto simp: under_way_def request_state_def waiting_state_def)
    next
      case False
      with a obtain pc' c where
        run: "request_step K (writer (conn s) \<noteq> WriteEnded) (subscribe_request r) t (pc, session_client s) = Done (pc', c)"
        and s': "s' = (with_client c s)\<lparr>caller := InRequest (subscribe_request r) t pc' (ToProgram PrintOn)\<rparr>"
        by (auto simp: advance_request_def bind_outcome_Done_iff split: if_splits)
      from request_step_state[OF run way ok(3) False requesting(4)] requesting show ?thesis
        by (intro subscriber_stage.requesting[where t = t and pc = pc' and before = before and r = r and rest = rest])
          (simp_all add: s')
    qed
  qed (use assms(1) in \<open>auto simp: advance_def\<close>)
qed

lemma poll_state:
  "topic_manager (snd (tok_poll t w c)) = topic_manager c"
  "waiting_state xs x a (snd (tok_poll t w c)) = waiting_state xs x a c"
  "token_typed (snd (tok_poll t w c)) tk = token_typed c tk"
  by (simp_all add: waiting_state_def filed_def tok_simps token_typed_def)

lemma stage_poll:
  assumes "poll_awaited w s = Some s'" and "printed s' = []" and "subscriber_stage rs s"
  shows "subscriber_stage rs s'"
proof -
  obtain t ret where k: "caller s = Awaiting t ret" using assms(1) by (auto simp: poll_awaited_def split: caller.splits)
  let ?c = "snd (tok_poll t w (session_client s))"
  have s': "s' = (if tok_done (session_client s) t then resume_with ret t (tok_err (session_client s) t) (with_client ?c s)
      else with_client ?c s)"
    using assms(1) k by (auto simp: poll_awaited_def split_beta tok_simps)
  note filed = filed_same[OF poll_state(1)]
  from assms(3) show ?thesis
  proof cases
    case (connecting a)
    then have ret: "ret = ToProgram PanicOn" "a = t" using k by simp_all
    show ?thesis
    proof (cases "tok_done (session_client s) t")
      case True
      show ?thesis
      proof (cases "tok_err (session_client s) t")
        case None
        with True s' ret connecting show ?thesis
          by (intro subscriber_stage.between[where before = "[]" and rest = rs]) (simp_all add: filed)
      next
        case (Some e)
        with True s' ret show ?thesis by (intro subscriber_stage.aborted[where e = e]) simp
      qed
    next
      case False
      with s' connecting show ?thesis
        by (intro subscriber_stage.connecting[where t = a]) (simp_all add: filed poll_state(3))
    qed
  next
    case (waiting a before r rest)
    then have ret: "ret = ToProgram PrintOn" "a = t" using k by simp_all
    show ?thesis
    proof (cases "tok_done (session_client s) t")
      case True
      with s' assms(2) ret have "tok_err (session_client s) t = None" by (cases "tok_err (session_client s) t") simp_all
      with True waiting ret s' show ?thesis
        by (intro subscriber_stage.between[where before = "before @ [r]" and rest = rest])
          (simp_all add: waiting_state_def filed)
    next
      case False
      with s' waiting show ?thesis
        by (intro subscriber_stage.waiting[where t = a and before = before and r = r and rest = rest])
          (simp_all add: poll_state(2,3))
    qed
  qed (use k in simp_all)
qed

lemma stage_sleep:
  assumes "sleep_elapsed s = Some s'" and "subscriber_stage rs s"
  shows "subscriber_stage rs s'"
proof -
  from assms(1) obtain cnt where k: "caller s = InBlock AtSelect cnt"
    and s': "s' = resume_block (block_sleep cnt (session_client s)) s"
    by (auto simp: sleep_elapsed_def split: caller.splits block_pc.splits)
  from block_steps_stage(2)[of cnt "session_client s"] obtain pc n c where
    b: "block_sleep cnt (session_client s) = (pc, n, c)" "pc \<in> {AtSelect, BlockExit}"
    "topic_manager c = topic_manager (session_client s)"
    by blast
  from assms(2) show ?thesis
  proof cases
    case blocked
    show ?thesis unfolding s' by (rule resume_block_stage[OF b(1,2)]) (use blocked filed_same[OF b(3)] in simp_all)
  qed (use k in simp_all)
qed

lemma printed_grows:
  assumes "session_step K ev s = Done (Some s')" and "session_ok s" and "printed s' = []"
  shows "printed s = []"
proof -
  have block: "printed (resume_block b d) = printed d" for b and d :: "'a session"
    by (cases b) (simp add: with_client_def)
  have resume: "printed (resume_with ret t err d) = [] \<Longrightarrow> printed d = []" for ret t err and d :: "'a session"
    by (cases "(ret, t, err, d)" rule: resume_with.cases) (auto simp: block)
  have connects: "begin_connect K net first now ch ret d = Done s' \<Longrightarrow> printed s' = printed d" for net first now ch ret d
    by (erule begin_connect_cases) (simp_all add: with_client_def)
  show ?thesis
  proof (cases ev)
    case (Task e)
    with assms(1,3) show ?thesis by (auto simp: bind_outcome_Done_iff simp del: link_step.simps split: if_splits)
  next
    case (NextCall net first now ch)
    with assms(1,3) show ?thesis
      by (auto simp: next_call_def bind_outcome_Done_iff begin_request_def block with_client_def
          split: if_splits list.splits call.splits dest!: connects)
  next
    case Advance
    with assms(1,3) show ?thesis
      by (auto simp: advance_def advance_request_def bind_outcome_Done_iff begin_request_def block with_client_def
          split: if_splits caller.splits block_pc.splits list.splits)
  next
    case (PollToken w)
    with assms(1) obtain t ret err c where "s' = resume_with ret t err (with_client c s) \<or> s' = with_client c s"
      by (auto simp: poll_awaited_def split: caller.splits prod.splits poll.splits)
    with assms(3) resume[of ret t err "with_client c s"] show ?thesis by (auto simp: with_client_def)
  next
    case SleepElapsed
    with assms(1,3) show ?thesis by (auto simp: sleep_elapsed_def block split: caller.splits block_pc.splits)
  next
    case (Notified net first now ch)
    with assms(1,3) show ?thesis
      by (auto simp: notified_def bind_outcome_Done_iff with_client_def
          split: caller.splits block_pc.splits if_splits dest!: connects)
  qed
qed

lemma subscriber_step:
  assumes "session_step K ev s = Done (Some s')" and "proper_event ev s" and "session_ok s" and "printed s' = []"
    and "printed s = [] \<longrightarrow> subscriber_stage rs s"
  shows "subscriber_stage rs s'"
proof -
  have stage: "subscriber_stage rs s" using printed_grows[OF assms(1,3,4)] assms(5) by blast
  show ?thesis
  proof (cases ev)
    case (Task e)
    with assms(1) obtain l where "link_step K e (conn s) = Done (Some l)" "s' = s\<lparr>conn := l\<rparr>" "task_event e"
      by (auto simp: bind_outcome_Done_iff simp del: link_step.simps split: if_splits)
    with stage_task[OF _ _ _ assms(3) stage] assms(2) Task show ?thesis by blast
  next
    case (NextCall net first now ch)
    with assms(1) stage_next[OF _ assms(3) stage] show ?thesis by simp
  next
    case Advance
    with assms(1) stage_advance[OF _ assms(3) stage] show ?thesis by simp
  next
    case (PollToken w)
    with assms(1) stage_poll[OF _ assms(4) stage] show ?thesis by simp
  next
    case SleepElapsed
    with assms(1) stage_sleep[OF _ stage] show ?thesis by simp
  qed (use assms(2) in simp)
qed

lemma subscriber_run:
  assumes "proper_run K (session_start K now opts (subscriber_calls rs)) evs s" and "codec_laws K" and "printed s = []"
  shows "subscriber_stage rs s"
proof -
  have "session_ok s \<and> (printed s = [] \<longrightarrow> subscriber_stage rs s)"
    using assms(1)
  proof (induction "session_start K now opts (subscriber_calls rs)" evs s rule: proper_run.induct)
    case proper_refl
    show ?case using session_start_ok
      by (auto intro!: subscriber_stage.starting simp: session_start_def Let_def link_none_def mqtt_client_new_def
          filed_def state_new_def state.extend_def heap.extend_def)
  next
    case (proper_next evs s1 ev s2)
    with session_step_ok[OF proper_next.hyps(4) _ assms(2)] subscriber_step[OF proper_next.hyps(4,3)] show ?case by blast
  qed
  with assms(3) show ?thesis by blast
qed

text \<open>In \<open>block\<close> without an error: every subscription is filed.\<close>

lemma subscriber_blocked_filed:
  assumes "proper_run K (session_start K now opts (subscriber_calls rs)) evs s" and "codec_laws K"
    and "printed s = []" and "caller s = InBlock pc cnt"
  shows "filed (subs_of rs) (session_client s)"
  using subscriber_run[OF assms(1-3)] assms(4) by cases auto

end
