(* ===== verification/Examples.thy ===== *)
theory Examples
  imports Subscribers
begin

section \<open>The example programs\<close>

text \<open>
  \<^verbatim>\<open>src/examples\<close>, and the test of \<^verbatim>\<open>src/src/client.rs\<close> that runs the client against a broker, as programs of
  \<open>Session\<close>: the options built with the setters, then the calls in order, each awaiting its token. The
  transport is the environment of a session. A handler is named by a number; its body only logs the message.
\<close>

subsection \<open>simple_pub.rs\<close>

definition hello_world :: "u8 list" where
  "hello_world = map of_char ''hello, world!''"

definition simple_pub_options :: client_options where
  "simple_pub_options =
     set_auto_reconnect False (set_client_id ''tcp-pub-client'' (set_server ''localhost:1883'' options_new))"

definition simple_pub_calls :: "call list" where
  "simple_pub_calls =
     [CallConnect PanicOn,
      CallRequest (ReqPublish ''a/topic'' Level0 False hello_world) PrintOn]"

subsection \<open>simple_sub.rs\<close>

definition simple_sub_handler1 :: handler where
  "simple_sub_handler1 = 1"

definition simple_sub_handler2 :: handler where
  "simple_sub_handler2 = 2"

definition simple_sub_options :: client_options where
  "simple_sub_options =
     set_connect_retry_interval (from_secs 10)
       (set_auto_reconnect True
         (set_keep_alive (from_secs 10)
           (set_client_id ''tcp-sub-client'' (set_server ''localhost:1883'' options_new))))"

definition simple_sub_calls :: "call list" where
  "simple_sub_calls =
     [CallConnect PanicOn,
      CallRequest (ReqSubscribe ''a/#'' Level0 simple_sub_handler1) PrintOn,
      CallRequest (ReqSubscribe ''a/b'' Level1 simple_sub_handler1) PrintOn,
      CallRequest (ReqSubscribe ''b/#'' Level1 simple_sub_handler2) PrintOn,
      CallBlock]"

subsection \<open>websocket.rs and quic.rs\<close>

definition websocket_handler :: handler where
  "websocket_handler = 1"

definition websocket_options :: client_options where
  "websocket_options =
     set_connect_retry_interval (from_secs 10)
       (set_auto_reconnect True
         (set_keep_alive (from_secs 10)
           (set_client_id ''ws-client'' (set_server ''ws://localhost:8083/mqtt'' options_new))))"

definition websocket_calls :: "call list" where
  "websocket_calls =
     [CallConnect PanicOn,
      CallRequest (ReqSubscribe ''test/topic'' Level0 websocket_handler) PrintOn,
      CallRequest (ReqPublish ''test/topic'' Level0 False hello_world) PrintOn,
      CallBlock]"

definition quic_handler :: handler where
  "quic_handler = 1"

definition quic_options :: client_options where
  "quic_options =
     set_connect_retry_interval (from_secs 10)
       (set_auto_reconnect True
         (set_keep_alive (from_secs 10)
           (set_client_id ''quic-client'' (set_server ''127.0.0.1:1883'' options_new))))"

definition quic_calls :: "call list" where
  "quic_calls =
     [CallConnect PanicOn,
      CallRequest (ReqSubscribe ''test/topic'' Level0 quic_handler) PrintOn,
      CallRequest (ReqPublish ''test/topic'' Level0 False hello_world) PrintOn,
      CallBlock]"

subsection \<open>The test test_tcp_client\<close>

definition test_handler :: handler where
  "test_handler = 1"

definition test_tcp_options :: client_options where
  "test_tcp_options =
     set_password ''111''
       (set_username ''qinxin'' (set_client_id ''test_qx'' (set_server ''localhost:1883'' options_new)))"

definition test_tcp_calls :: "call list" where
  "test_tcp_calls =
     [CallConnect PrintOn,
      CallRequest (ReqSubscribe ''sport/football'' Level0 test_handler) PrintOn,
      CallRequest (ReqSubscribe ''sport/basketball'' Level0 test_handler) PrintOn,
      CallRequest (ReqPublish ''sport/football'' Level2 False hello_world) PrintOn,
      CallRequest (ReqUnsubscribe [''sport/basketball'']) PrintOn,
      CallBlock]"

subsection \<open>A program that ends with block keeps running\<close>

text \<open>
  With automatic reconnection and no retry limit the loop of \<open>block\<close> has no exit: the program is before the call, or
  its first \<open>connect\<close> has aborted it, or it is in the loop.
\<close>

fun for_block :: "resume \<Rightarrow> bool" where
  "for_block (ToProgram e) = False"
| "for_block ret = True"

fun blocked :: "caller \<Rightarrow> bool" where
  "blocked (InBlock pc cnt) = True"
| "blocked (Finishing t ret) = for_block ret"
| "blocked (Awaiting t ret) = for_block ret"
| "blocked (InRequest req t pc ret) = for_block ret"
| "blocked k = False"

definition keeps_running :: "'c session \<Rightarrow> bool" where
  "keeps_running s \<longleftrightarrow>
     (case caller s of
        Exited \<Rightarrow> False
      | Aborted e \<Rightarrow> program s \<noteq> []
      | k \<Rightarrow> blocked k \<or> program s \<noteq> [] \<and> last (program s) = CallBlock)"

lemma no_exit:
  assumes "auto_reconnect (options c)" and "max_connect_retry_times (options c) = None"
  shows "fst (block_head cnt c) \<noteq> BlockExit" "fst (block_sleep cnt c) \<noteq> BlockExit"
    "fst (block_connected err t cnt c) \<noteq> BlockExit" "fst (block_start c) \<noteq> BlockExit"
proof -
  have head: "fst (block_head cnt d) \<noteq> BlockExit" if "max_connect_retry_times (options d) = None" for cnt and d :: "'a mqtt_client"
    using that by (simp add: block_head_def)
  show "fst (block_head cnt c) \<noteq> BlockExit" using assms head by blast
  show "fst (block_sleep cnt c) \<noteq> BlockExit" using assms head by (simp add: block_sleep_def split: connect_status.split)
  show "fst (block_connected err t cnt c) \<noteq> BlockExit"
    using assms head by (simp add: block_connected_def split_beta Let_def)
  show "fst (block_start c) \<noteq> BlockExit" using assms head by (simp add: block_start_def)
qed

lemma keeps_running_block: "fst b \<noteq> BlockExit \<Longrightarrow> keeps_running (resume_block b s)"
  by (cases b) (simp add: keeps_running_def)

lemma begin_connect_view:
  assumes "begin_connect K net first now ch ret s = Done s'"
  shows "program s' = program s \<and> (\<exists>t. caller s' = Finishing t ret \<or> caller s' = Awaiting t ret)"
  using assms by (cases rule: begin_connect_cases) simp_all

lemma keeps_running_next:
  assumes "next_call K net first now ch s = Done (Some s')" and "keeps_running s"
    and "auto_reconnect (options (session_client s))" and "max_connect_retry_times (options (session_client s)) = None"
  shows "keeps_running s'"
proof -
  have running: "caller s = Running" using assms(1) by (simp add: next_call_def split: if_splits)
  with assms(2) obtain call calls where program: "program s = call # calls" "last (call # calls) = CallBlock"
    by (cases "program s") (simp_all add: keeps_running_def)
  show ?thesis
  proof (cases call)
    case (CallConnect e)
    with assms(1) running program(1) have
      "begin_connect K net first now ch (ToProgram e) (s\<lparr>program := calls\<rparr>) = Done s'"
      by (auto simp: next_call_def bind_outcome_Done_iff)
    from begin_connect_view[OF this] program(2) CallConnect show ?thesis
      by (auto simp: keeps_running_def split: if_splits)
  next
    case (CallRequest req e)
    with assms(1) running program show ?thesis
      by (auto simp: next_call_def begin_request_def keeps_running_def split: if_splits)
  next
    case CallBlock
    with assms(1) running program(1) have "s' = resume_block (block_start (session_client s)) (s\<lparr>program := calls\<rparr>)"
      by (simp add: next_call_def)
    then show ?thesis using keeps_running_block no_exit(4)[OF assms(3,4)] by blast
  qed
qed

lemma keeps_running_step:
  assumes "session_step K ev s = Done (Some s')" and "keeps_running s"
    and "auto_reconnect (options (session_client s))" and "max_connect_retry_times (options (session_client s)) = None"
  shows "keeps_running s'"
proof (cases ev)
  case (Task e)
  with assms(1) have "caller s' = caller s" "program s' = program s"
    by (auto simp: bind_outcome_Done_iff simp del: link_step.simps split: if_splits)
  with assms(2) show ?thesis by (cases "caller s") (simp_all add: keeps_running_def)
next
  case (NextCall net first now ch)
  with assms(1) keeps_running_next[OF _ assms(2-4)] show ?thesis by simp
next
  case Advance
  with assms(1) have a: "advance K s = Done (Some s')" by simp
  show ?thesis
  proof (cases "caller s")
    case (InRequest req t pc ret)
    with a obtain k where "caller s' = k" "program s' = program s" "k = Awaiting t ret \<or> (\<exists>pc'. k = InRequest req t pc' ret)"
      by (auto simp: advance_def advance_request_def bind_outcome_Done_iff split: if_splits)
    with assms(2) InRequest show ?thesis by (auto simp: keeps_running_def)
  next
    case (InBlock pc cnt)
    from InBlock a consider "s' = resume_block (block_head cnt (session_client s)) s"
      | req subs where "s' = begin_request req (ToResubscribe cnt subs) s"
      by (auto simp: advance_def split: block_pc.splits list.splits)
    then show ?thesis
    proof cases
      case 1
      then show ?thesis using keeps_running_block no_exit(1)[OF assms(3,4)] by blast
    qed (simp add: keeps_running_def begin_request_def)
  qed (use a assms(2) in \<open>auto simp: advance_def keeps_running_def\<close>)
next
  case (PollToken w)
  with assms(1) obtain t ret where k: "caller s = Awaiting t ret"
    by (auto simp: poll_awaited_def split: caller.splits)
  let ?s = "with_client (snd (tok_poll t w (session_client s))) s"
  have opts: "options (session_client ?s) = options (session_client s)" by simp
  have "keeps_running (resume_with ret t err ?s)" for err
  proof (cases ret)
    case (ToBlock cnt)
    then show ?thesis
      using keeps_running_block[OF no_exit(3)[of "session_client ?s"]] assms(3,4) opts by simp
  qed (use assms(2) k in \<open>cases "(ret, t, err, ?s)" rule: resume_with.cases; auto simp: keeps_running_def\<close>)+
  moreover have "keeps_running ?s" using assms(2) k by (simp add: keeps_running_def with_client_def)
  ultimately show ?thesis using assms(1) PollToken k by (auto simp: poll_awaited_def split: poll.splits prod.splits)
next
  case SleepElapsed
  with assms(1) obtain cnt where "s' = resume_block (block_sleep cnt (session_client s)) s"
    by (auto simp: sleep_elapsed_def split: caller.splits block_pc.splits)
  then show ?thesis using keeps_running_block no_exit(2)[OF assms(3,4)] by blast
next
  case (Notified net first now ch)
  with assms(1) obtain s1 cnt where "begin_connect K net first now ch (ToBlock cnt) s1 = Done s'"
    by (auto simp: notified_def bind_outcome_Done_iff split: caller.splits block_pc.splits if_splits)
  from begin_connect_view[OF this] show ?thesis by (auto simp: keeps_running_def)
qed

lemma keeps_running_run:
  assumes "session_run K (session_start K now opts calls) evs s" and "codec_laws K" and "auto_reconnect opts"
    and "max_connect_retry_times opts = None" and "calls \<noteq> []" and "last calls = CallBlock"
  shows "keeps_running s"
  using assms(1)
proof (induction "session_start K now opts calls" evs s rule: session_run.induct)
  case session_refl
  show ?case using assms(5,6) by (simp add: keeps_running_def session_start_def Let_def)
next
  case (session_next evs s1 ev s2)
  have "options (session_client s1) = opts"
    using session_run_options[OF session_next.hyps(1) session_start_ok assms(2)] by simp
  with keeps_running_step[OF session_next.hyps(3,2)] assms(3,4) show ?case by simp
qed

text \<open>
  C15. The example programs that end with \<open>block\<close> (simple_sub.rs, websocket.rs, quic.rs) never return from \<open>main\<close>,
  whatever the server, the transport and the scheduling do. Before \<open>block\<close> the error of the first \<open>connect\<close> can abort
  them, in \<open>block\<close> no error does; besides that they can only be stopped by a panic of the transport in a \<open>connect\<close> of a
  disconnected client, the first one or one of \<open>block\<close>, and in a build with overflow checks by an overflow: of
  \<open>block\<close>'s counter at its 65535th attempt in a row, or of the search for an identifier.
\<close>

theorem subscriber_examples_keep_running:
  assumes "codec_laws K"
    and "(opts, calls) \<in> {(simple_sub_options, simple_sub_calls), (websocket_options, websocket_calls), (quic_options, quic_calls)}"
    and "session_run K (session_start K now opts calls) evs s"
  shows "caller s \<noteq> Exited \<and> (program s = [] \<longrightarrow> (\<forall>e. caller s \<noteq> Aborted e)) \<and>
    (\<forall>ev. session_step K ev s = Panic \<longrightarrow>
       transport_panics ev \<and> connect_status (session_client s) = Disconnected \<or> overflows K s)"
proof -
  have opts: "auto_reconnect opts" "max_connect_retry_times opts = None" "calls \<noteq> []" "last calls = CallBlock"
    "\<not> will_enabled opts"
    using assms(2)
    by (auto simp: simple_sub_options_def simple_sub_calls_def websocket_options_def websocket_calls_def quic_options_def
        quic_calls_def option_setters options_new_def options_default_def)
  have ok: "session_ok s" by (rule session_run_ok[OF assms(3) session_start_ok assms(1)])
  have "options (session_client s) = opts" using session_run_options[OF assms(3) session_start_ok assms(1)] by simp
  then have "build_connect_packet K (options (session_client s)) \<noteq> Panic" using opts(5) by (simp add: build_connect_packet_panics)
  with session_step_panics[OF _ ok] keeps_running_run[OF assms(3,1) opts(1-4)] show ?thesis
    by (auto simp: keeps_running_def)
qed

subsection \<open>A publish that succeeds\<close>

text \<open>
  How far a program that connects and publishes once at level 0 has got, and what is known of its publish:
  it belongs to the present connection, and when it is over and nothing was printed it has been written.
\<close>

definition publish_written :: "'c session \<Rightarrow> bool" where
  "publish_written s \<longleftrightarrow> (\<exists>pt p. Inr pt \<in> set (written (conn s)) \<and> pt_packet pt = PublishPacket p \<and> pp_qos p = QLevel0)"

definition level0_publish :: "addr \<Rightarrow> 'c session \<Rightarrow> bool" where
  "level0_publish t s \<longleftrightarrow> publish_qos (session_client s) t = Some Level0 \<and> epoch s \<le> t"

fun before_publish :: "caller \<Rightarrow> bool" where
  "before_publish Running = True"
| "before_publish (Aborted e) = True"
| "before_publish (Finishing t ret) = (ret = ToProgram PanicOn)"
| "before_publish (Awaiting t ret) = (ret = ToProgram PanicOn)"
| "before_publish k = False"

fun in_publish :: "request \<Rightarrow> caller \<Rightarrow> 'c session \<Rightarrow> bool" where
  "in_publish pub (InRequest req t pc ret) s = (req = pub \<and> ret = ToProgram PrintOn \<and> level0_publish t s)"
| "in_publish pub (Awaiting t ret) s = (ret = ToProgram PrintOn \<and> level0_publish t s)"
| "in_publish pub Running s = (printed s = [] \<longrightarrow> publish_written s)"
| "in_publish pub Exited s = (printed s = [] \<longrightarrow> publish_written s)"
| "in_publish pub k s = False"

definition publishing :: "request \<Rightarrow> 'c session \<Rightarrow> bool" where
  "publishing pub s \<longleftrightarrow>
     epoch s \<le> next_addr (session_client s) \<and>
     (program s = [CallConnect PanicOn, CallRequest pub PrintOn] \<and> caller s = Running \<or>
      program s = [CallRequest pub PrintOn] \<and> before_publish (caller s) \<or>
      program s = [] \<and> in_publish pub (caller s) s)"

lemma finish_link_next:
  "finish_link l = Some l' \<Longrightarrow> next_addr (link_client l) \<le> next_addr (link_client l')"
  using grows_finish_connect[of "link_client l"] by (auto simp: finish_link_def grows_def split: option.splits)

lemma session_kind_next_addr:
  assumes "session_kind K s s'" and "session_ok s" and "epoch s \<le> next_addr (session_client s)"
  shows "epoch s' \<le> next_addr (session_client s')"
  using assms(1)
proof cases
  case (by_task e)
  then have "\<nexists>req. e = Request req" by auto
  from link_step_moves[OF by_task(1) session_okD(2)[OF assms(2)] this] have
    "next_addr (session_client s) \<le> next_addr (session_client s')"
    by (simp add: client_moves_def grows_def)
  with assms(3) by_task(4) show ?thesis by simp
next
  case (by_finish t ret)
  then have "next_addr (session_client s) \<le> next_addr (session_client s')"
    using finish_link_next[of "conn s" "conn s'"] by simp
  with assms(3) by_finish(4) show ?thesis by simp
qed (use assms(3) in \<open>auto simp: caller_moves_def client_moves_def grows_def opens_token_def step_sound_def step_frame_def
    new_connection_def link_open_def\<close>)

text \<open>The token of the publish stays what it is, and what has been written stays written.\<close>

lemma publishing_task:
  assumes "session_step K (Task e) s = Done (Some s')" and "session_ok s" and "publishing pub s"
  shows "publishing pub s'"
proof -
  from assms(1) obtain l where l: "link_step K e (conn s) = Done (Some l)" "s' = s\<lparr>conn := l\<rparr>" "task_event e"
    by (auto simp: bind_outcome_Done_iff simp del: link_step.simps split: if_splits)
  then have e: "\<nexists>req. e = Request req" by auto
  have qos: "publish_qos (link_client l) t = publish_qos (session_client s) t" for t
    using keeps_account_link[OF l(1) session_okD(3)[OF assms(2)] e] by (simp add: keeps_account_def)
  have "publish_written s \<Longrightarrow> publish_written s'" "level0_publish t s' = level0_publish t s" for t
    using written_grows[OF l(1)] qos by (auto simp: publish_written_def level0_publish_def l(2))
  then have "in_publish pub (caller s) s \<Longrightarrow> in_publish pub (caller s') s'"
    by (cases "caller s") (auto simp: l(2))
  moreover have "epoch s' \<le> next_addr (session_client s')"
    using session_kind_next_addr[OF session_step_kind[OF assms(1,2)] assms(2)] assms(3) by (simp add: publishing_def)
  ultimately show ?thesis using assms(3) by (auto simp: publishing_def l(2))
qed

lemma publishing_next:
  assumes "next_call K net first now ch s = Done (Some s')" and "session_ok s" and "publishing pub s"
    and "pub = ReqPublish topic Level0 retained payload"
  shows "publishing pub s'"
proof -
  have running: "caller s = Running" using assms(1) by (simp add: next_call_def split: if_splits)
  have bound: "epoch s' \<le> next_addr (session_client s')"
    using session_kind_next_addr[OF next_call_kind[OF assms(1,2)] assms(2)] assms(3) by (simp add: publishing_def)
  from assms(3) running consider
      "program s = [CallConnect PanicOn, CallRequest pub PrintOn]" | "program s = [CallRequest pub PrintOn]"
    | "program s = []" "printed s = [] \<longrightarrow> publish_written s"
    by (auto simp: publishing_def)
  then show ?thesis
  proof cases
    case 1
    with assms(1) running have
      "begin_connect K net first now ch (ToProgram PanicOn) (s\<lparr>program := [CallRequest pub PrintOn]\<rparr>) = Done s'"
      by (auto simp: next_call_def bind_outcome_Done_iff)
    from begin_connect_view[OF this] bound show ?thesis by (auto simp: publishing_def)
  next
    case 2
    let ?t = "next_addr (session_client s)" let ?c = "request_begin pub (session_client s)"
    have s': "s' = begin_request pub (ToProgram PrintOn) (s\<lparr>program := []\<rparr>)"
      using assms(1) running 2 by (simp add: next_call_def)
    have "publish_qos ?c ?t = Some Level0"
      by (simp add: assms(4) publish_qos_def publish_set_qos_def publish_default_def tok_simps)
    with assms(3) bound show ?thesis
      by (simp add: publishing_def s' begin_request_def level0_publish_def)
  next
    case 3
    with assms(1) running have "s' = s\<lparr>caller := Exited\<rparr>" by (simp add: next_call_def)
    with 3 bound show ?thesis by (simp add: publishing_def publish_written_def)
  qed
qed

lemma publishing_advance:
  assumes "advance K s = Done (Some s')" and "session_ok s" and "publishing pub s"
  shows "publishing pub s'"
proof -
  have bound: "epoch s' \<le> next_addr (session_client s')"
    using session_kind_next_addr[OF advance_kind[OF assms(1,2)] assms(2)] assms(3) by (simp add: publishing_def)
  show ?thesis
  proof (cases "caller s")
    case (Finishing t ret)
    with assms(1,3) bound show ?thesis by (auto simp: advance_def publishing_def)
  next
    case (InRequest req t pc ret)
    with assms(1) have a: "advance_request K req t pc ret s = Done (Some s')" by (simp add: advance_def)
    from assms(3) InRequest have in_pub: "program s = []" "req = pub" "ret = ToProgram PrintOn" "level0_publish t s"
      by (auto simp: publishing_def)
    show ?thesis
    proof (cases "pc = Returned")
      case True
      with a in_pub bound show ?thesis
        by (auto simp: advance_request_def publishing_def level0_publish_def)
    next
      case False
      with a obtain pc' c where
        run: "request_step K (writer (conn s) \<noteq> WriteEnded) req t (pc, session_client s) = Done (pc', c)"
        and s': "s' = (with_client c s)\<lparr>caller := InRequest req t pc' ret\<rparr>"
        by (auto simp: advance_request_def bind_outcome_Done_iff split: if_splits)
      have "under_way req t pc (session_client s)" using session_okD(5)[OF assms(2)] InRequest by simp
      from request_step_sound[OF this session_okD(3)[OF assms(2)] run]
      have "publish_qos c t = publish_qos (session_client s) t" by (simp add: step_sound_def step_frame_def)
      with in_pub bound show ?thesis by (simp add: publishing_def s' level0_publish_def)
    qed
  qed (use assms(1,3) in \<open>auto simp: advance_def publishing_def\<close>)
qed

lemma publishing_poll:
  assumes "poll_awaited w s = Some s'" and "session_ok s" and "session_level0 s" and "publishing pub s"
  shows "publishing pub s'"
proof -
  have bound: "epoch s' \<le> next_addr (session_client s')"
    using session_kind_next_addr[OF poll_awaited_kind[OF assms(1,2)] assms(2)] assms(4) by (simp add: publishing_def)
  from assms(1) obtain t ret where k: "caller s = Awaiting t ret" by (auto simp: poll_awaited_def split: caller.splits)
  let ?c = "snd (tok_poll t w (session_client s))"
  have qos: "publish_qos ?c t = publish_qos (session_client s) t" for t
    by (simp add: publish_qos_def tok_simps)
  show ?thesis
  proof (cases "tok_done (session_client s) t")
    case False
    then have "s' = with_client ?c s" using assms(1) k by (simp add: poll_awaited_def split_beta tok_simps)
    with assms(4) k bound qos show ?thesis by (auto simp: publishing_def level0_publish_def)
  next
    case True
    then have s': "s' = resume_with ret t (tok_err (session_client s) t) (with_client ?c s)"
      using assms(1) k by (simp add: poll_awaited_def split_beta tok_simps)
    from assms(4) k consider "program s = [CallRequest pub PrintOn]" "ret = ToProgram PanicOn"
      | "program s = []" "ret = ToProgram PrintOn" "level0_publish t s"
      by (auto simp: publishing_def)
    then show ?thesis
    proof cases
      case 1
      with s' bound show ?thesis by (cases "tok_err (session_client s) t") (simp_all add: publishing_def)
    next
      case 2
      have "publish_written s" if "tok_err (session_client s) t = None"
        using level0_written[OF assms(2,3) _ _ True that] 2(3)
        by (auto simp: level0_publish_def publish_written_def)
      with 2 s' bound show ?thesis
        by (cases "tok_err (session_client s) t") (simp_all add: publishing_def publish_written_def)
    qed
  qed
qed

lemma publishing_run:
  assumes "session_run K (session_start K now opts [CallConnect PanicOn, CallRequest pub PrintOn]) evs s"
    and "codec_laws K" and "pub = ReqPublish topic Level0 retained payload"
  shows "session_ok s \<and> session_level0 s \<and> publishing pub s"
  using assms(1)
proof (induction "session_start K now opts [CallConnect PanicOn, CallRequest pub PrintOn]" evs s rule: session_run.induct)
  case session_refl
  show ?case
    using session_run_level0[OF session_run.session_refl assms(2)]
    by (simp add: publishing_def) (simp add: session_start_def Let_def link_none_def)
next
  case (session_next evs s1 ev s2)
  then have ok: "session_ok s1" "session_level0 s1" and pub: "publishing pub s1" by simp_all
  have idle: "caller s1 \<noteq> InBlock pc cnt" for pc cnt using pub by (auto simp: publishing_def)
  have "publishing pub s2"
  proof (cases ev)
    case (Task e)
    with publishing_task[OF _ ok(1) pub] session_next.hyps(3) show ?thesis by blast
  next
    case (NextCall net first now ch)
    with publishing_next[OF _ ok(1) pub assms(3)] session_next.hyps(3) show ?thesis by simp
  next
    case Advance
    with publishing_advance[OF _ ok(1) pub] session_next.hyps(3) show ?thesis by simp
  next
    case (PollToken w)
    with publishing_poll[OF _ ok pub] session_next.hyps(3) show ?thesis by simp
  qed (use session_next.hyps(3) idle in \<open>auto simp: sleep_elapsed_def notified_def split: caller.splits\<close>)
  moreover have "session_ok s2" by (rule session_step_ok[OF session_next.hyps(3) ok(1) assms(2)])
  moreover have "session_level0 s2"
    by (rule session_kind_level0[OF session_step_kind[OF session_next.hyps(3) ok(1)] ok])
  ultimately show ?case by simp
qed

text \<open>
  C14. simple_pub.rs does what it is for: if it has returned from \<open>main\<close> and printed no error, then its message has been
  written to the socket: a PUBLISH for the topic \<open>a/topic\<close> with the payload \<open>hello, world!\<close>, at level 0 and not
  retained. Whatever the server, the transport and the scheduling do, it does not report a success it has not
  had.
\<close>

theorem simple_pub_success_means_published:
  assumes "codec_laws K" and "cache_laws K"
    and "session_run K (session_start K now simple_pub_options simple_pub_calls) evs s"
    and "caller s = Exited" and "printed s = []"
  shows "\<exists>pt p. Inr pt \<in> set (written (conn s)) \<and> pt_packet pt = PublishPacket p \<and>
    topic_name_new K ''a/topic'' = Some (pp_topic_name p) \<and> pp_payload p = hello_world \<and> pp_qos p = QLevel0 \<and>
    \<not> pp_retain p \<and> \<not> pp_dup p"
proof -
  have "publishing (ReqPublish ''a/topic'' Level0 False hello_world) s"
    using publishing_run[OF assms(3)[unfolded simple_pub_calls_def] assms(1) refl] by blast
  with assms(4,5) have "publish_written s" by (auto simp: publishing_def)
  then obtain pt p where pt: "Inr pt \<in> set (written (conn s))" "pt_packet pt = PublishPacket p" "pp_qos p = QLevel0"
    by (auto simp: publish_written_def)
  have "session_from K simple_pub_calls (\<lambda>p. Task (ReadFrame (Frame (PublishPacket p))) \<in> set evs) s"
    by (rule session_run_from[OF assms(3,1,2)])
  moreover have "pt \<in> set (outgoing (session_client s))"
    using written_from(2)[OF session_okD(4)[OF session_run_ok[OF assms(3) session_start_ok assms(1)]] pt(1)] .
  ultimately have "sent_from K simple_pub_calls pt" by (simp add: session_from_def list_all_iff)
  with pt show ?thesis
    by (auto simp: sent_from_def packet_and_token_new_def simple_pub_calls_def requests_of_def program_subs_def intro!: exI[of _ pt])
qed

subsection \<open>The subscriptions of simple_sub.rs\<close>

text \<open>A run in which the server accepts the connection and, in turn, each of the three subscriptions.\<close>

abbreviation subscribing :: "u16 \<Rightarrow> quality_of_service \<Rightarrow> addr \<Rightarrow> session_event list" where
  "subscribing i q t \<equiv> [accepting 1, Advance, Advance, Advance, Advance, Advance, Advance,
     Task (ReadFrame (Frame (SubackPacket i [MaximumQoS q]))), PollToken t]"

abbreviation simple_sub_events :: "session_event list" where
  "simple_sub_events \<equiv> [accepting 1, Advance, PollToken 0] @ subscribing 2 Level0 1 @ subscribing 3 Level1 2 @
     subscribing 4 Level1 3 @ [accepting 1]"

lemma simple_sub_play:
  assumes "\<not> overflow_checks K" and "topic_filter_new K ''a/#'' = Some f1" and "topic_filter_new K ''a/b'' = Some f2"
    and "topic_filter_new K ''b/#'' = Some f3"
  shows "\<exists>s. proper_play K simple_sub_events (session_start K now simple_sub_options simple_sub_calls) = Done (Some s) \<and>
    caller s = InBlock AtSelect 0 \<and> printed s = [] \<and>
    map pt_packet (outgoing (session_client s)) =
      [SubscribePacket 2 [(f1, Level0)], SubscribePacket 3 [(f2, Level1)], SubscribePacket 4 [(f3, Level1)]] \<and>
    topic_manager (session_client s) =
      tm_add (subscription_new ''b/#'' Level1 simple_sub_handler2) (tm_add (subscription_new ''a/b'' Level1 simple_sub_handler1)
        (tm_add (subscription_new ''a/#'' Level0 simple_sub_handler1) topic_manager_new)) \<and>
    reader (conn s) = Reading \<and> spawned (session_client s) = []"
  using assms
  by (simp add: subscribe_play_defs simple_sub_options_def simple_sub_calls_def option_setters options_new_def
      options_default_def Let_def block_start_def block_head_def tok_view_defs)

definition simple_sub_subscribes :: "subscribe_call list" where
  "simple_sub_subscribes =
     [(''a/#'', Level0, simple_sub_handler1), (''a/b'', Level1, simple_sub_handler1), (''b/#'', Level1, simple_sub_handler2)]"

lemma simple_sub_is_subscriber: "simple_sub_calls = subscriber_calls simple_sub_subscribes"
  by (simp add: simple_sub_calls_def subscriber_calls_def subscriber_rest_def simple_sub_subscribes_def)

lemma filed_handlers:
  "filed xs c \<Longrightarrow> callback \<in> sub_handler ` set (tm_match_topic topic (topic_manager c)) \<longleftrightarrow>
     (\<exists>x \<in> set xs. filter_text_matches (sub_topic x) topic \<and> callback = sub_handler x)"
  by (auto simp: tm_match_iff filed_def)

text \<open>
  C7. simple_sub.rs gets what it subscribes to. Whatever the scheduling, the transport and the rest of the server's packets
  are: if the server answers a SUBSCRIBE only by granting it while the program waits for the answer (an earlier answer
  can lose the subscription), acknowledges it with no other packet and sends no UNSUBACK, then a program that is in \<open>block\<close>,
  on its first connection (also once that is lost, until it tries the next), and has printed no error gives a message to its
  first handler exactly if the topic matches \<open>a/#\<close> or \<open>a/b\<close>, and to its second exactly if it matches \<open>b/#\<close>. And in a
  release build with a codec that accepts its three filters it can get there, having sent the three SUBSCRIBE packets, in
  order and with fresh identifiers.
\<close>

theorem simple_sub_gets_subscribed:
  assumes "codec_laws K"
  shows "(\<forall>evs s pc cnt. proper_run K (session_start K now simple_sub_options simple_sub_calls) evs s \<and>
      printed s = [] \<and> caller s = InBlock pc cnt \<longrightarrow>
      (\<forall>topic callback. callback \<in> sub_handler ` set (tm_match_topic topic (topic_manager (session_client s))) \<longleftrightarrow>
         callback = simple_sub_handler1 \<and> (filter_text_matches ''a/#'' topic \<or> filter_text_matches ''a/b'' topic) \<or>
         callback = simple_sub_handler2 \<and> filter_text_matches ''b/#'' topic)) \<and>
    (\<forall>f1 f2 f3. \<not> overflow_checks K \<and> topic_filter_new K ''a/#'' = Some f1 \<and> topic_filter_new K ''a/b'' = Some f2 \<and>
      topic_filter_new K ''b/#'' = Some f3 \<longrightarrow>
      (\<exists>evs s. proper_run K (session_start K now simple_sub_options simple_sub_calls) evs s \<and>
         caller s = InBlock AtSelect 0 \<and> printed s = [] \<and>
         map pt_packet (outgoing (session_client s)) =
           [SubscribePacket 2 [(f1, Level0)], SubscribePacket 3 [(f2, Level1)], SubscribePacket 4 [(f3, Level1)]]))"
proof (intro conjI allI impI)
  fix evs s pc cnt topic callback
  assume run: "proper_run K (session_start K now simple_sub_options simple_sub_calls) evs s \<and>
    printed s = [] \<and> caller s = InBlock pc cnt"
  then have "filed (subs_of simple_sub_subscribes) (session_client s)"
    using subscriber_blocked_filed[OF _ assms] unfolding simple_sub_is_subscriber by blast
  note filed_handlers[OF this, of callback topic]
  then show "callback \<in> sub_handler ` set (tm_match_topic topic (topic_manager (session_client s))) \<longleftrightarrow>
      callback = simple_sub_handler1 \<and> (filter_text_matches ''a/#'' topic \<or> filter_text_matches ''a/b'' topic) \<or>
      callback = simple_sub_handler2 \<and> filter_text_matches ''b/#'' topic"
    unfolding simple_sub_subscribes_def list.map list.set subscribe_subscription.simps subscription_new_def
      subscription.select_convs bex_simps by blast
next
  fix f1 f2 f3
  assume laws: "\<not> overflow_checks K \<and> topic_filter_new K ''a/#'' = Some f1 \<and> topic_filter_new K ''a/b'' = Some f2 \<and>
    topic_filter_new K ''b/#'' = Some f3"
  then have "\<not> overflow_checks K" "topic_filter_new K ''a/#'' = Some f1" "topic_filter_new K ''a/b'' = Some f2"
    "topic_filter_new K ''b/#'' = Some f3"
    by simp_all
  from simple_sub_play[OF this, of now] obtain s where
    "proper_play K simple_sub_events (session_start K now simple_sub_options simple_sub_calls) = Done (Some s)"
    and s: "caller s = InBlock AtSelect 0" "printed s = []" "map pt_packet (outgoing (session_client s)) =
      [SubscribePacket 2 [(f1, Level0)], SubscribePacket 3 [(f2, Level1)], SubscribePacket 4 [(f3, Level1)]]"
    by (elim exE conjE) (rule that)
  from proper_playI[OF this(1) proper_run.proper_refl] s
  show "\<exists>evs s. proper_run K (session_start K now simple_sub_options simple_sub_calls) evs s \<and>
      caller s = InBlock AtSelect 0 \<and> printed s = [] \<and> map pt_packet (outgoing (session_client s)) =
        [SubscribePacket 2 [(f1, Level0)], SubscribePacket 3 [(f2, Level1)], SubscribePacket 4 [(f3, Level1)]]"
    unfolding append_Nil by (intro exI[of _ simple_sub_events] exI[of _ s] conjI)
qed

subsection \<open>The test of the topic manager\<close>

text \<open>The test in \<^verbatim>\<open>src/src/topic_trie.rs\<close>: its assertions hold.\<close>

definition test_topic_manager :: bool where
  "test_topic_manager =
     (let manager = topic_manager_new;
          manager = tm_add \<lparr>sub_topic = ''sport/football'', sub_qos = Level0, sub_handler = 1\<rparr> manager;
          manager = tm_add \<lparr>sub_topic = ''sport/+/news'', sub_qos = Level0, sub_handler = 2\<rparr> manager;
          manager = tm_add \<lparr>sub_topic = ''sport/#'', sub_qos = Level0, sub_handler = 3\<rparr> manager;
          manager = snd (tm_remove ''sport/#'' manager);
          matched = tm_match_topic ''sport/football/news'' manager;
          cleared = tm_clear manager
      in length matched = 1 \<and> tm_match_topic ''sport/football'' cleared = [])"

lemma test_topic_manager_passes: "test_topic_manager"
  by (simp add: test_topic_manager_def topic_play_defs Let_def trie_remove_def is_dead_def)

subsection \<open>Witnesses\<close>

abbreviation simple_pub_events :: "session_event list" where
  "simple_pub_events \<equiv> sample_events @ [Task TakeOutgoing, Task (WriteReturns (WriteOk 5)), PollToken 1, accepting 1]"

lemma simple_pub_success_means_published_witness:
  "\<exists>s pt p. session_run sample_libs (session_start sample_libs 0 simple_pub_options simple_pub_calls) simple_pub_events s \<and>
     caller s = Exited \<and> Inr pt \<in> set (written (conn s)) \<and> pt_packet pt = PublishPacket p \<and> pp_topic_name p = ''a/topic''"
proof -
  obtain s where "session_play sample_libs simple_pub_events
      (session_start sample_libs 0 simple_pub_options simple_pub_calls) = Done (Some s)"
    and s: "caller s = Exited" "printed s = []"
    by (simp add: session_play_defs simple_pub_options_def simple_pub_calls_def option_setters options_new_def
        options_default_def Let_def sample_libs_def)
  from session_playI[OF this(1)] have
    run: "session_run sample_libs (session_start sample_libs 0 simple_pub_options simple_pub_calls) simple_pub_events s" .
  have name: "topic_name_new sample_libs ''a/topic'' = Some ''a/topic''" by (simp add: sample_libs_def)
  from simple_pub_success_means_published[OF sample_libs_codec sample_libs_cache run s] obtain pt p where
    "Inr pt \<in> set (written (conn s))" "pt_packet pt = PublishPacket p" "pp_topic_name p = ''a/topic''"
    by (auto simp: name)
  with run s(1) show ?thesis by blast
qed

lemma subscriber_examples_keep_running_witness:
  "\<exists>s. session_run sample_libs (session_start sample_libs 0 websocket_options websocket_calls)
     [NextCall (NetError NetworkUnreachable) FirstNone 0 1, PollToken 0] s \<and> caller s = Aborted NetworkUnreachable \<and> program s \<noteq> []"
proof -
  obtain s where "session_play sample_libs [NextCall (NetError NetworkUnreachable) FirstNone 0 1, PollToken 0]
      (session_start sample_libs 0 websocket_options websocket_calls) = Done (Some s)"
    and s: "caller s = Aborted NetworkUnreachable"
    by (simp add: session_play_defs websocket_options_def websocket_calls_def option_setters options_new_def
        options_default_def Let_def sample_libs_def connect_def refuse_connect_def tok_set_error_def taken_waker_def)
  from session_playI[OF this(1)] have
    run: "session_run sample_libs (session_start sample_libs 0 websocket_options websocket_calls)
      [NextCall (NetError NetworkUnreachable) FirstNone 0 1, PollToken 0] s" .
  from subscriber_examples_keep_running[OF sample_libs_codec _ run] run s show ?thesis by blast
qed

lemma simple_sub_gets_subscribed_witness:
  "\<exists>evs s. proper_run sample_libs (session_start sample_libs 0 simple_sub_options simple_sub_calls) evs s \<and>
     caller s = InBlock AtSelect 0 \<and>
     simple_sub_handler1 \<in> sub_handler ` set (tm_match_topic ''a/b'' (topic_manager (session_client s))) \<and>
     simple_sub_handler2 \<notin> sub_handler ` set (tm_match_topic ''a/b'' (topic_manager (session_client s)))"
proof -
  have laws: "topic_filter_new sample_libs ''a/#'' = Some ''a/#''" "topic_filter_new sample_libs ''a/b'' = Some ''a/b''"
    "topic_filter_new sample_libs ''b/#'' = Some ''b/#''"
    by (simp_all add: sample_libs_def)
  note sub = simple_sub_gets_subscribed[OF sample_libs_codec, of 0]
  from conjunct2[OF sub] laws sample_libs_flags(1) obtain evs s where
    run: "proper_run sample_libs (session_start sample_libs 0 simple_sub_options simple_sub_calls) evs s"
      "caller s = InBlock AtSelect 0" "printed s = []"
    by metis
  have "filter_text_matches ''a/b'' ''a/b''" "\<not> filter_text_matches ''b/#'' ''a/b''"
    by (simp_all add: filter_text_matches_def tokenize_topic_def)
  with conjunct1[OF sub] run show ?thesis
    by (intro exI[of _ evs] exI[of _ s]) (auto simp: simple_sub_handler1_def simple_sub_handler2_def)
qed

end
