(* ===== verification/Handlers.thy ===== *)
theory Handlers
  imports Examples "HOL-Library.Multiset"
begin

section \<open>What is logged\<close>

text \<open>
  The handlers of \<^verbatim>\<open>src/examples\<close> and of the test in \<^verbatim>\<open>src/src/client.rs\<close>: each logs one line, the record of the
  arguments it formats. A Rust string is the list of its bytes, so \<open>String::from_utf8\<close> returns the bytes it is
  given, if they are UTF-8, and them in its error otherwise. Of the library's own log messages the one that takes a
  computation is here, the warning of \<open>subscribe\<close>.
\<close>

subsection \<open>String::from_utf8\<close>

definition continuation :: "u8 \<Rightarrow> bool" where
  "continuation b \<longleftrightarrow> 0x80 \<le> b \<and> b \<le> 0xBF"

text \<open>The second byte a first byte of three or four admits, and how many bytes follow a first byte.\<close>

definition second_byte :: "u8 \<Rightarrow> u8 \<Rightarrow> bool" where
  "second_byte a b \<longleftrightarrow> continuation b \<and>
     (a = 0xE0 \<longrightarrow> 0xA0 \<le> b) \<and> (a = 0xED \<longrightarrow> b \<le> 0x9F) \<and> (a = 0xF0 \<longrightarrow> 0x90 \<le> b) \<and> (a = 0xF4 \<longrightarrow> b \<le> 0x8F)"

definition sequence_length :: "u8 \<Rightarrow> nat option" where
  "sequence_length a =
     (if a \<le> 0x7F then Some 0 else if 0xC2 \<le> a \<and> a \<le> 0xDF then Some 1
      else if 0xE0 \<le> a \<and> a \<le> 0xEF then Some 2 else if 0xF0 \<le> a \<and> a \<le> 0xF4 then Some 3 else None)"

fun continued :: "nat \<Rightarrow> u8 list \<Rightarrow> bool" where
  "continued 0 bs = True"
| "continued (Suc n) [] = False"
| "continued (Suc n) (b # bs) = (continuation b \<and> continued n bs)"

function utf8_valid :: "u8 list \<Rightarrow> bool" where
  "utf8_valid [] = True"
| "utf8_valid (a # bs) =
     (case sequence_length a of
        None \<Rightarrow> False
      | Some n \<Rightarrow> continued n bs \<and> (0 < n \<longrightarrow> second_byte a (hd bs)) \<and> utf8_valid (drop n bs))"
  by pat_completeness auto
termination by (relation "measure length") auto

definition text_of :: "u8 list \<Rightarrow> string" where
  "text_of bs = map (\<lambda>b. char_of (unat b)) bs"

definition from_utf8 :: "u8 list \<Rightarrow> u8 list + string" where
  "from_utf8 bs = (if utf8_valid bs then Inr (text_of bs) else Inl bs)"

lemma utf8_valid_ascii: "\<forall>b \<in> set bs. b \<le> 0x7F \<Longrightarrow> utf8_valid bs"
  by (induction bs) (simp_all add: sequence_length_def)

lemma utf8_valid_append: "utf8_valid bs \<Longrightarrow> utf8_valid cs \<Longrightarrow> utf8_valid (bs @ cs)"
proof (induction bs rule: utf8_valid.induct)
  case (2 a bs)
  then obtain n where n: "sequence_length a = Some n" "continued n bs" "0 < n \<longrightarrow> second_byte a (hd bs)" "utf8_valid (drop n bs)"
    by (auto split: option.splits)
  have len: "continued n xs \<Longrightarrow> n \<le> length xs \<and> continued n (xs @ ys)" for xs ys
    by (induction n xs rule: continued.induct) auto
  have "hd (bs @ cs) = hd bs" if "0 < n" using len[OF n(2)] that by (cases bs) auto
  with 2 n len[OF n(2)] show ?case by auto
qed simp

text \<open>The text determines the bytes.\<close>

lemma text_of_bytes: "map of_char (text_of bs) = map unat bs"
proof -
  have "unat b < 256" for b :: u8 using unsigned_less[where 'a = nat, of b] by simp
  then have "unat b mod 256 = unat b" for b :: u8 by simp
  then show ?thesis by (simp add: text_of_def)
qed

lemma text_of_inj: "text_of bs = text_of cs \<longleftrightarrow> bs = cs"
proof
  assume "text_of bs = text_of cs"
  then have "map unat bs = map unat cs" by (metis text_of_bytes)
  then show "bs = cs" by (simp add: inj_map_eq_map inj_unsigned)
qed simp

lemma from_utf8_inj: "from_utf8 bs = from_utf8 cs \<longleftrightarrow> bs = cs"
  by (auto simp: from_utf8_def text_of_inj)

text \<open>The bytes of a string have its text.\<close>

lemma text_of_string: "text_of (map of_char s) = s"
proof -
  have "unat (of_nat (of_char c) :: u8) = of_char c" for c by (simp add: unat_of_nat)
  then have "unat (of_char c :: u8) = of_char c" for c by (simp only: of_nat_of_char)
  then show ?thesis by (simp add: text_of_def o_def)
qed

subsection \<open>The handlers\<close>

record log_line =
  log_prefix :: string
  log_topic :: string
  log_payload :: "u8 list + string"
  log_qos :: quality_of_service
  log_retain :: bool
  log_dup :: bool

definition log_message :: "string \<Rightarrow> message \<Rightarrow> log_line" where
  "log_message prefix msg =
     \<lparr>log_prefix = prefix, log_topic = message_topic msg, log_payload = from_utf8 (message_payload msg),
      log_qos = message_qos msg, log_retain = message_retain msg, log_dup = message_dup msg\<rparr>"

definition simple_sub_log1 :: "message \<Rightarrow> log_line" where
  "simple_sub_log1 msg = log_message ''message from handler1, '' msg"

definition simple_sub_log2 :: "message \<Rightarrow> log_line" where
  "simple_sub_log2 msg = log_message ''message from handler2, '' msg"

definition websocket_log :: "message \<Rightarrow> log_line" where
  "websocket_log msg = log_message [] msg"

definition quic_log :: "message \<Rightarrow> log_line" where
  "quic_log msg = log_message [] msg"

definition test_log :: "message \<Rightarrow> log_line" where
  "test_log msg = log_message [] msg"

text \<open>The lines of the calls that were spawned; the runtime decides the order in which they are logged.\<close>

definition simple_sub_log :: "handler \<times> message \<Rightarrow> log_line" where
  "simple_sub_log call =
     (if fst call = simple_sub_handler1 then simple_sub_log1 (snd call) else simple_sub_log2 (snd call))"

definition logged :: "(handler \<times> message \<Rightarrow> log_line) \<Rightarrow> 'c session \<Rightarrow> log_line multiset" where
  "logged run s = mset (map run (spawned (session_client s)))"

text \<open>
  Whatever the server and the runtime do, each line \<open>simple_sub.rs\<close> logs is that of a PUBLISH the server has sent: its
  topic, its level, its flags and its payload, as text exactly if it is UTF-8; handler1's are those whose topic matches
  \<open>a/#\<close> or \<open>a/b\<close>, handler2's those whose topic matches \<open>b/#\<close>.
\<close>

lemma simple_sub_logs_what_arrives:
  assumes "codec_laws K" and "cache_laws K"
    and "session_run K (session_start K now simple_sub_options simple_sub_calls) evs s" and "line \<in># logged simple_sub_log s"
  shows "\<exists>p. Task (ReadFrame (Frame (PublishPacket p))) \<in> set evs \<and> log_topic line = pp_topic_name p \<and>
    log_payload line = (if utf8_valid (pp_payload p) then Inr (text_of (pp_payload p)) else Inl (pp_payload p)) \<and>
    log_qos line = fst (qos_split K (pp_qos p)) \<and> log_retain line = pp_retain p \<and> log_dup line = pp_dup p \<and>
    (log_prefix line = ''message from handler1, '' \<and>
       (filter_text_matches ''a/#'' (log_topic line) \<or> filter_text_matches ''a/b'' (log_topic line)) \<or>
     log_prefix line = ''message from handler2, '' \<and> filter_text_matches ''b/#'' (log_topic line))"
proof -
  from assms(4) obtain callback msg where call: "(callback, msg) \<in> set (spawned (session_client s))"
    and line: "line = simple_sub_log (callback, msg)"
    by (auto simp: logged_def)
  from started_call[OF assms(1-3) call] obtain x p where x: "x \<in> set (program_subs simple_sub_calls)" "callback = sub_handler x"
    and p: "Task (ReadFrame (Frame (PublishPacket p))) \<in> set evs" "msg = message_from K p"
    and "filter_text_matches (sub_topic x) (pp_topic_name p)"
    unfolding started_from_def by blast
  moreover have "x \<in> {subscription_new ''a/#'' Level0 simple_sub_handler1, subscription_new ''a/b'' Level1 simple_sub_handler1,
      subscription_new ''b/#'' Level1 simple_sub_handler2}"
    using x(1) by (auto simp: program_subs_def simple_sub_calls_def)
  ultimately show ?thesis
    by (intro exI[of _ p]) (auto simp: line simple_sub_log_def simple_sub_log1_def simple_sub_log2_def log_message_def
        from_utf8_def simple_sub_handler1_def simple_sub_handler2_def)
qed

subsection \<open>The conflict warning of subscribe\<close>

fun join_strings :: "string \<Rightarrow> string list \<Rightarrow> string" where
  "join_strings sep [] = []"
| "join_strings sep [x] = x"
| "join_strings sep (x # y # xs) = x @ sep @ join_strings sep (y # xs)"

text \<open>The two arguments of the warning, if there is one.\<close>

definition conflict_warning :: "string \<Rightarrow> 'c mqtt_client \<Rightarrow> (string \<times> string) option" where
  "conflict_warning topic c =
     (let matched = tm_match_topic topic (topic_manager c)
      in if matched \<noteq> [] then Some (topic, join_strings '', '' (map sub_topic matched)) else None)"

text \<open>
  The new filter is looked up as a topic: there is a warning exactly if a filter in use matches its text, so always for
  a filter that is in use itself.
\<close>

lemma conflict_warning_iff:
  "conflict_warning topic c = None \<longleftrightarrow>
     (\<forall>f. filter_text_matches f topic \<longrightarrow> tm_subs_at (topic_manager c) f = [])"
proof -
  have "tm_match_topic topic (topic_manager c) = [] \<longleftrightarrow> (\<nexists>x. x \<in> set (tm_match_topic topic (topic_manager c)))" by auto
  also have "\<dots> \<longleftrightarrow> (\<forall>f. filter_text_matches f topic \<longrightarrow> tm_subs_at (topic_manager c) f = [])"
    unfolding tm_match_iff by (metis all_not_in_conv set_empty empty_iff)
  finally show ?thesis by (simp add: conflict_warning_def Let_def)
qed

lemma same_filter_warns: "tm_subs_at (topic_manager c) f \<noteq> [] \<Longrightarrow> conflict_warning f c \<noteq> None"
  using wildcard_free_self by (auto simp: conflict_warning_iff filter_text_matches_def)

subsection \<open>A run\<close>

lemma hello_world_text: "from_utf8 hello_world = Inr ''hello, world!''"
proof -
  have "utf8_valid hello_world" by (rule utf8_valid_ascii) (simp add: hello_world_def)
  moreover have "text_of hello_world = ''hello, world!''" unfolding hello_world_def by (rule text_of_string)
  ultimately show ?thesis by (simp add: from_utf8_def)
qed

abbreviation hello_event :: session_event where
  "hello_event \<equiv> Task (ReadFrame (Frame (PublishPacket
     \<lparr>pp_topic_name = ''a/b'', pp_qos = QLevel0, pp_payload = hello_world, pp_dup = False, pp_retain = False\<rparr>)))"

text \<open>Both subscriptions of handler1 match the topic, so it logs the message twice.\<close>

lemma simple_sub_hears_hello:
  "\<exists>s. session_run sample_libs (session_start sample_libs 0 simple_sub_options simple_sub_calls) (simple_sub_events @ [hello_event]) s \<and>
     map log_payload (map simple_sub_log (spawned (session_client s))) = [Inr ''hello, world!'', Inr ''hello, world!'']"
proof -
  let ?m = "tm_add (subscription_new ''b/#'' Level1 simple_sub_handler2)
    (tm_add (subscription_new ''a/b'' Level1 simple_sub_handler1)
      (tm_add (subscription_new ''a/#'' Level0 simple_sub_handler1) topic_manager_new))"
  have "topic_filter_new sample_libs ''a/#'' = Some ''a/#''" "topic_filter_new sample_libs ''a/b'' = Some ''a/b''"
    "topic_filter_new sample_libs ''b/#'' = Some ''b/#''"
    by (simp_all add: sample_libs_def)
  from simple_sub_play[OF sample_libs_flags(1) this, of 0] obtain s where
    play: "proper_play sample_libs simple_sub_events (session_start sample_libs 0 simple_sub_options simple_sub_calls) = Done (Some s)"
    and s: "topic_manager (session_client s) = ?m" "reader (conn s) = Reading" "spawned (session_client s) = []"
    by blast
  have match: "map sub_handler (tm_match_topic ''a/b'' ?m) = [simple_sub_handler1, simple_sub_handler1]"
    by (simp add: topic_play_defs subscription_new_def)
  obtain s' where "session_step sample_libs hello_event s = Done (Some s')" and
    "map simple_sub_log (spawned (session_client s')) =
       map (\<lambda>h. simple_sub_log (h, message_from sample_libs \<lparr>pp_topic_name = ''a/b'', pp_qos = QLevel0,
         pp_payload = hello_world, pp_dup = False, pp_retain = False\<rparr>)) (map sub_handler (tm_match_topic ''a/b'' ?m))"
    using s by (simp add: read_frame_def handle_publish_def sample_libs_def spawn_handlers_def o_def)
  with session_next[OF proper_play_session[OF play] this(1)] show ?thesis
    by (intro exI[of _ s']) (simp only: match, simp add: simple_sub_log_def simple_sub_log1_def log_message_def hello_world_text)
qed

end
