(* ===== verification/Session_Recovery.thy ===== *)
theory Session_Recovery
  imports Session_Origin
begin

section \<open>Recovery from a lost connection\<close>

text \<open>
  What \<open>block\<close> is for (\<open>Session\<close>): however a connection was lost, the loop can open a new one and
  subscribe again to everything the client has on file, if the server plays along. The run that shows it goes through
  the atomic steps of every request.
\<close>

subsection \<open>A request without interruption\<close>

text \<open>The steps of a request that nothing interrupts are steps of the session, if there is room in the channel.\<close>

lemma request_steps_session:
  assumes "request_steps n K True req t (pc, session_client s) = Done (Returned, c)" and "session_ok s" and "codec_laws K"
    and "caller s = InRequest req t pc ret" and "writer (conn s) \<noteq> WriteEnded"
    and "late pc \<or> length (queued (conn s)) < capacity"
  shows "\<exists>k. session_run K s (replicate k Advance) ((with_client c s)\<lparr>caller := Awaiting t ret\<rparr>)"
  using assms
proof (induction n arbitrary: s pc)
  case 0
  then have "session_step K Advance s = Done (Some ((with_client c s)\<lparr>caller := Awaiting t ret\<rparr>))"
    by (simp add: advance_def advance_request_def with_client_def)
  from session_run_Cons[OF this session_run.session_refl] show ?case by (intro exI[of _ "Suc 0"]) simp
next
  case (Suc n)
  show ?case
  proof (cases "pc = Returned")
    case True
    with Suc.prems(1) have "c = session_client s" by (simp add: bind_outcome_Done_iff)
    with True Suc.prems(4) have "session_step K Advance s = Done (Some ((with_client c s)\<lparr>caller := Awaiting t ret\<rparr>))"
      by (simp add: advance_def advance_request_def with_client_def)
    from session_run_Cons[OF this session_run.session_refl] show ?thesis by (intro exI[of _ "Suc 0"]) simp
  next
    case False
    from Suc.prems(1) obtain pc1 c1 where step: "request_step K True req t (pc, session_client s) = Done (pc1, c1)"
      and rest: "request_steps n K True req t (pc1, c1) = Done (Returned, c)"
      by (auto simp: bind_outcome_Done_iff)
    define s1 where "s1 = (with_client c1 s)\<lparr>caller := InRequest req t pc1 ret\<rparr>"
    have "\<not> must_wait pc (conn s)" using Suc.prems(6) by (auto simp: must_wait_def split: request_pc.split)
    with step False Suc.prems(4,5) have run: "session_step K Advance s = Done (Some s1)"
      by (simp add: advance_def advance_request_def s1_def)
    have way: "under_way req t pc (session_client s)" using session_okD(5)[OF Suc.prems(2)] Suc.prems(4) by simp
    have "late pc1 \<or> length (queued (conn s1)) < capacity"
    proof (cases "\<exists>p tk subs. pc = Offering p tk subs")
      case True
      with step show ?thesis by (auto simp: bind_outcome_Done_iff split: option.splits)
    next
      case False
      with request_step_sound[OF way session_okD(3)[OF Suc.prems(2)] step] have "outgoing c1 = outgoing (session_client s)"
        by (auto simp: step_sound_def)
      moreover have "late pc1" if "late pc"
        using that step by (cases pc) auto
      ultimately show ?thesis using Suc.prems(6) by (auto simp: s1_def queued_def)
    qed
    moreover have "session_ok s1" by (rule session_step_ok[OF run Suc.prems(2,3)])
    ultimately obtain k where "session_run K s1 (replicate k Advance) ((with_client c s1)\<lparr>caller := Awaiting t ret\<rparr>)"
      using Suc.IH[of pc1 s1] rest Suc.prems(3,5) by (auto simp: s1_def)
    moreover have "(with_client c s1)\<lparr>caller := Awaiting t ret\<rparr> = (with_client c s)\<lparr>caller := Awaiting t ret\<rparr>"
      by (simp add: s1_def with_client_def)
    ultimately show ?thesis using session_run_Cons[OF run, of "replicate k Advance"] by (intro exI[of _ "Suc k"]) simp
  qed
qed

subsection \<open>One renewal\<close>

text \<open>A connection with nothing under way.\<close>

definition at_rest :: "'c session \<Rightarrow> bool" where
  "at_rest s \<longleftrightarrow>
     reader (conn s) = Reading \<and> writer (conn s) = Selecting \<and> queued (conn s) = [] \<and>
     is_connected (session_client s) \<and> index (packet_ids (session_client s)) = []"

lemma at_rest_taken:
  assumes "session_ok s" and "at_rest s"
  shows "taken (conn s) = length (outgoing (session_client s))"
  using session_okD(4)[OF assms(1)] assms(2) by (auto simp: channels_ok_def accounted_def at_rest_def queued_def)

text \<open>The request of a renewal, up to where its token is awaited.\<close>

lemma renewal_requested:
  assumes "session_ok s" and "codec_laws K" and "\<not> overflow_checks K" and "at_rest s"
    and "caller s = InBlock (Resubscribe ((sub_topic x, x) # subs)) cnt" and "topic_filter_new K (sub_topic x) = Some tf"
  shows "\<exists>k. session_run K s (replicate k Advance)
    ((with_client (add_subscriptions [x] (next_addr (session_client s)) (subscribe_sent tf (sub_qos x) (session_client s))) s)
       \<lparr>caller := Awaiting (next_addr (session_client s)) (ToResubscribe cnt subs)\<rparr>)"
proof -
  let ?c = "session_client s" let ?req = "ReqSubscribe (sub_topic x) (sub_qos x) (sub_handler x)"
  let ?s1 = "begin_request ?req (ToResubscribe cnt subs) s"
  have run: "session_step K Advance s = Done (Some ?s1)" using assms(5) by (simp add: advance_def)
  have "do_request K ?req True ?c =
      Done (next_addr ?c, add_subscriptions [x] (next_addr ?c) (subscribe_sent tf (sub_qos x) ?c))"
    using resubscribe_round(1)[OF session_okD(3)[OF assms(1)] _ assms(3) _ assms(6)] assms(4)
    by (auto simp: at_rest_def bind_outcome_Done_iff)
  then have "request_steps (Suc (Suc (Suc (Suc (Suc 0))))) K True ?req (next_addr ?c) (Checking, session_client ?s1) =
      Done (Returned, add_subscriptions [x] (next_addr ?c) (subscribe_sent tf (sub_qos x) ?c))"
    using runs_request_all[of K True ?req ?c] by (simp add: begin_request_def del: request_steps.simps)
  moreover have "queued (conn ?s1) = []"
    using assms(4) by (simp add: at_rest_def begin_request_def queued_def)
  ultimately obtain k where "session_run K ?s1 (replicate k Advance)
      ((with_client (add_subscriptions [x] (next_addr ?c) (subscribe_sent tf (sub_qos x) ?c)) ?s1)
         \<lparr>caller := Awaiting (next_addr ?c) (ToResubscribe cnt subs)\<rparr>)"
    using request_steps_session[of "Suc (Suc (Suc (Suc (Suc 0))))" K ?req "next_addr ?c" Checking ?s1] session_step_ok[OF run assms(1,2)] assms(2,4)
    by (auto simp: begin_request_def at_rest_def capacity_def simp del: request_steps.simps)
  with session_run_Cons[OF run, of "replicate k Advance"] show ?thesis
    by (intro exI[of _ "Suc k"]) (simp add: begin_request_def with_client_def)
qed

text \<open>Its packet is written and the server accepts it; then the caller sees its token.\<close>

lemma renewal_answered:
  assumes "session_ok s" and "at_rest s" and "topic_filter_new K (sub_topic x) = Some tf"
    and "s1 = (with_client (add_subscriptions [x] (next_addr (session_client s)) (subscribe_sent tf (sub_qos x) (session_client s))) s)
       \<lparr>caller := Awaiting (next_addr (session_client s)) (ToResubscribe cnt subs)\<rparr>"
  shows "\<exists>evs s'. session_run K s1 evs s' \<and> at_rest s' \<and> caller s' = InBlock (Resubscribe subs) cnt \<and>
    (\<forall>f. tm_subs_at (topic_manager (session_client s')) f =
       tm_subs_at (topic_manager (session_client s)) f @ (if sub_topic x = f then [x] else [])) \<and>
    map_of (subscriptions (session_client s')) = (map_of (subscriptions (session_client s)))(sub_topic x \<mapsto> x) \<and>
    options (session_client s') = options (session_client s)"
proof -
  let ?c = "session_client s" let ?t = "next_addr ?c" let ?i = "next_id ?c"
  let ?c1 = "add_subscriptions [x] ?t (subscribe_sent tf (sub_qos x) ?c)"
  let ?pt = "packet_and_token_new_with (SubscribePacket ?i [(tf, sub_qos x)]) (Subscribe ?t)"
  let ?c2 = "?c1\<lparr>last_sent_packet_at := 0\<rparr>"
  let ?c3 = "handle_suback ?i [MaximumQoS (sub_qos x)] ?c2"
  have rest: "reader (conn s) = Reading" "writer (conn s) = Selecting" "queued (conn s) = []" "is_connected ?c"
    "index (packet_ids ?c) = []"
    using assms(2) by (simp_all add: at_rest_def)
  have out: "outgoing ?c1 = outgoing ?c @ [?pt]" by (simp add: add_subscriptions_def subscribe_sent_def)
  note taken = at_rest_taken[OF assms(1,2)]
  let ?l1 = "(conn s)\<lparr>link_client := ?c1\<rparr>"
  let ?l2 = "?l1\<lparr>writer := WritingOut ?pt, taken := Suc (taken (conn s))\<rparr>"
  let ?l3 = "?l2\<lparr>link_client := ?c2, writer := Selecting, written := written (conn s) @ [Inr ?pt]\<rparr>"
  let ?l4 = "?l3\<lparr>link_client := ?c3\<rparr>"
  have conn1: "conn s1 = ?l1" "caller s1 = Awaiting ?t (ToResubscribe cnt subs)" by (simp_all add: assms(4))
  have queue: "queued ?l1 = [?pt]" by (simp add: queued_def taken out)
  have e1: "session_step K (Task TakeOutgoing) s1 = Done (Some (s1\<lparr>conn := ?l2\<rparr>))"
    using queue rest(2) by (simp add: conn1 take_outgoing_def)
  have e2: "session_step K (Task (WriteReturns (WriteOk 0))) (s1\<lparr>conn := ?l2\<rparr>) = Done (Some (s1\<lparr>conn := ?l3\<rparr>))"
    by (simp add: write_returns_def complete_written_def packet_and_token_new_with_def)
  have e3: "session_step K (Task (ReadFrame (Frame (SubackPacket ?i [MaximumQoS (sub_qos x)])))) (s1\<lparr>conn := ?l3\<rparr>) =
      Done (Some (s1\<lparr>conn := ?l4\<rparr>))"
    using rest(1) by (simp add: read_frame_def)
  have view: "get_token ?i (packet_ids ?c2) = Some (Subscribe ?t)"
    "data_at ?c2 ?t = Some (SubscribeData [x] [])" "tok_live ?c2 ?t"
    by (simp_all add: add_subscriptions_def subscribe_sent_view tok_simps)
  note known = handle_suback_known[OF view, of "[MaximumQoS (sub_qos x)]"]
  have err: "tok_err ?c2 ?t = None" by (simp add: add_subscriptions_def subscribe_sent_view tok_simps)
  let ?s5 = "(with_client ?c3 (s1\<lparr>conn := ?l4\<rparr>))\<lparr>caller := InBlock (Resubscribe subs) cnt\<rparr>"
  have poll: "tok_poll ?t 0 ?c3 = (Ready None, ?c3)"
    using tok_poll_done[OF known(4), of 0] known(5) err by simp
  have e4: "session_step K (PollToken 0) (s1\<lparr>conn := ?l4\<rparr>) = Done (Some ?s5)"
    by (simp add: poll_awaited_def conn1(2) poll)
  have run: "session_run K s1 [Task TakeOutgoing, Task (WriteReturns (WriteOk 0)),
      Task (ReadFrame (Frame (SubackPacket ?i [MaximumQoS (sub_qos x)]))), PollToken 0] ?s5"
    by (rule session_run_Cons[OF e1 session_run_Cons[OF e2 session_run_Cons[OF e3 session_run_Cons[OF e4 session_run.session_refl]]]])
  have "connect_status ?c3 = connect_status ?c2" "options ?c3 = options ?c2"
    using handlers_fields(3)[of ?i "[MaximumQoS (sub_qos x)]" ?c2] by (simp_all only: client_fields_def prod.inject)
  then have fields: "connect_status ?c3 = connect_status ?c" "options ?c3 = options ?c"
    by (simp_all add: add_subscriptions_def subscribe_sent_def subscribe_start_def)
  have tops: "topic_manager ?c3 = tm_add x (topic_manager ?c)"
    "subscriptions ?c3 = btree_insert (sub_topic x) x (subscriptions ?c)"
    using known(1,2) by (simp_all add: add_subscriptions_def subscribe_sent_view)
  have "index (packet_ids ?c3) = []"
    using view(1) rest(5)
    by (simp add: handle_suback_def free_id_def add_subscriptions_def subscribe_sent_def bind_id_def)
  moreover have "outgoing ?c3 = outgoing ?c @ [?pt]" using out by (simp add: handle_suback_outgoing)
  ultimately have "at_rest ?s5"
    using rest fields taken by (simp add: at_rest_def conn1 queued_def is_connected_def)
  with run tops fields show ?thesis
    by (intro exI[of _ "[Task TakeOutgoing, Task (WriteReturns (WriteOk 0)),
        Task (ReadFrame (Frame (SubackPacket ?i [MaximumQoS (sub_qos x)]))), PollToken 0]"] exI[of _ ?s5])
      (simp add: map_of_btree_insert)
qed

lemma renewals:
  assumes "session_ok s" and "codec_laws K" and "\<not> overflow_checks K" and "at_rest s"
    and "caller s = InBlock (Resubscribe subs) cnt"
    and "\<forall>(f, x) \<in> set subs. sub_topic x = f \<and> topic_filter_new K f \<noteq> None \<and> map_of (subscriptions (session_client s)) f = Some x"
  shows "\<exists>evs s'. session_run K s evs s' \<and> at_rest s' \<and> caller s' = InBlock (Resubscribe []) cnt \<and>
    (\<forall>f. tm_subs_at (topic_manager (session_client s')) f =
       tm_subs_at (topic_manager (session_client s)) f @ filter (\<lambda>x. sub_topic x = f) (map snd subs)) \<and>
    map_of (subscriptions (session_client s')) = map_of (subscriptions (session_client s)) \<and>
    options (session_client s') = options (session_client s)"
  using assms
proof (induction subs arbitrary: s)
  case Nil
  then show ?case by (intro exI[of _ "[]"] exI[of _ s]) (simp add: session_run.session_refl)
next
  case (Cons y subs)
  obtain f x where y: "y = (f, x)" by (cases y)
  with Cons.prems(6) obtain tf where x: "sub_topic x = f" "topic_filter_new K (sub_topic x) = Some tf"
    "map_of (subscriptions (session_client s)) f = Some x"
    by auto
  define s1 where "s1 = (with_client (add_subscriptions [x] (next_addr (session_client s)) (subscribe_sent tf (sub_qos x) (session_client s))) s)
      \<lparr>caller := Awaiting (next_addr (session_client s)) (ToResubscribe cnt subs)\<rparr>"
  have "caller s = InBlock (Resubscribe ((sub_topic x, x) # subs)) cnt" using Cons.prems(5) y x(1) by simp
  from renewal_requested[OF Cons.prems(1-4) this x(2)] obtain k where
    asked: "session_run K s (replicate k Advance) s1" unfolding s1_def by blast
  from renewal_answered[OF Cons.prems(1,4) x(2) s1_def] obtain evs1 s2 where
    answered: "session_run K s1 evs1 s2" and s2: "at_rest s2" "caller s2 = InBlock (Resubscribe subs) cnt"
    "\<And>f. tm_subs_at (topic_manager (session_client s2)) f =
       tm_subs_at (topic_manager (session_client s)) f @ (if sub_topic x = f then [x] else [])"
    "map_of (subscriptions (session_client s2)) = (map_of (subscriptions (session_client s)))(sub_topic x \<mapsto> x)"
    "options (session_client s2) = options (session_client s)"
    by blast
  note run2 = session_run_append[OF answered asked]
  have subs2: "map_of (subscriptions (session_client s2)) = map_of (subscriptions (session_client s))"
    using s2(4) x(1,3) by (auto simp: fun_eq_iff)
  have "\<forall>(f, x) \<in> set subs. sub_topic x = f \<and> topic_filter_new K f \<noteq> None \<and> map_of (subscriptions (session_client s2)) f = Some x"
    using Cons.prems(6) subs2 by simp
  from Cons.IH[OF session_run_ok[OF run2 Cons.prems(1,2)] Cons.prems(2,3) s2(1,2) this] obtain evs s' where
    "session_run K s2 evs s'" and s': "at_rest s'" "caller s' = InBlock (Resubscribe []) cnt"
    "\<And>f. tm_subs_at (topic_manager (session_client s')) f =
       tm_subs_at (topic_manager (session_client s2)) f @ filter (\<lambda>x. sub_topic x = f) (map snd subs)"
    "map_of (subscriptions (session_client s')) = map_of (subscriptions (session_client s2))"
    "options (session_client s') = options (session_client s2)"
    by blast
  note run = session_run_append[OF this(1) run2]
  have "tm_subs_at (topic_manager (session_client s')) f =
      tm_subs_at (topic_manager (session_client s)) f @ filter (\<lambda>x. sub_topic x = f) (map snd (y # subs))" for f
    using s'(3)[of f] s2(3)[of f] by (simp add: y)
  with run s' s2(5) subs2 show ?case by (intro exI[of _ "(replicate k Advance @ evs1) @ evs"] exI[of _ s']) simp
qed

subsection \<open>The reconnection\<close>

abbreviation reconnect_events :: "session_event list" where
  "reconnect_events \<equiv> [SleepElapsed, Notified (NetOpen True) (FirstPacket (ConnackPacket ConnectionAccepted False)) 0 1, Advance, PollToken 0]"

lemma block_connected_None: "block_connected None t n c = block_connected None t m c"
  by (simp add: block_connected_def)

lemma reconnection:
  assumes "session_ok s" and "codec_laws K" and "\<not> overflow_checks K" and "caller s = InBlock AtSelect cnt"
    and "connect_status (session_client s) = Disconnected" and "\<not> manual_disconnect (session_client s)"
    and "auto_reconnect (options (session_client s))"
    and "\<And>m. max_connect_retry_times (options (session_client s)) = Some m \<Longrightarrow> cnt < m"
    and "build_connect_packet K (options (session_client s)) = Done calls"
  shows "\<exists>s'. session_run K s reconnect_events s' \<and> at_rest s' \<and>
    caller s' = InBlock (Resubscribe (subscriptions (session_client s))) 0 \<and>
    (\<forall>f. tm_subs_at (topic_manager (session_client s')) f = []) \<and>
    subscriptions (session_client s') = subscriptions (session_client s) \<and>
    options (session_client s') = options (session_client s)"
proof -
  let ?c = "session_client s" let ?first = "FirstPacket (ConnackPacket ConnectionAccepted False)"
  let ?t = "next_addr ?c"
  let ?a = "adopt_state 0 1 (awaiting_connack (connect_written True calls) (?c\<lparr>notify_permit := False\<rparr>))"
  let ?c1 = "finish_connect False ?t ?a"
  have "block_head cnt (?c\<lparr>notify_permit := True\<rparr>) = (AtSelect, cnt, ?c\<lparr>notify_permit := True\<rparr>)"
    using assms(8) by (auto simp: block_head_def split: option.split)
  with assms(5-7) have sleep: "block_sleep cnt ?c = (AtSelect, cnt, ?c\<lparr>notify_permit := True\<rparr>)"
    by (simp add: block_sleep_def)
  define s1 where "s1 = (with_client (?c\<lparr>notify_permit := True\<rparr>) s)\<lparr>caller := InBlock AtSelect cnt\<rparr>"
  have e1: "session_step K SleepElapsed s = Done (Some s1)"
    using assms(4) by (simp add: sleep_elapsed_def sleep s1_def)
  define s2 where "s2 = s1\<lparr>conn := link_open False ?t ?a, caller := Finishing ?t (ToBlock (cnt + 1)), epoch := Suc ?t\<rparr>"
  have e2: "session_step K (Notified (NetOpen True) ?first 0 1) s1 = Done (Some s2)"
    using assms(3,5,9)
    by (simp add: notified_def s1_def begin_connect_def Let_def s2_def with_client_def)
  define s3 where "s3 = s2\<lparr>conn := (link_open False ?t ?a)\<lparr>link_client := ?c1, finishing := None\<rparr>,
      caller := Awaiting ?t (ToBlock (cnt + 1))\<rparr>"
  have e3: "session_step K Advance s2 = Done (Some s3)"
    by (simp add: advance_def s2_def finish_link_def link_open_def s3_def)
  have run3: "session_run K s [SleepElapsed, Notified (NetOpen True) ?first 0 1, Advance] s3"
    by (rule session_run_Cons[OF e1 session_run_Cons[OF e2 session_run_Cons[OF e3 session_run.session_refl]]])
  have inv: "client_inv ?c1" using session_okD(3)[OF session_run_ok[OF run3 assms(1,2)]] by (simp add: s3_def)
  define c1 where "c1 = ?c1"
  note inv = inv[folded c1_def]
  have s3_state: "caller s3 = Awaiting ?t (ToBlock (cnt + 1))" "link_client (conn s3) = c1" by (simp_all add: s3_def c1_def)
  have "connect K (NetOpen True) ?first 0 1 (?c\<lparr>notify_permit := False\<rparr>) = Done (?t, c1)"
    using connect_reached[of "?c\<lparr>notify_permit := False\<rparr>" K calls True ?first 0 1] assms(5,9) by (simp add: connect_reply_def c1_def)
  then have "block_notified K (NetOpen True) ?first 0 1 0 ?c = Done (AwaitConnect ?t, 1, c1)"
    by (simp add: block_notified_def)
  with reconnected[OF assms(5,9), of 0 True 0 1 0] obtain c2 where
    step: "block_step K (Block_Loop.PollToken 0) (AwaitConnect ?t, 1, c1) = Done (Some (Resubscribe (subscriptions ?c), 0, c2))"
    and c2: "is_connected c2" "subscriptions c2 = subscriptions ?c" "index (packet_ids c2) = []"
      "\<forall>f. tm_subs_at (topic_manager c2) f = []"
    by auto
  obtain r c1' where poll: "tok_poll ?t 0 c1 = (r, c1')" by (cases "tok_poll ?t 0 c1")
  obtain err where r: "r = Ready err" and after: "block_connected err ?t 1 c1' = (Resubscribe (subscriptions ?c), 0, c2)"
    using step by (cases r) (simp_all add: poll)
  have "err = None"
    using after block_head_client(2)[of 1 c1'] by (cases err) (auto simp: block_connected_def)
  with after have resumed: "block_connected None ?t (cnt + 1) c1' = (Resubscribe (subscriptions ?c), 0, c2)"
    using block_connected_None by metis
  have c1': "c1' = snd (tok_poll ?t 0 c1)" by (simp add: poll)
  have moves: "caller_moves c1' c2"
    using block_connected_moves[of c1' None ?t "cnt + 1"] caller_moves_inv[OF caller_moves_poll[OF inv]] resumed c1' by simp
  have c2': "outgoing c2 = []" "options c2 = options ?c"
    using moves by (simp_all add: caller_moves_def client_moves_def c1')
      (simp_all add: c1_def finish_connect_def Let_def adopt_state_def awaiting_connack_def set_connect_status_def)
  let ?s = "(with_client c2 s3)\<lparr>caller := InBlock (Resubscribe (subscriptions ?c)) 0\<rparr>"
  have e4: "session_step K (PollToken 0) s3 = Done (Some ?s)"
    using \<open>err = None\<close> poll r resumed by (simp add: poll_awaited_def s3_state)
  have "at_rest ?s" using c2 c2' by (simp add: at_rest_def s3_def link_open_def queued_def)
  moreover have "session_run K s reconnect_events ?s"
    using session_run_append[OF session_run_Cons[OF e4 session_run.session_refl] run3] by simp
  ultimately show ?thesis using c2 c2' by (intro exI[of _ ?s]) simp
qed

lemma filed_once:
  "distinct_keys m \<Longrightarrow> \<forall>(f, x) \<in> set m. sub_topic x = f \<Longrightarrow>
     filter (\<lambda>x. sub_topic x = f) (map snd m) = (case map_of m f of None \<Rightarrow> [] | Some x \<Rightarrow> [x])"
proof (induction m)
  case (Cons y m)
  obtain g x where y: "y = (g, x)" by (cases y)
  with Cons.prems have "sub_topic x = g" "f \<in> fst ` set m \<Longrightarrow> g \<noteq> f" by (auto simp: distinct_keys_def)
  moreover have "map_of m f = None" if "g = f"
    using Cons.prems(1) that by (auto simp: y distinct_keys_def map_of_eq_None_iff)
  ultimately show ?case
    using Cons by (auto simp: y distinct_keys_def)
qed simp

text \<open>
  C9. \<open>block\<close> recovers: in every state a program can reach in which the loop waits after its connection was lost, with
  automatic reconnection on and the retry limit not reached, there is a course of events, with a server that accepts the
  connection, has lost the session and grants what it is asked for, in which the client is connected again and back in
  the loop, with the same subscriptions on file, each of them, and nothing else, filed for delivery exactly once, no
  identifier in use and the retry counter reset. This is for a release build with a valid will, and the subscriptions'
  filters must be valid, as they were when the server granted them.
\<close>

theorem block_recovers:
  assumes "codec_laws K" and "\<not> overflow_checks K" and "session_run K (session_start K now opts calls) evs0 s"
    and "caller s = InBlock AtSelect cnt" and "connect_status (session_client s) = Disconnected"
    and "\<not> manual_disconnect (session_client s)" and "auto_reconnect opts"
    and "\<forall>m. max_connect_retry_times opts = Some m \<longrightarrow> cnt < m" and "build_connect_packet K opts \<noteq> Panic"
    and "\<forall>(f, x) \<in> set (subscriptions (session_client s)). topic_filter_new K f \<noteq> None"
  shows "\<exists>evs s'. session_run K s evs s' \<and> caller s' = InBlock AtSelect 0 \<and> is_connected (session_client s') \<and>
    index (packet_ids (session_client s')) = [] \<and>
    map_of (subscriptions (session_client s')) = map_of (subscriptions (session_client s)) \<and>
    (\<forall>f. tm_subs_at (topic_manager (session_client s')) f =
       (case map_of (subscriptions (session_client s)) f of None \<Rightarrow> [] | Some x \<Rightarrow> [x]))"
proof -
  let ?c = "session_client s"
  have ok: "session_ok s" by (rule session_run_ok[OF assms(3) session_start_ok assms(1)])
  have opts: "options ?c = opts" using session_run_options[OF assms(3) session_start_ok assms(1)] by simp
  obtain ps where "build_connect_packet K opts = Done ps" using assms(9) by (cases "build_connect_packet K opts") auto
  with reconnection[OF ok assms(1,2,4-6)] opts assms(7,8) obtain s1 where
    run1: "session_run K s reconnect_events s1" and s1: "at_rest s1" "caller s1 = InBlock (Resubscribe (subscriptions ?c)) 0"
    "\<And>f. tm_subs_at (topic_manager (session_client s1)) f = []"
    "subscriptions (session_client s1) = subscriptions ?c" "options (session_client s1) = opts"
    by auto
  have filed: "distinct_keys (subscriptions ?c)" "\<forall>(f, x) \<in> set (subscriptions ?c). sub_topic x = f"
    using session_okD(3)[OF ok] by (auto simp: client_inv_def state_inv_def subs_filed_def dest: btree_ok_distinct)
  have "\<forall>(f, x) \<in> set (subscriptions ?c). sub_topic x = f \<and> topic_filter_new K f \<noteq> None \<and>
      map_of (subscriptions (session_client s1)) f = Some x"
    using filed assms(10) s1(4) by (auto simp: distinct_keys_map_of)
  from renewals[OF session_run_ok[OF run1 ok assms(1)] assms(1,2) s1(1,2) this] obtain evs s2 where
    run2: "session_run K s1 evs s2" and s2: "at_rest s2" "caller s2 = InBlock (Resubscribe []) 0"
    "\<And>f. tm_subs_at (topic_manager (session_client s2)) f = filter (\<lambda>x. sub_topic x = f) (map snd (subscriptions ?c))"
    "map_of (subscriptions (session_client s2)) = map_of (subscriptions ?c)" "options (session_client s2) = opts"
    using s1(3-5) by auto
  let ?s = "s2\<lparr>caller := InBlock AtSelect 0\<rparr>"
  have "block_head 0 (session_client s2) = (AtSelect, 0, session_client s2)"
    using assms(8) s2(5) by (auto simp: block_head_def split: option.split)
  then have "session_step K Advance s2 = Done (Some ?s)"
    by (simp add: advance_def s2(2) with_client_def)
  from session_run_append[OF session_run_Cons[OF this session_run.session_refl] session_run_append[OF run2 run1]]
  have "session_run K s ((reconnect_events @ evs) @ [Advance]) ?s" .
  moreover have "tm_subs_at (topic_manager (session_client ?s)) f =
      (case map_of (subscriptions ?c) f of None \<Rightarrow> [] | Some x \<Rightarrow> [x])" for f
    using s2(3)[of f] filed_once[OF filed, of f] by simp
  ultimately show ?thesis
    using s2(1,4) by (intro exI[of _ "(reconnect_events @ evs) @ [Advance]"] exI[of _ ?s]) (simp add: at_rest_def)
qed

subsection \<open>Witness\<close>

text \<open>A subscriber in \<open>block\<close> whose connection has just ended.\<close>

definition sample_blocked :: "(u16 \<Rightarrow> publish_packet option) session" where
  "sample_blocked = session_start sample_libs 0 (set_auto_reconnect True options_new)
     [CallConnect PanicOn, CallRequest (ReqSubscribe ''a/b'' Level1 5) PrintOn, CallBlock]"

abbreviation blocked_events :: "session_event list" where
  "blocked_events \<equiv> [accepting 1, Advance, PollToken 0, accepting 1,
     Advance, Advance, Advance, Advance, Advance, Advance, Task (ReadFrame (Frame (SubackPacket 2 [MaximumQoS Level1]))),
     PollToken 0, accepting 1, Task (ReadFrame FrameEnd), Task TakeOutgoing, Task (WriteReturns (WriteOk 5)),
     Task TakeMessage, Task Supervise]"

lemma sample_blocked_play:
  "\<exists>s. session_play sample_libs blocked_events sample_blocked = Done (Some s) \<and> caller s = InBlock AtSelect 0 \<and>
     connect_status (session_client s) = Disconnected \<and> \<not> manual_disconnect (session_client s) \<and>
     subscriptions (session_client s) = [(''a/b'', subscription_new ''a/b'' Level1 5)]"
  by (simp add: sample_blocked_def subscribe_play_defs option_setters options_new_def options_default_def Let_def sample_libs_def
      supervise_def connection_over_def clean_up_def block_start_def block_head_def)

lemma block_recovers_witness:
  "\<exists>s evs s'. session_run sample_libs sample_blocked blocked_events s \<and> \<not> is_connected (session_client s) \<and>
     session_run sample_libs s evs s' \<and> is_connected (session_client s') \<and>
     tm_subs_at (topic_manager (session_client s')) ''a/b'' = [subscription_new ''a/b'' Level1 5]"
proof -
  obtain s where "session_play sample_libs blocked_events sample_blocked = Done (Some s)"
    and s: "caller s = InBlock AtSelect 0" "connect_status (session_client s) = Disconnected"
      "\<not> manual_disconnect (session_client s)" "subscriptions (session_client s) = [(''a/b'', subscription_new ''a/b'' Level1 5)]"
    using sample_blocked_play by blast
  from session_playI[OF this(1)] have run: "session_run sample_libs sample_blocked blocked_events s" .
  have opts: "auto_reconnect (set_auto_reconnect True options_new)"
    "max_connect_retry_times (set_auto_reconnect True options_new) = None"
    "build_connect_packet sample_libs (set_auto_reconnect True options_new) \<noteq> Panic"
    by (simp_all add: option_setters options_new_def options_default_def build_connect_packet_def Let_def)
  have "\<forall>(f, x) \<in> set (subscriptions (session_client s)). topic_filter_new sample_libs f \<noteq> None"
    by (simp add: s(4) sample_libs_def)
  with block_recovers[OF sample_libs_codec sample_libs_flags(1) run[unfolded sample_blocked_def] s(1-3) opts(1) _ opts(3)] opts(2)
  obtain evs s' where "session_run sample_libs s evs s'" "is_connected (session_client s')"
    and filed: "\<forall>f. tm_subs_at (topic_manager (session_client s')) f =
       (case map_of (subscriptions (session_client s)) f of None \<Rightarrow> [] | Some x \<Rightarrow> [x])"
    by auto
  moreover have "tm_subs_at (topic_manager (session_client s')) ''a/b'' = [subscription_new ''a/b'' Level1 5]"
    using filed by (simp add: s(4))
  moreover have "\<not> is_connected (session_client s)" using s(2) by (simp add: is_connected_def)
  ultimately show ?thesis using run by blast
qed

end
