(* ===== verification/Keep_Alive.thy ===== *)
theory Keep_Alive
  imports Session_Safety
begin

section \<open>Keeping the connection alive in time\<close>

text \<open>
  The keep-alive task of a connection (\<open>Net\<close>, \<open>Connection\<close>) against the clock: how long the client can be silent
  and how often it pings. Time passes only in a step of its own; every other step happens at an instant, which is
  what the steps that read the clock read.
\<close>

subsection \<open>A connection with a clock\<close>

text \<open>
  \<open>wake\<close> is the instant at which the keep-alive task's last \<open>sleep\<close> or \<open>sleep_until\<close> ends, \<open>owing\<close> the one since which
  the write task has had something to write without finishing a write.
\<close>

record 'c timed =
  timed_link :: "'c link"
  clock :: instant
  wake :: instant
  owing :: instant

definition timed_open :: "bool \<Rightarrow> addr \<Rightarrow> 'c mqtt_client \<Rightarrow> 'c timed" where
  "timed_open session_present token c =
     (let now = last_sent_packet_at c
      in \<lparr>timed_link = link_open session_present token c, clock = now, wake = now, owing = now\<rparr>)"

definition owes :: "'c link \<Rightarrow> bool" where
  "owes l \<longleftrightarrow> writer l \<noteq> WriteEnded \<and> (writer l \<noteq> Selecting \<or> messages l \<noteq> [] \<or> queued l \<noteq> [])"

datatype timed_event = Elapse duration | Act link_event

text \<open>
  The runtime resumes the keep-alive task within \<open>lag\<close> of the end of its sleep, unless it waits for room in the
  channel, and the socket takes what there is to write within \<open>delay\<close>: time passes no further than that.
\<close>

definition may_elapse :: "duration \<Rightarrow> duration \<Rightarrow> duration \<Rightarrow> 'c timed \<Rightarrow> bool" where
  "may_elapse lag delay d T \<longleftrightarrow>
     (let l = timed_link T
      in (pinging l \<and> length (queued l) < capacity \<longrightarrow> clock T + d \<le> wake T + lag) \<and>
         (owes l \<longrightarrow> clock T + d \<le> owing T + delay))"

fun on_time :: "'c timed \<Rightarrow> link_event \<Rightarrow> bool" where
  "on_time T (PingTick now now2) \<longleftrightarrow> now = clock T \<and> now2 = clock T \<and> wake T \<le> clock T"
| "on_time T (WriteReturns (WriteOk now)) \<longleftrightarrow> now = clock T"
| "on_time T ev \<longleftrightarrow> True"

fun is_write :: "link_event \<Rightarrow> bool" where
  "is_write (WriteReturns r) = True"
| "is_write ev = False"

text \<open>What the keep-alive task does next, at an iteration of its loop.\<close>

definition ping_action :: "'c timed \<Rightarrow> keep_alive_action option" where
  "ping_action T =
     (let l = timed_link T; c = link_client l
      in case keep_alive_step (get_keep_alive (options c)) (exit_flag l) (clock T) (clock T) (writer l \<noteq> WriteEnded) c of
           Done (act, _) \<Rightarrow> Some act
         | Panic \<Rightarrow> None)"

fun next_wake :: "link_event \<Rightarrow> 'c timed \<Rightarrow> instant" where
  "next_wake (PingTick now now2) T =
     (case ping_action T of
        Some (SleepUntil w) \<Rightarrow> w
      | Some (PingThenSleep d) \<Rightarrow> clock T + d
      | _ \<Rightarrow> wake T)"
| "next_wake ev T = wake T"

fun timed_step ::
  "'c libs \<Rightarrow> duration \<Rightarrow> duration \<Rightarrow> timed_event \<Rightarrow> 'c timed \<Rightarrow> 'c timed option outcome" where
  "timed_step K lag delay (Elapse d) T =
     Done (if may_elapse lag delay d T then Some (T\<lparr>clock := clock T + d\<rparr>) else None)"
| "timed_step K lag delay (Act ev) T =
     (if on_time T ev
      then bind_outcome (link_step K ev (timed_link T))
             (\<lambda>r. Done (map_option (\<lambda>l. T\<lparr>timed_link := l, wake := next_wake ev T,
                 owing := if owes (timed_link T) \<and> \<not> is_write ev then owing T else clock T\<rparr>) r))
      else Done None)"

inductive timed_run ::
  "'c libs \<Rightarrow> duration \<Rightarrow> duration \<Rightarrow> 'c timed \<Rightarrow> timed_event list \<Rightarrow> 'c timed \<Rightarrow> bool" for K lag delay where
  timed_refl: "timed_run K lag delay T [] T"
| timed_next: "timed_run K lag delay T evs T1 \<Longrightarrow> timed_step K lag delay ev T1 = Done (Some T2) \<Longrightarrow>
    timed_run K lag delay T (evs @ [ev]) T2"

lemma timed_run_append:
  "timed_run K lag delay T1 evs' T2 \<Longrightarrow> timed_run K lag delay T evs T1 \<Longrightarrow> timed_run K lag delay T (evs @ evs') T2"
  by (induction rule: timed_run.induct) (auto simp flip: append_assoc intro: timed_next)

lemma timed_actE:
  assumes "timed_step K lag delay (Act ev) T = Done (Some T')"
  obtains l where "on_time T ev" "link_step K ev (timed_link T) = Done (Some l)"
    "T' = T\<lparr>timed_link := l, wake := next_wake ev T,
       owing := if owes (timed_link T) \<and> \<not> is_write ev then owing T else clock T\<rparr>"
  using assms by (auto simp: bind_outcome_Done_iff simp del: link_step.simps split: if_splits)

subsection \<open>What a step does to the clock's readings and the pings\<close>

abbreviation sent_at :: "'c link \<Rightarrow> instant" where
  "sent_at l \<equiv> last_sent_packet_at (link_client l)"

definition pings :: "'c link \<Rightarrow> nat" where
  "pings l = length (filter (\<lambda>pt. pt = packet_and_token_new PingreqPacket) (outgoing (link_client l)))"

lemma handlers_sent_at [simp]:
  "last_sent_packet_at (suback_loop n codes a s) = last_sent_packet_at s"
  "last_sent_packet_at (handle_puback i s) = last_sent_packet_at s"
  "last_sent_packet_at (handle_pubcomp i s) = last_sent_packet_at s"
  "last_sent_packet_at (handle_unsuback i s) = last_sent_packet_at s"
  "last_sent_packet_at (snd (handle_pubrel K i s)) = last_sent_packet_at s"
proof -
  have "last_sent_packet_at (suback_body n code a s) = last_sent_packet_at s" for n code a and s :: "('a, 'b) state_scheme"
    by (simp add: suback_body_def Let_def set_result_def split: option.split)
  then show "last_sent_packet_at (suback_loop n codes a s) = last_sent_packet_at s"
    by (induction n codes a s rule: suback_loop.induct) simp_all
qed (simp_all add: handle_puback_def handle_pubcomp_def handle_unsuback_def handle_pubrel_def split_beta Let_def
    split: option.split token.split)

lemma dispatch_sent_at:
  "dispatch_packet K p s = Done (d, s') \<Longrightarrow> last_sent_packet_at s' = last_sent_packet_at s"
  by (cases p)
    (auto simp: handle_suback_def handle_publish_def split_beta Let_def bind_outcome_Done_iff
      split: option.splits token.splits quality_of_service.splits)

lemma write_step_sent_at:
  "write_step (MsgRecv (Some p) r) s = (going, out, s') \<Longrightarrow>
     last_sent_packet_at s' = (case r of WriteOk now \<Rightarrow> now | WriteErr e \<Rightarrow> last_sent_packet_at s)"
  "write_step (OutRecv (Some pt) r) s = (going, out, s') \<Longrightarrow>
     last_sent_packet_at s' = (case r of WriteOk now \<Rightarrow> now | WriteErr e \<Rightarrow> last_sent_packet_at s)"
  by (auto simp: complete_written_def split: io_result.splits option.splits token.splits)

lemma connection_over_sent_at [simp]: "last_sent_packet_at (connection_over c) = last_sent_packet_at c"
proof -
  have "last_sent_packet_at (fold (token_set_error e) ts d) = last_sent_packet_at d" for e ts and d :: "'a mqtt_client"
    by (induction ts arbitrary: d) simp_all
  then show ?thesis by (simp add: connection_over_def clean_up_def set_connect_status_def Let_def)
qed

lemma finish_connect_sent_at [simp]: "last_sent_packet_at (finish_connect sp t c) = last_sent_packet_at c"
  by (simp add: finish_connect_def Let_def connect_set_session_present_def)

lemma link_step_sent_at:
  assumes "link_step K ev l = Done (Some l')" and "client_inv (link_client l)"
  shows "sent_at l' = (case ev of WriteReturns (WriteOk now) \<Rightarrow> now | _ \<Rightarrow> sent_at l)"
proof (cases ev)
  case (ReadFrame f)
  with assms(1) show ?thesis by (auto split: if_splits frame.split outcome.split dest: dispatch_sent_at)
next
  case (WriteReturns r)
  with assms(1) show ?thesis
    by (auto simp: write_returns_def split: writer_status.splits prod.splits io_result.split dest: write_step_sent_at)
next
  case (PingTick now now2)
  with assms(1) have "ping_tick now now2 l = Some l'" by simp
  then show ?thesis by (cases rule: ping_tickE) (auto simp: PingTick dest!: keep_alive_step_effect)
next
  case (Request req)
  with assms(1) have "link_request K req l = Done (Some l')" by simp
  then show ?thesis
    by (cases rule: link_requestE) (use req.post[OF assms(2)] in \<open>auto simp: Request request_post_def untouched_def\<close>)
next
  case Finish
  with assms(1) show ?thesis by (auto simp: finish_link_def split: option.splits)
next
  case Supervise
  with assms(1) show ?thesis by (auto simp: supervise_def split: if_splits)
qed (use assms(1) in \<open>auto dest: take_client\<close>)

lemma pings_send: "pings (l\<lparr>link_client := send_outgoing ok pt c\<rparr>) =
    pings (l\<lparr>link_client := c\<rparr>) + (if ok \<and> pt = packet_and_token_new PingreqPacket then 1 else 0)"
  by (simp add: pings_def send_outgoing_def)

lemma pings_same: "outgoing (link_client l') = outgoing (link_client l) \<Longrightarrow> pings l' = pings l"
  by (simp add: pings_def)

text \<open>Only the keep-alive task's own steps hand over a PINGREQ, and only where it goes to sleep for the whole time.\<close>

lemma ping_tick_pings:
  assumes "ping_tick now now2 l = Some l'"
  shows "pings l' \<le> pings l + (case keep_alive_step (opt_keep_alive (options (link_client l))) (exit_flag l) now now2
     (writer l \<noteq> WriteEnded) (link_client l) of Done (PingThenSleep d, c) \<Rightarrow> 1 | _ \<Rightarrow> 0)"
  using assms
proof (cases rule: ping_tickE)
  case gone
  then show ?thesis by (simp add: pings_def)
next
  case (ticked act c)
  then show ?thesis
    by (auto simp: pings_def send_outgoing_def keep_alive_step_def Let_def bind_outcome_Done_iff split: if_splits)
qed

lemma link_step_pings:
  assumes "link_step K ev l = Done (Some l')" and "client_inv (link_client l)" and "\<forall>now now2. ev \<noteq> PingTick now now2"
  shows "pings l' = pings l"
proof (cases ev)
  case (Request req)
  with assms(1) have "link_request K req l = Done (Some l')" by simp
  then show ?thesis
    by (cases rule: link_requestE)
      (auto simp: Request request_post_def settled_request_def sent_request_def pings_def
        packet_and_token_new_def packet_and_token_new_with_def dest!: req.post[OF assms(2)])
next
  case (ReadFrame f)
  with assms(1) show ?thesis
    by (intro pings_same) (auto split: if_splits frame.split outcome.split dest: dispatch_outgoing)
next
  case (WriteReturns r)
  with assms(1) write_returns_client[of r l l'] show ?thesis by (intro pings_same) auto
next
  case Supervise
  with assms(1) show ?thesis
    by (intro pings_same) (auto simp: supervise_def connection_over_view split: if_splits)
next
  case Finish
  with assms(1) show ?thesis by (intro pings_same) (auto simp: finish_link_def split: option.splits)
qed (use assms(1,3) in \<open>auto simp: pings_def dest: take_client\<close>)

text \<open>Only a write settles what the write task owes.\<close>

lemma link_step_writer:
  assumes "link_step K ev l = Done (Some l')" and "link_ok l"
  shows "(writer l = WriteEnded \<longrightarrow> writer l' = WriteEnded) \<and>
    (owes l \<and> \<not> is_write ev \<longrightarrow> owes l' \<or> writer l' = WriteEnded) \<and>
    (\<forall>e. ev = WriteReturns (WriteErr e) \<longrightarrow> writer l' = WriteEnded)"
proof (cases ev)
  case (PingTick now now2)
  with assms(1) have "ping_tick now now2 l = Some l'" by simp
  then show ?thesis
    by (cases rule: ping_tickE) (auto simp: PingTick owes_def queued_def send_outgoing_def dest!: keep_alive_step_effect)
next
  case (Request req)
  with assms(1) have "link_request K req l = Done (Some l')" by simp
  then show ?thesis
  proof (cases rule: link_requestE)
    case (1 t c)
    have "client_inv (link_client l)" using assms(2) by (simp add: link_ok_def)
    from req.post[OF this 1(2)] obtain pts where "outgoing c = outgoing (link_client l) @ pts"
      by (auto simp: request_post_def settled_request_def sent_request_def)
    with 1(3) show ?thesis by (auto simp: Request owes_def queued_def)
  qed
next
  case (ReadFrame f)
  with assms(1) show ?thesis
    by (auto simp: owes_def queued_def read_frame_def
        split: if_splits frame.splits outcome.splits prod.splits dispatch.splits dest: dispatch_outgoing)
next
  case Supervise
  with assms(1) show ?thesis by (auto simp: supervise_def owes_def queued_def connection_over_view split: if_splits)
next
  case Finish
  with assms(1) show ?thesis by (auto simp: finish_link_def owes_def queued_def split: option.splits)
qed (use assms(1) in \<open>auto simp: owes_def send_response_def take_message_def take_outgoing_def queued_def write_returns_def
    split: if_splits list.splits reader_status.splits writer_status.splits prod.splits\<close>)

subsection \<open>The invariant\<close>

text \<open>Until the connection is over its keep-alive task is there and has a channel to send on.\<close>

definition keeping_alive :: "'c link \<Rightarrow> bool" where
  "keeping_alive l \<longleftrightarrow>
     (supervising l \<longrightarrow> pinging l \<and> \<not> exit_flag l \<and> outgoing_tx (link_client l) \<noteq> None)"

lemma link_step_keeping_alive:
  assumes "link_step K ev l = Done (Some l')" and "link_ok l" and "keeping_alive l"
  shows "keeping_alive l'"
proof -
  have "link_keeps (link_client l) (link_client l')"
    using link_step_keeps[OF assms(1)] assms(2) by (simp add: link_ok_def)
  then have tx: "outgoing_tx (link_client l') = outgoing_tx (link_client l)" by (simp add: link_keeps_def)
  have sup: "supervising l' \<Longrightarrow> supervising l" using link_step_flags[OF assms(1)] by blast
  show ?thesis
  proof (cases ev)
    case (PingTick now now2)
    with assms(1) have tick: "ping_tick now now2 l = Some l'" by simp
    show ?thesis
    proof (cases "supervising l")
      case True
      then obtain act c where "keep_alive_step (opt_keep_alive (options (link_client l))) (exit_flag l) now now2
          (writer l \<noteq> WriteEnded) (link_client l) = Done (act, c)" "act \<noteq> Exit"
        using assms(3) by (fastforce simp: keeping_alive_def keep_alive_step_def Let_def split: if_splits)
      with tick have "l' = l\<lparr>link_client := c, pinging := True\<rparr>"
        by (auto simp: ping_tick_def Let_def split: if_splits)
      with True assms(3) tx show ?thesis by (simp add: keeping_alive_def)
    qed (use sup in \<open>auto simp: keeping_alive_def\<close>)
  next
    case (Request req)
    with assms(1) have "link_request K req l = Done (Some l')" by simp
    then show ?thesis
      by (cases rule: link_requestE) (use assms(3) tx in \<open>auto simp: keeping_alive_def\<close>)
  next
    case (ReadFrame f)
    with assms(1,3) tx show ?thesis
      by (auto simp: keeping_alive_def read_frame_def split: if_splits frame.splits outcome.splits prod.splits dispatch.splits)
  qed (use assms(1,3) sup tx in \<open>auto simp: keeping_alive_def send_response_def take_message_def take_outgoing_def
      write_returns_def finish_link_def supervise_def
      split: if_splits list.splits reader_status.splits writer_status.splits option.splits prod.splits\<close>)
qed

lemma link_step_keeps_options:
  assumes "link_step K ev l = Done (Some l')" and "link_ok l"
  shows "options (link_client l') = options (link_client l)"
proof (cases "\<exists>req. ev = Request req")
  case True
  then obtain req where "link_request K req l = Done (Some l')" using assms(1) by auto
  moreover have "client_inv (link_client l)" using assms(2) by (simp add: link_ok_def)
  ultimately show ?thesis
    by (elim link_requestE) (auto simp: request_post_def untouched_def dest!: req.post)
next
  case False
  with link_step_options[OF assms(1)] show ?thesis by blast
qed

definition timed_ok :: "duration \<Rightarrow> duration \<Rightarrow> duration \<Rightarrow> 'c timed \<Rightarrow> bool" where
  "timed_ok lag delay dur T \<longleftrightarrow>
     (let l = timed_link T
      in link_ok l \<and> keeping_alive l \<and> opt_keep_alive (options (link_client l)) = dur \<and>
         sent_at l \<le> clock T \<and> wake T \<le> clock T + dur \<and>
         (supervising l \<and> writer l \<noteq> WriteEnded \<longrightarrow>
           (if owes l then owing T \<le> sent_at l + dur + lag \<and> clock T \<le> owing T + delay
            else wake T \<le> sent_at l + dur \<and> clock T \<le> sent_at l + dur + lag)))"

lemma timed_ok_open:
  assumes "client_inv c" and "outgoing_tx c \<noteq> None" and "outgoing c = []"
  shows "timed_ok lag delay (opt_keep_alive (options c)) (timed_open sp t c)"
  using link_ok_open[OF assms] assms(2,3)
  by (simp add: timed_ok_def timed_open_def Let_def keeping_alive_def owes_def queued_def link_open_def)

text \<open>The iteration of the keep-alive task at an instant.\<close>

lemma ping_action_cases:
  assumes "sent_at (timed_link T) \<le> clock T" and "exit_flag (timed_link T) = False"
    and "outgoing_tx (link_client (timed_link T)) \<noteq> None" and "opt_keep_alive (options (link_client (timed_link T))) = dur"
  shows "ping_action T =
    Some (if sent_at (timed_link T) + dur \<le> clock T then PingThenSleep dur else SleepUntil (sent_at (timed_link T) + dur))"
  using assms by (auto simp: ping_action_def keep_alive_step_def Let_def)

text \<open>A ping handed over is owed.\<close>

lemma ping_owed:
  assumes "ping_tick now now2 l = Some l'" and "link_ok l" and "writer l \<noteq> WriteEnded"
    and "keep_alive_step (opt_keep_alive (options (link_client l))) (exit_flag l) now now2 True (link_client l) = Done (PingThenSleep d, c)"
  shows "owes l'"
proof -
  have "taken l \<le> length (outgoing (link_client l))"
    using assms(2) by (auto simp: link_ok_def channels_ok_def accounted_def)
  moreover have "c = send_outgoing True (packet_and_token_new PingreqPacket) (link_client l)"
    using assms(4) by (auto simp: keep_alive_step_def Let_def bind_outcome_Done_iff split: if_splits)
  ultimately show ?thesis
    using assms(1,3,4) by (auto simp: ping_tick_def Let_def owes_def queued_def send_outgoing_def split: if_splits)
qed

text \<open>The keep-alive task's next instant.\<close>

lemma next_wake_bounds:
  assumes "on_time T ev" and "sent_at (timed_link T) \<le> clock T"
    and "opt_keep_alive (options (link_client (timed_link T))) = dur" and "wake T \<le> clock T + dur"
  shows "next_wake ev T \<le> clock T + dur" and "wake T \<le> next_wake ev T"
proof -
  consider (tick) "ev = PingTick (clock T) (clock T)" "wake T \<le> clock T" | (other) "next_wake ev T = wake T"
    using assms(1) by (cases ev) auto
  then have "next_wake ev T \<le> clock T + dur \<and> wake T \<le> next_wake ev T"
  proof cases
    case tick
    with assms(2-4) show ?thesis
      by (cases "exit_flag (timed_link T)"; cases "outgoing_tx (link_client (timed_link T))")
        (auto simp: ping_action_def keep_alive_step_def Let_def)
  qed (use assms(4) in simp)
  then show "next_wake ev T \<le> clock T + dur" "wake T \<le> next_wake ev T" by simp_all
qed

lemma timed_act_ok:
  assumes "timed_step K lag delay (Act ev) T = Done (Some T')" and "timed_ok lag delay dur T"
  shows "timed_ok lag delay dur T'"
  using assms(1)
proof (cases rule: timed_actE)
  case (1 l)
  let ?l = "timed_link T"
  have ok: "link_ok ?l" "keeping_alive ?l" "opt_keep_alive (options (link_client ?l)) = dur" "sent_at ?l \<le> clock T"
    "wake T \<le> clock T + dur"
    using assms(2) by (simp_all add: timed_ok_def Let_def)
  note next_ok = link_step_ok[OF 1(2) ok(1)] link_step_keeping_alive[OF 1(2) ok(1,2)]
  have sent: "sent_at l = (case ev of WriteReturns (WriteOk now) \<Rightarrow> now | _ \<Rightarrow> sent_at ?l)"
    using link_step_sent_at[OF 1(2)] ok(1) by (simp add: link_ok_def)
  with 1(1) ok(4) have le: "sent_at l \<le> clock T" "sent_at ?l \<le> sent_at l"
    by (auto split: link_event.splits io_result.splits)
  note wake = next_wake_bounds[OF 1(1) ok(4,3,5)]
  let ?bound = "if owes l then owing T' \<le> sent_at l + dur + lag \<and> clock T' \<le> owing T' + delay
      else wake T' \<le> sent_at l + dur \<and> clock T' \<le> sent_at l + dur + lag"
  have ?bound if live: "supervising l" "writer l \<noteq> WriteEnded"
  proof -
    have was: "supervising ?l" "writer ?l \<noteq> WriteEnded" "owes ?l \<and> \<not> is_write ev \<longrightarrow> owes l"
      using live link_step_flags[OF 1(2)] link_step_writer[OF 1(2) ok(1)] by auto
    then have inv: "if owes ?l then owing T \<le> sent_at ?l + dur + lag \<and> clock T \<le> owing T + delay
        else wake T \<le> sent_at ?l + dur \<and> clock T \<le> sent_at ?l + dur + lag"
      using assms(2) by (simp add: timed_ok_def Let_def)
    show ?thesis
    proof (cases "is_write ev")
      case True
      then obtain now where "ev = WriteReturns (WriteOk now)"
        using link_step_writer[OF 1(2) ok(1)] live(2) by (cases ev rule: is_write.cases) (auto, metis io_result.exhaust)
      with 1(1) sent ok(5) show ?thesis by (simp add: 1(3))
    next
      case False
      then have same: "sent_at l = sent_at ?l" using sent by (cases ev) auto
      show ?thesis
      proof (cases "owes ?l")
        case True
        with inv was(3) False same show ?thesis by (simp add: 1(3))
      next
        case idle: False
        have "next_wake ev T \<le> sent_at ?l + dur" if "\<not> owes l"
          using 1(1,2) inv idle that was ping_owed[of "clock T" "clock T" ?l l] ok ping_action_cases[of T dur]
          by (cases ev) (auto simp: keeping_alive_def ping_action_def split: if_splits outcome.splits)
        with inv idle same show ?thesis by (simp add: 1(3))
      qed
    qed
  qed
  moreover have fields: "timed_link T' = l" "clock T' = clock T" "wake T' = next_wake ev T" by (simp_all add: 1(3))
  ultimately show ?thesis
    using next_ok ok le wake link_step_keeps_options[OF 1(2) ok(1)]
    unfolding timed_ok_def Let_def by (auto simp: fields split: if_splits)
qed

lemma timed_elapse_ok:
  assumes "timed_step K lag delay (Elapse d) T = Done (Some T')" and "timed_ok lag delay dur T"
  shows "timed_ok lag delay dur T'"
proof -
  have may: "may_elapse lag delay d T" and T': "T' = T\<lparr>clock := clock T + d\<rparr>"
    using assms(1) by (auto split: if_splits)
  show ?thesis
    using may assms(2)
    by (auto simp: T' timed_ok_def may_elapse_def Let_def keeping_alive_def owes_def capacity_def split: if_splits)
qed

lemma timed_run_ok: "timed_run K lag delay T evs T' \<Longrightarrow> timed_ok lag delay dur T \<Longrightarrow> timed_ok lag delay dur T'"
proof (induction rule: timed_run.induct)
  case (timed_next T evs T1 ev T2)
  then show ?case using timed_act_ok timed_elapse_ok by (cases ev) blast+
qed simp

lemma silence_bounded:
  assumes "timed_ok lag delay dur T" and "supervising (timed_link T)" and "writer (timed_link T) \<noteq> WriteEnded"
  shows "clock T \<le> sent_at (timed_link T) + dur + lag + delay"
  using assms by (auto simp: timed_ok_def Let_def split: if_splits)

text \<open>The pings so far, against the time the keep-alive task has slept for them.\<close>

lemma ping_action_sleeps:
  assumes "opt_keep_alive (options (link_client (timed_link T))) = dur"
  shows "ping_action T = Some (PingThenSleep d) \<Longrightarrow> d = dur" and "ping_action T = Some (SleepUntil w) \<Longrightarrow> clock T \<le> w"
  using assms by (auto simp: ping_action_def keep_alive_step_def Let_def bind_outcome_Done_iff
      split: outcome.splits if_splits)

lemma ping_tick_wake:
  assumes "ping_tick (clock T) (clock T) (timed_link T) = Some l" and "wake T \<le> clock T"
    and "opt_keep_alive (options (link_client (timed_link T))) = dur"
  shows "wake T + pings l * dur \<le> next_wake (PingTick (clock T) (clock T)) T + pings (timed_link T) * dur"
proof -
  have le: "pings l \<le> pings (timed_link T) + (case ping_action T of Some (PingThenSleep d) \<Rightarrow> 1 | _ \<Rightarrow> 0)"
    using ping_tick_pings[OF assms(1)]
    by (auto simp: ping_action_def Let_def split: outcome.splits prod.splits keep_alive_action.splits)
  show ?thesis
  proof (cases "\<exists>d. ping_action T = Some (PingThenSleep d)")
    case True
    then have act: "ping_action T = Some (PingThenSleep dur)" using ping_action_sleeps(1)[OF assms(3)] by blast
    with le have "pings l * dur \<le> (pings (timed_link T) + 1) * dur" by (intro mult_le_mono1) simp
    with act assms(2) show ?thesis by (simp add: algebra_simps)
  next
    case False
    then have "wake T \<le> next_wake (PingTick (clock T) (clock T)) T"
      using assms(2) ping_action_sleeps(2)[OF assms(3)] by (auto split: option.split keep_alive_action.split intro: le_trans)
    moreover have "pings l \<le> pings (timed_link T)"
      using le False by (auto split: option.splits keep_alive_action.splits)
    then have "pings l * dur \<le> pings (timed_link T) * dur" by (intro mult_le_mono1)
    ultimately show ?thesis by linarith
  qed
qed

lemma timed_step_pings:
  assumes "timed_step K lag delay ev T = Done (Some T')" and "timed_ok lag delay dur T"
  shows "wake T + pings (timed_link T') * dur \<le> wake T' + pings (timed_link T) * dur"
proof (cases ev)
  case (Elapse d)
  with assms(1) show ?thesis by (auto split: if_splits)
next
  case (Act a)
  from assms(1)[unfolded Act] show ?thesis
  proof (cases rule: timed_actE)
    case (1 l)
    have ok: "client_inv (link_client (timed_link T))" "opt_keep_alive (options (link_client (timed_link T))) = dur"
      using assms(2) by (simp_all add: timed_ok_def Let_def link_ok_def)
    show ?thesis
    proof (cases "\<exists>n m. a = PingTick n m")
      case True
      then have a: "a = PingTick (clock T) (clock T)" "wake T \<le> clock T" using 1(1) by auto
      with 1(2) ping_tick_wake[OF _ a(2) ok(2), of l] show ?thesis by (simp add: 1(3) del: next_wake.simps)
    next
      case False
      then have "next_wake a T = wake T" by (cases a) auto
      with link_step_pings[OF 1(2) ok(1)] False show ?thesis by (simp add: 1(3))
    qed
  qed
qed

lemma timed_run_pings:
  "timed_run K lag delay T evs T' \<Longrightarrow> timed_ok lag delay dur T \<Longrightarrow>
     wake T + pings (timed_link T') * dur \<le> wake T' + pings (timed_link T) * dur"
proof (induction rule: timed_run.induct)
  case (timed_next T evs T1 ev T2)
  from timed_run_ok[OF timed_next.hyps(1) timed_next.prems] timed_step_pings[OF timed_next.hyps(2)] timed_next.IH timed_next.prems
  show ?case by fastforce
qed simp

subsection \<open>How long the client is silent, and how often it pings\<close>

text \<open>
  C11. The keep-alive time is kept: as long as a connection lives and can write, the time since the last packet written
  is never longer than the keep-alive option, the task's lag and the socket's delay together, whatever the caller, the
  server and the other tasks do in between. For a keep-alive of whole seconds that fits 16 bits it is then within the one
  and a half times that the CONNECT packet's keep-alive allows, if lag and delay are at most half of it.
\<close>

theorem keep_alive_bounds_silence:
  assumes "client_inv c" and "outgoing_tx c \<noteq> None" and "outgoing c = []"
    and "timed_run K lag delay (timed_open sp t c) evs T"
    and "supervising (timed_link T)" and "writer (timed_link T) \<noteq> WriteEnded"
  shows "clock T \<le> sent_at (timed_link T) + opt_keep_alive (options c) + lag + delay \<and>
    (build_connect_packet K (options c) = Done calls \<and> SetKeepAlive k \<in> set calls \<and>
     opt_keep_alive (options c) = from_secs n \<and> n < 65536 \<and> 2 * (lag + delay) \<le> from_secs n \<longrightarrow>
       2 * (clock T - sent_at (timed_link T)) \<le> 3 * from_secs (unat k))"
proof (intro conjI impI)
  from timed_run_ok[OF assms(4) timed_ok_open[OF assms(1-3)]] silence_bounded assms(5,6)
  show bound: "clock T \<le> sent_at (timed_link T) + opt_keep_alive (options c) + lag + delay" by blast
  assume told: "build_connect_packet K (options c) = Done calls \<and> SetKeepAlive k \<in> set calls \<and>
    opt_keep_alive (options c) = from_secs n \<and> n < 65536 \<and> 2 * (lag + delay) \<le> from_secs n"
  then have "k = of_nat n"
    by (auto simp: build_connect_packet_def Let_def bind_outcome_Done_iff split: if_splits)
  with told have "unat k = n" by (simp add: unat_of_nat)
  moreover have "opt_keep_alive (options c) = from_secs n" "2 * (lag + delay) \<le> from_secs n" using told by simp_all
  ultimately show "2 * (clock T - sent_at (timed_link T)) \<le> 3 * from_secs (unat k)" using bound by simp
qed

text \<open>
  The keep-alive task does not ping more often than it has to: in any time a connection has lasted there are at most
  as many PINGREQ packets handed over as there are whole keep-alive times in it, and one.
\<close>

lemma pings_are_spaced:
  assumes "client_inv c" and "outgoing_tx c \<noteq> None" and "outgoing c = []"
    and "timed_run K lag delay (timed_open sp t c) evs T"
  shows "pings (timed_link T) * opt_keep_alive (options c) \<le> clock T - last_sent_packet_at c + opt_keep_alive (options c)"
proof -
  note ok = timed_ok_open[OF assms(1-3), of lag delay sp t]
  have "pings (timed_link (timed_open sp t c)) = 0" using assms(3) by (simp add: timed_open_def Let_def link_open_def pings_def)
  moreover have "wake T \<le> clock T + opt_keep_alive (options c)"
    using timed_run_ok[OF assms(4) ok] by (simp add: timed_ok_def Let_def)
  ultimately show ?thesis
    using timed_run_pings[OF assms(4) ok] by (simp add: timed_open_def Let_def)
qed

text \<open>A connection with nothing to write whose keep-alive time is zero.\<close>

abbreviation pingreq :: packet_and_token where
  "pingreq \<equiv> packet_and_token_new PingreqPacket"

definition pings_at_once :: "'c timed \<Rightarrow> bool" where
  "pings_at_once T \<longleftrightarrow>
     (let l = timed_link T
      in pinging l \<and> \<not> exit_flag l \<and> outgoing_tx (link_client l) \<noteq> None \<and> opt_keep_alive (options (link_client l)) = 0 \<and>
         writer l = Selecting \<and> taken l = length (outgoing (link_client l)) \<and> wake T \<le> clock T)"

lemma ping_round:
  assumes "pings_at_once T"
  shows "\<exists>T'. timed_run K lag delay T
      [Act (PingTick (clock T) (clock T)), Act TakeOutgoing, Act (WriteReturns (WriteOk (clock T)))] T' \<and>
    pings_at_once T' \<and> clock T' = clock T \<and> written (timed_link T') = written (timed_link T) @ [Inr pingreq]"
proof -
  let ?l = "timed_link T" let ?c = "link_client (timed_link T)"
  let ?l1 = "?l\<lparr>link_client := ?c\<lparr>outgoing := outgoing ?c @ [pingreq]\<rparr>, pinging := True\<rparr>"
  let ?l2 = "?l1\<lparr>writer := WritingOut pingreq, taken := Suc (taken ?l)\<rparr>"
  let ?l3 = "?l2\<lparr>link_client := ?c\<lparr>outgoing := outgoing ?c @ [pingreq], last_sent_packet_at := clock T\<rparr>,
    writer := Selecting, written := written ?l @ [Inr pingreq]\<rparr>"
  note at_once = assms[unfolded pings_at_once_def Let_def]
  have act: "ping_action T = Some (PingThenSleep 0)" using at_once by (auto simp: ping_action_def keep_alive_step_def Let_def)
  have link: "link_step K (PingTick (clock T) (clock T)) ?l = Done (Some ?l1)"
    "link_step K TakeOutgoing ?l1 = Done (Some ?l2)"
    "link_step K (WriteReturns (WriteOk (clock T))) ?l2 = Done (Some ?l3)"
    using at_once
    by (auto simp: ping_tick_def keep_alive_step_def Let_def send_outgoing_def queued_def capacity_def take_outgoing_def
        write_returns_def complete_written_def packet_and_token_new_def)
  define T1 where "T1 = T\<lparr>timed_link := ?l1, wake := clock T, owing := (if owes ?l then owing T else clock T)\<rparr>"
  define T2 where "T2 = T1\<lparr>timed_link := ?l2, owing := (if owes ?l1 then owing T1 else clock T)\<rparr>"
  define T3 where "T3 = T2\<lparr>timed_link := ?l3, owing := clock T\<rparr>"
  have s1: "timed_step K lag delay (Act (PingTick (clock T) (clock T))) T = Done (Some T1)"
    using link(1) at_once act by (simp add: T1_def del: link_step.simps)
  have s2: "timed_step K lag delay (Act TakeOutgoing) T1 = Done (Some T2)"
    using link(2) by (simp add: T1_def T2_def del: link_step.simps)
  have s3: "timed_step K lag delay (Act (WriteReturns (WriteOk (clock T)))) T2 = Done (Some T3)"
    using link(3) by (simp add: T1_def T2_def T3_def del: link_step.simps)
  note timed_run.timed_next[OF timed_run.timed_next[OF timed_run.timed_next[OF timed_run.timed_refl s1] s2] s3]
  moreover have "pings_at_once T3"
    using at_once by (simp add: pings_at_once_def Let_def T1_def T2_def T3_def)
  ultimately show ?thesis by (intro exI[of _ T3]) (simp add: T1_def T2_def T3_def)
qed

lemma ping_rounds:
  "pings_at_once T \<Longrightarrow> \<exists>evs T'. timed_run K lag delay T evs T' \<and> clock T' = clock T \<and>
     written (timed_link T') = written (timed_link T) @ replicate n (Inr pingreq)"
proof (induction n arbitrary: T)
  case 0
  show ?case by (intro exI[of _ "[]"] exI[of _ T]) (simp add: timed_run.timed_refl)
next
  case (Suc n)
  from ping_round[OF Suc.prems] obtain evs1 T1 where run: "timed_run K lag delay T evs1 T1" and T1: "pings_at_once T1"
    "clock T1 = clock T" "written (timed_link T1) = written (timed_link T) @ [Inr pingreq]"
    by blast
  from Suc.IH[OF T1(1)] obtain evs T' where "timed_run K lag delay T1 evs T'" "clock T' = clock T1"
    "written (timed_link T') = written (timed_link T1) @ replicate n (Inr pingreq)"
    by blast
  with timed_run_append[OF this(1) run] T1 show ?case by auto
qed

text \<open>
  C28. A keep-alive option of zero, the default of \<open>ClientOptions::default\<close>, which the CONNECT packet tells the server as
  no keep-alive, does not turn the keep-alive task off: the task never sleeps, and the client can write any number
  of PINGREQ packets at one instant.
\<close>

theorem zero_keep_alive_floods:
  assumes "client_inv c" and "outgoing_tx c \<noteq> None" and "outgoing c = []" and "opt_keep_alive (options c) = 0"
  shows "(\<forall>evs T. timed_run K lag delay (timed_open sp t c) evs T \<longrightarrow> wake T \<le> clock T) \<and>
    (\<exists>evs T. timed_run K lag delay (timed_open sp t c) evs T \<and> clock T = last_sent_packet_at c \<and>
      written (timed_link T) = replicate n (Inr pingreq))"
proof -
  have "wake T \<le> clock T" if "timed_run K lag delay (timed_open sp t c) evs T" for evs T
    using timed_run_ok[OF that timed_ok_open[OF assms(1-3)]] assms(4) by (simp add: timed_ok_def Let_def)
  moreover have "pings_at_once (timed_open sp t c)"
    using assms(2-4) by (simp add: pings_at_once_def timed_open_def link_open_def Let_def)
  from ping_rounds[OF this, of K lag delay n]
  have "\<exists>evs T. timed_run K lag delay (timed_open sp t c) evs T \<and> clock T = last_sent_packet_at c \<and>
      written (timed_link T) = replicate n (Inr pingreq)"
    by (auto simp: timed_open_def Let_def link_open_def)
  ultimately show ?thesis by blast
qed

subsection \<open>Witnesses\<close>

text \<open>A client with a keep-alive of ten seconds, and a run in which it is silent as long as the bound allows.\<close>

definition sample_timed_client :: "(u16 \<Rightarrow> publish_packet option) mqtt_client" where
  "sample_timed_client = (mqtt_client_new sample_libs 0 empty_heap (set_keep_alive (from_secs 10) options_new))
     \<lparr>connect_status := Connected, outgoing_tx := Some 0\<rparr>"

lemma sample_timed_client_view:
  "client_inv sample_timed_client" "outgoing_tx sample_timed_client \<noteq> None" "outgoing sample_timed_client = []"
  "options sample_timed_client = set_keep_alive (from_secs 10) options_new" "last_sent_packet_at sample_timed_client = 0"
proof -
  have "heap_ok empty_heap" by (simp add: heap_ok_def empty_heap_def tok_live_def)
  then show "client_inv sample_timed_client"
    by (simp add: sample_timed_client_def client_inv_def mqtt_client_new_def state_inv_extend state_inv_new)
qed (simp_all add: sample_timed_client_def mqtt_client_new_def
    state.extend_def state_new_def heap.extend_def)

abbreviation silent_events :: "timed_event list" where
  "silent_events \<equiv> [Act (PingTick 0 0), Elapse (from_secs 10), Act (PingTick (from_secs 10) (from_secs 10)), Elapse (from_secs 1)]"

fun timed_play :: "'c libs \<Rightarrow> duration \<Rightarrow> duration \<Rightarrow> timed_event list \<Rightarrow> 'c timed \<Rightarrow> 'c timed option outcome" where
  "timed_play K lag delay [] T = Done (Some T)"
| "timed_play K lag delay (ev # evs) T =
     bind_outcome (timed_step K lag delay ev T)
       (\<lambda>r. case r of None \<Rightarrow> Done None | Some T' \<Rightarrow> timed_play K lag delay evs T')"

lemma timed_playI:
  "timed_play K lag delay evs T1 = Done (Some T') \<Longrightarrow> timed_run K lag delay T evs0 T1 \<Longrightarrow>
     timed_run K lag delay T (evs0 @ evs) T'"
proof (induction evs arbitrary: evs0 T1)
  case (Cons ev evs)
  then obtain T2 where step: "timed_step K lag delay ev T1 = Done (Some T2)" and rest: "timed_play K lag delay evs T2 = Done (Some T')"
    by (auto simp: bind_outcome_Done_iff simp del: timed_step.simps split: option.splits)
  from Cons.IH[OF rest timed_run.timed_next[OF Cons.prems(2) step]] show ?case by simp
qed simp

lemma sample_silent:
  "\<exists>T. timed_run sample_libs 0 (from_secs 1) (timed_open False 0 sample_timed_client) silent_events T \<and>
     clock T = from_secs 11 \<and> sent_at (timed_link T) = 0 \<and> supervising (timed_link T) \<and>
     writer (timed_link T) = Selecting \<and> pings (timed_link T) = 1"
proof -
  have "\<exists>T. timed_play sample_libs 0 (from_secs 1) silent_events (timed_open False 0 sample_timed_client) = Done (Some T) \<and>
     clock T = from_secs 11 \<and> sent_at (timed_link T) = 0 \<and> supervising (timed_link T) \<and>
     writer (timed_link T) = Selecting \<and> pings (timed_link T) = 1"
    using sample_timed_client_view
    by (auto simp: timed_open_def link_open_def Let_def ping_tick_def keep_alive_step_def ping_action_def may_elapse_def
        owes_def queued_def capacity_def send_outgoing_def pings_def from_secs_def set_keep_alive_def options_new_def)
  then show ?thesis using timed_playI[OF _ timed_run.timed_refl] by fastforce
qed

lemma keep_alive_bounds_silence_witness:
  "\<exists>T. timed_run sample_libs 0 (from_secs 1) (timed_open False 0 sample_timed_client) silent_events T \<and>
     clock T = sent_at (timed_link T) + from_secs 10 + 0 + from_secs 1 \<and>
     2 * (clock T - sent_at (timed_link T)) \<le> 3 * from_secs (unat (10 :: u16))"
proof -
  obtain T where run: "timed_run sample_libs 0 (from_secs 1) (timed_open False 0 sample_timed_client) silent_events T"
    and T: "clock T = from_secs 11" "sent_at (timed_link T) = 0" "supervising (timed_link T)" "writer (timed_link T) = Selecting"
    using sample_silent by blast
  obtain calls where calls: "build_connect_packet sample_libs (options sample_timed_client) = Done calls" "SetKeepAlive 10 \<in> set calls"
    by (simp add: sample_timed_client_view(4) build_connect_packet_def Let_def set_keep_alive_def options_new_def options_default_def)
  have alive: "opt_keep_alive (options sample_timed_client) = from_secs 10"
    by (simp add: sample_timed_client_view(4) set_keep_alive_def)
  have "writer (timed_link T) \<noteq> WriteEnded" using T(4) by simp
  note bound = keep_alive_bounds_silence[OF sample_timed_client_view(1-3) run T(3) this, where calls = calls and k = 10 and n = 10]
  have "clock T = sent_at (timed_link T) + from_secs 10 + 0 + from_secs 1"
    using conjunct1[OF bound] T(1,2) alive by (simp add: from_secs_def)
  moreover have "2 * (clock T - sent_at (timed_link T)) \<le> 3 * from_secs (unat (10 :: u16))"
    using conjunct2[OF bound] calls alive by (simp add: from_secs_def)
  ultimately show ?thesis using run by blast
qed

lemma zero_keep_alive_floods_witness:
  "\<exists>evs T. timed_run sample_libs 0 0 (timed_open False 0 sample_client) evs T \<and> clock T = last_sent_packet_at sample_client \<and>
     written (timed_link T) = [Inr pingreq, Inr pingreq]"
  using zero_keep_alive_floods[OF sample_client_view(1) _ sample_client_view(5) sample_client_channel(2), of sample_libs 0 0 False 0 "Suc (Suc 0)"]
  by (simp add: sample_client_channel(1))

end
