(* ===== verification/Silent_Server.thy ===== *)
theory Silent_Server
  imports Keep_Alive
begin

section \<open>A server that has gone silent\<close>

text \<open>
  The clock of \<open>Keep_Alive\<close> never stands still, whatever has happened: there is always a course of events in which time
  goes on. So a connection can last as long as one likes without a frame from the server, and nothing in the client
  takes notice.
\<close>

subsection \<open>The write task can write what it owes\<close>

definition left_to_write :: "'c link \<Rightarrow> nat" where
  "left_to_write l = (if writer l = Selecting then 0 else 1) + 2 * length (messages l) + 2 * length (queued l)"

lemma owes_left: "writer l \<noteq> WriteEnded \<Longrightarrow> owes l \<longleftrightarrow> 0 < left_to_write l"
  by (auto simp: owes_def left_to_write_def)

fun writes :: "timed_event \<Rightarrow> bool" where
  "writes (Act TakeMessage) = True"
| "writes (Act TakeOutgoing) = True"
| "writes (Act (WriteReturns r)) = True"
| "writes ev = False"

text \<open>The state of the connection that the write task leaves alone.\<close>

definition same_tasks :: "'c link \<Rightarrow> 'c link \<Rightarrow> bool" where
  "same_tasks l l' \<longleftrightarrow>
     reader l' = reader l \<and> supervising l' = supervising l \<and> pinging l' = pinging l \<and> finishing l' = finishing l \<and>
     exit_flag l' = exit_flag l"

lemma write_link:
  assumes "writer l \<noteq> WriteEnded" and "owes l"
  shows "\<exists>ev l'. writes (Act ev) \<and> (\<forall>T. timed_link T = l \<and> clock T = now \<longrightarrow> on_time T ev) \<and>
    link_step K ev l = Done (Some l') \<and> left_to_write l' < left_to_write l \<and> writer l' \<noteq> WriteEnded \<and> same_tasks l l'"
proof (cases "writer l")
  case Selecting
  show ?thesis
  proof (cases "messages l")
    case (Cons p ps)
    with Selecting show ?thesis
      by (intro exI[of _ TakeMessage]) (auto simp: take_message_def left_to_write_def queued_def same_tasks_def)
  next
    case Nil
    with Selecting assms obtain pt pts where q: "queued l = pt # pts" by (cases "queued l") (auto simp: owes_def)
    then have "length (outgoing (link_client l)) - taken l = Suc (length pts)"
      by (metis length_Cons length_drop queued_def)
    with Selecting Nil q show ?thesis
      by (intro exI[of _ TakeOutgoing]) (auto simp: take_outgoing_def left_to_write_def queued_def same_tasks_def)
  qed
next
  case (WritingMsg p)
  then show ?thesis
    by (intro exI[of _ "WriteReturns (WriteOk now)"])
      (auto simp: write_returns_def left_to_write_def queued_def same_tasks_def)
next
  case (WritingOut pt)
  have "outgoing (complete_written tk s) = outgoing s" for tk and s :: "'a mqtt_client"
    by (simp add: complete_written_def split: option.split token.split)
  with WritingOut show ?thesis
    by (intro exI[of _ "WriteReturns (WriteOk now)"])
      (auto simp: write_returns_def left_to_write_def queued_def same_tasks_def)
qed (use assms in simp)

lemma same_tasks_trans: "same_tasks l l1 \<Longrightarrow> same_tasks l1 l2 \<Longrightarrow> same_tasks l l2"
  by (simp add: same_tasks_def)

lemma writes_wake: "writes (Act ev) \<Longrightarrow> next_wake ev T = wake T"
  by (cases ev) simp_all

lemma write_all:
  assumes "writer (timed_link T) \<noteq> WriteEnded"
  shows "\<exists>evs T'. timed_run K lag delay T evs T' \<and> list_all writes evs \<and> clock T' = clock T \<and> wake T' = wake T \<and>
    \<not> owes (timed_link T') \<and> writer (timed_link T') \<noteq> WriteEnded \<and> same_tasks (timed_link T) (timed_link T')"
  using assms
proof (induction "left_to_write (timed_link T)" arbitrary: T rule: less_induct)
  case less
  show ?case
  proof (cases "owes (timed_link T)")
    case False
    with less.prems show ?thesis
      by (intro exI[of _ "[]"] exI[of _ T]) (simp add: timed_run.timed_refl same_tasks_def)
  next
    case True
    from write_link[OF less.prems True, of "clock T" K] obtain ev l' where ev: "writes (Act ev)" "on_time T ev"
      and step: "link_step K ev (timed_link T) = Done (Some l')" and l': "left_to_write l' < left_to_write (timed_link T)"
      "writer l' \<noteq> WriteEnded" "same_tasks (timed_link T) l'"
      by auto
    define T1 where "T1 = T\<lparr>timed_link := l', wake := next_wake ev T,
       owing := if owes (timed_link T) \<and> \<not> is_write ev then owing T else clock T\<rparr>"
    have "timed_step K lag delay (Act ev) T = Done (Some T1)"
      using ev(2) step by (simp add: T1_def del: link_step.simps)
    then have run: "timed_run K lag delay T [Act ev] T1"
      using timed_run.timed_next[OF timed_run.timed_refl] by fastforce
    have T1: "timed_link T1 = l'" "clock T1 = clock T" "wake T1 = wake T"
      using writes_wake[OF ev(1)] by (simp_all add: T1_def)
    from less.hyps[of T1] l' T1 obtain evs T' where "timed_run K lag delay T1 evs T'" "list_all writes evs" "clock T' = clock T1"
      "wake T' = wake T1" "\<not> owes (timed_link T')" "writer (timed_link T') \<noteq> WriteEnded" "same_tasks l' (timed_link T')"
      by auto
    with timed_run_append[OF this(1) run] T1 ev(1) same_tasks_trans[OF l'(3)] show ?thesis
      by (intro exI[of _ "[Act ev] @ evs"] exI[of _ T']) auto
  qed
qed

subsection \<open>The clock never stands still\<close>

text \<open>When it is due, the keep-alive task of an idle connection has room for its ping.\<close>

lemma tick_due:
  assumes "timed_ok lag delay dur T" and "0 < dur" and "supervising (timed_link T)"
    and "\<not> owes (timed_link T)" and "writer (timed_link T) \<noteq> WriteEnded" and "wake T \<le> clock T"
  shows "\<exists>T'. timed_run K lag delay T [Act (PingTick (clock T) (clock T))] T' \<and> clock T' = clock T \<and> clock T < wake T' \<and>
    writer (timed_link T') \<noteq> WriteEnded \<and> same_tasks (timed_link T) (timed_link T')"
proof -
  let ?l = "timed_link T" let ?now = "clock T"
  have ok: "keeping_alive ?l" "opt_keep_alive (options (link_client ?l)) = dur" "sent_at ?l \<le> ?now"
    using assms(1) by (simp_all add: timed_ok_def Let_def)
  then have alive: "pinging ?l" "exit_flag ?l = False" "outgoing_tx (link_client ?l) \<noteq> None"
    using assms(3) by (simp_all add: keeping_alive_def)
  note act = ping_action_cases[OF ok(3) alive(2,3) ok(2)]
  have "length (outgoing (link_client ?l)) \<le> taken ?l" using assms(4,5) by (simp add: owes_def queued_def)
  moreover obtain a c where "keep_alive_step dur (exit_flag ?l) ?now ?now True (link_client ?l) = Done (a, c)" and a: "ping_action T = Some a"
    using act ok(2) assms(5) by (auto simp: ping_action_def Let_def split: outcome.splits)
  moreover have "a \<noteq> Exit" using act a by (auto split: if_splits)
  ultimately have "link_step K (PingTick ?now ?now) ?l = Done (Some (?l\<lparr>link_client := c, pinging := True\<rparr>))"
    using ok(2) assms(5) alive(1)
    by (auto simp: ping_tick_def Let_def queued_def send_outgoing_def capacity_def dest!: keep_alive_step_effect)
  moreover have "?now < next_wake (PingTick ?now ?now) T"
    using act assms(2) by auto
  ultimately show ?thesis
    using assms(5,6) alive timed_run.timed_next[OF timed_run.timed_refl, of K lag delay "Act (PingTick ?now ?now)" T]
    by (fastforce simp: same_tasks_def simp del: link_step.simps next_wake.simps)
qed

fun from_server :: "timed_event \<Rightarrow> bool" where
  "from_server (Act (ReadFrame f)) = True"
| "from_server ev = False"

definition unheard :: "timed_event list \<Rightarrow> bool" where
  "unheard evs \<longleftrightarrow> list_all (\<lambda>ev. \<not> from_server ev) evs"

lemma unheard_append [simp]: "unheard (evs @ evs') \<longleftrightarrow> unheard evs \<and> unheard evs'"
  by (simp add: unheard_def)

lemma unheard_Cons [simp]: "unheard (ev # evs) \<longleftrightarrow> \<not> from_server ev \<and> unheard evs"
  by (simp add: unheard_def)

lemma writes_unheard: "list_all writes evs \<Longrightarrow> unheard evs"
proof -
  have "writes ev \<Longrightarrow> \<not> from_server ev" for ev by (cases ev rule: from_server.cases) simp_all
  then show "list_all writes evs \<Longrightarrow> unheard evs" by (auto simp: unheard_def list_all_iff)
qed

text \<open>Wherever an open connection stands, one more unit of time can pass.\<close>

definition goes_on :: "'c timed \<Rightarrow> 'c timed \<Rightarrow> bool" where
  "goes_on T T' \<longleftrightarrow> writer (timed_link T') \<noteq> WriteEnded \<and> same_tasks (timed_link T) (timed_link T')"

lemma goes_on_trans: "goes_on T T1 \<Longrightarrow> goes_on T1 T2 \<Longrightarrow> goes_on T T2"
  by (auto simp: goes_on_def intro: same_tasks_trans)

text \<open>A moment at which the write task is idle and the keep-alive task asleep.\<close>

lemma quiet_moment:
  assumes "timed_ok lag delay dur T" and "0 < dur" and "supervising (timed_link T)" and "writer (timed_link T) \<noteq> WriteEnded"
  shows "\<exists>evs T'. timed_run K lag delay T evs T' \<and> unheard evs \<and> clock T' = clock T \<and> clock T' < wake T' \<and>
    \<not> owes (timed_link T') \<and> goes_on T T'"
proof -
  obtain evs1 T1 where run1: "timed_run K lag delay T evs1 T1" "unheard evs1" "clock T1 = clock T" "\<not> owes (timed_link T1)"
    "goes_on T T1"
    using write_all[OF assms(4), of K lag delay] writes_unheard by (auto simp: goes_on_def)
  show ?thesis
  proof (cases "wake T1 \<le> clock T1")
    case True
    have "supervising (timed_link T1)" "writer (timed_link T1) \<noteq> WriteEnded"
      using run1(5) assms(3) by (simp_all add: goes_on_def same_tasks_def)
    from tick_due[OF timed_run_ok[OF run1(1) assms(1)] assms(2) this(1) run1(4) this(2) True, of K] obtain ev T2 where
      run2: "timed_run K lag delay T1 [ev] T2" "unheard [ev]" "clock T2 = clock T" "clock T < wake T2" "goes_on T1 T2"
      using run1(3) by (auto simp: goes_on_def unheard_def)
    obtain evs3 T3 where run3: "timed_run K lag delay T2 evs3 T3" "unheard evs3" "clock T3 = clock T" "clock T3 < wake T3"
      "\<not> owes (timed_link T3)" "goes_on T2 T3"
      using write_all[of T2 K lag delay] run2(3-5) writes_unheard by (auto simp: goes_on_def)
    from timed_run_append[OF run3(1) timed_run_append[OF run2(1) run1(1)]] run1 run2 run3 show ?thesis
      by (intro exI[of _ "(evs1 @ [ev]) @ evs3"] exI[of _ T3]) (auto intro: goes_on_trans)
  next
    case False
    with run1 show ?thesis by (intro exI[of _ evs1] exI[of _ T1]) auto
  qed
qed

lemma time_goes_on:
  assumes "timed_ok lag delay dur T" and "0 < dur" and "supervising (timed_link T)" and "writer (timed_link T) \<noteq> WriteEnded"
  shows "\<exists>evs T'. timed_run K lag delay T evs T' \<and> unheard evs \<and> clock T' = clock T + n \<and> goes_on T T'"
proof (induction n)
  case 0
  with assms(4) show ?case
    by (intro exI[of _ "[]"] exI[of _ T]) (simp add: timed_run.timed_refl unheard_def goes_on_def same_tasks_def)
next
  case (Suc n)
  then obtain evs1 T1 where run1: "timed_run K lag delay T evs1 T1" "unheard evs1" "clock T1 = clock T + n" "goes_on T T1"
    by blast
  have "supervising (timed_link T1)" "writer (timed_link T1) \<noteq> WriteEnded"
    using run1(4) assms(3) by (simp_all add: goes_on_def same_tasks_def)
  from quiet_moment[OF timed_run_ok[OF run1(1) assms(1)] assms(2) this] obtain evs2 T2 where run2:
    "timed_run K lag delay T1 evs2 T2" "unheard evs2" "clock T2 = clock T1" "clock T2 < wake T2" "\<not> owes (timed_link T2)"
    "goes_on T1 T2"
    by blast
  let ?T' = "T2\<lparr>clock := clock T2 + 1\<rparr>"
  have "timed_step K lag delay (Elapse 1) T2 = Done (Some ?T')"
    using run2(4,5) by (simp add: may_elapse_def Let_def)
  from timed_run.timed_next[OF timed_run_append[OF run2(1) run1(1)] this] run1 run2 show ?case
    by (intro exI[of _ "(evs1 @ evs2) @ [Elapse 1]"] exI[of _ ?T'])
      (auto simp: unheard_def goes_on_def intro: same_tasks_trans)
qed

subsection \<open>Nothing notices the silence\<close>

definition unnoticed :: "'c link \<Rightarrow> bool" where
  "unnoticed l \<longleftrightarrow> reader l = Reading \<and> supervising l \<and> (finishing l = None \<longrightarrow> is_connected (link_client l))"

lemma finish_connect_connects: "is_connected (finish_connect sp t c)"
proof -
  have "connect_status (tok_set_error e a d) = connect_status d" "connect_status (tok_flow_complete a d) = connect_status d"
    "connect_status (connect_set_session_present a d) = connect_status d" for e a and d :: "'a mqtt_client"
    by (simp_all add: tok_simps connect_set_session_present_def)
  then show ?thesis by (simp add: finish_connect_def is_connected_def Let_def)
qed

lemma write_step_status:
  "write_step (MsgRecv (Some p) r) (c :: 'c mqtt_client) = (going, out, c') \<Longrightarrow> connect_status c' = connect_status c"
  "write_step (OutRecv (Some pt) r) c = (going, out, c') \<Longrightarrow> connect_status c' = connect_status c"
proof -
  show "write_step (MsgRecv (Some p) r) c = (going, out, c') \<Longrightarrow> connect_status c' = connect_status c"
    by (cases r) auto
  show "write_step (OutRecv (Some pt) r) c = (going, out, c') \<Longrightarrow> connect_status c' = connect_status c"
    by (cases r) (auto simp: complete_written_def split: option.splits token.splits)
qed

lemma link_step_unnoticed:
  assumes "link_step K ev l = Done (Some l')" and "link_ok l" and "unnoticed l" and "\<not> from_server (Act ev)"
  shows "unnoticed l'"
proof (cases ev)
  case (PingTick now now2)
  with assms(1) have "ping_tick now now2 l = Some l'" by simp
  then show ?thesis
    by (cases rule: ping_tickE)
      (use assms(3) in \<open>auto simp: unnoticed_def is_connected_def send_outgoing_def dest!: keep_alive_step_effect\<close>)
next
  case (Request req)
  with assms(1) have "link_request K req l = Done (Some l')" by simp
  moreover have "client_inv (link_client l)" using assms(2) by (simp add: link_ok_def)
  ultimately show ?thesis
    using assms(3)
    by (elim link_requestE) (auto simp: unnoticed_def is_connected_def request_post_def untouched_def dest!: req.post)
next
  case Finish
  with assms(1,3) show ?thesis by (auto simp: unnoticed_def finish_link_def finish_connect_connects split: option.splits)
next
  case Supervise
  with assms(1,3) show ?thesis by (auto simp: unnoticed_def supervise_def split: if_splits)
next
  case (WriteReturns r)
  with assms(1) have w: "write_returns r l = Some l'" by simp
  then have "connect_status (link_client l') = connect_status (link_client l)"
    by (auto simp: write_returns_def split: writer_status.splits prod.splits dest: write_step_status)
  with w assms(3) show ?thesis
    by (auto simp: unnoticed_def is_connected_def write_returns_def split: writer_status.splits prod.splits)
next
  case (ReadFrame f)
  with assms(4) show ?thesis by simp
qed (use assms(1,3) in \<open>auto simp: unnoticed_def send_response_def take_message_def take_outgoing_def
    split: if_splits list.splits reader_status.splits writer_status.splits\<close>)

lemma timed_run_unnoticed:
  "timed_run K lag delay T evs T' \<Longrightarrow> timed_ok lag delay dur T \<Longrightarrow> unnoticed (timed_link T) \<Longrightarrow> unheard evs \<Longrightarrow>
     unnoticed (timed_link T')"
proof (induction rule: timed_run.induct)
  case (timed_next T evs T1 ev T2)
  have ok: "link_ok (timed_link T1)" using timed_run_ok[OF timed_next.hyps(1) timed_next.prems(1)] by (simp add: timed_ok_def Let_def)
  have was: "unnoticed (timed_link T1)" "\<not> from_server ev" using timed_next by (simp_all add: unheard_def)
  show ?case
  proof (cases ev)
    case (Elapse d)
    with timed_next.hyps(2) was show ?thesis by (auto split: if_splits)
  next
    case (Act a)
    from timed_next.hyps(2)[unfolded Act] show ?thesis
      by (cases rule: timed_actE) (use link_step_unnoticed[OF _ ok was(1)] was(2) Act in \<open>simp del: link_step.simps\<close>)
  qed
qed simp

text \<open>
  C27. With a keep-alive time that is not zero the client never notices that a server has gone silent: with no frame from the server, the connection stays up and
  the client reports itself connected, whatever the caller and the tasks do and however long it takes; and it can take as
  long as one likes, with the client writing packets (its pings at the latest) no further apart than the keep-alive time
  with the delays, all of them unanswered.
\<close>

theorem silent_server_goes_unnoticed:
  assumes "client_inv c" and "outgoing_tx c \<noteq> None" and "outgoing c = []" and "0 < opt_keep_alive (options c)"
  shows "(\<forall>evs T. timed_run K lag delay (timed_open sp t c) evs T \<and> unheard evs \<and> finishing (timed_link T) = None \<longrightarrow>
      is_connected (link_client (timed_link T)) \<and> supervising (timed_link T) \<and> reader (timed_link T) = Reading) \<and>
    (\<exists>evs T. timed_run K lag delay (timed_open sp t c) evs T \<and> unheard evs \<and> finishing (timed_link T) = None \<and>
      last_sent_packet_at c + n \<le> clock T \<and> clock T \<le> sent_at (timed_link T) + opt_keep_alive (options c) + lag + delay)"
proof
  let ?T0 = "timed_open sp t c" let ?l0 = "link_open sp t c"
  note ok = timed_ok_open[OF assms(1-3), of lag delay sp t]
  have start: "unnoticed (timed_link ?T0)" by (simp add: unnoticed_def timed_open_def link_open_def Let_def)
  show "\<forall>evs T. timed_run K lag delay ?T0 evs T \<and> unheard evs \<and> finishing (timed_link T) = None \<longrightarrow>
      is_connected (link_client (timed_link T)) \<and> supervising (timed_link T) \<and> reader (timed_link T) = Reading"
    using timed_run_unnoticed[OF _ ok start] by (auto simp: unnoticed_def)
  let ?T1 = "?T0\<lparr>timed_link := ?l0\<lparr>link_client := finish_connect sp t c, finishing := None\<rparr>\<rparr>"
  have "timed_step K lag delay (Act Finish) ?T0 = Done (Some ?T1)"
    by (simp add: timed_open_def Let_def link_open_def finish_link_def)
  from timed_run.timed_next[OF timed_run.timed_refl this] have run1: "timed_run K lag delay ?T0 [Act Finish] ?T1" by simp
  have T1: "supervising (timed_link ?T1)" "writer (timed_link ?T1) \<noteq> WriteEnded" by (simp_all add: link_open_def)
  obtain evs T where run: "timed_run K lag delay ?T1 evs T" "unheard evs" "clock T = last_sent_packet_at c + n" "goes_on ?T1 T"
    using time_goes_on[OF timed_run_ok[OF run1 ok] assms(4) T1, of K n] by (auto simp: timed_open_def Let_def)
  have all: "timed_run K lag delay ?T0 ([Act Finish] @ evs) T" by (rule timed_run_append[OF run(1) run1])
  have "supervising (timed_link T)" "writer (timed_link T) \<noteq> WriteEnded" "finishing (timed_link T) = None"
    using run(4) T1 by (simp_all add: goes_on_def same_tasks_def)
  with all run(2,3) silence_bounded[OF timed_run_ok[OF all ok]]
  show "\<exists>evs T. timed_run K lag delay ?T0 evs T \<and> unheard evs \<and> finishing (timed_link T) = None \<and>
      last_sent_packet_at c + n \<le> clock T \<and> clock T \<le> sent_at (timed_link T) + opt_keep_alive (options c) + lag + delay"
    by (intro exI[of _ "[Act Finish] @ evs"] exI[of _ T]) (simp add: unheard_def)
qed

lemma silent_server_goes_unnoticed_witness:
  "\<exists>evs T. timed_run sample_libs 0 (from_secs 1) (timed_open False 0 sample_timed_client) evs T \<and> unheard evs \<and>
     from_secs 100 \<le> clock T \<and> clock T \<le> sent_at (timed_link T) + from_secs 11 \<and> is_connected (link_client (timed_link T))"
proof -
  have alive: "opt_keep_alive (options sample_timed_client) = from_secs 10"
    by (simp add: sample_timed_client_view(4) set_keep_alive_def)
  then have "0 < opt_keep_alive (options sample_timed_client)" by (simp add: from_secs_def)
  note silent = silent_server_goes_unnoticed[OF sample_timed_client_view(1-3) this, of sample_libs 0 "from_secs 1" False 0 "from_secs 100"]
  from conjunct2[OF silent] obtain evs T where
    "timed_run sample_libs 0 (from_secs 1) (timed_open False 0 sample_timed_client) evs T" "unheard evs"
    "finishing (timed_link T) = None" "from_secs 100 \<le> clock T" "clock T \<le> sent_at (timed_link T) + from_secs 11"
    by (auto simp: alive sample_timed_client_view(5) from_secs_def)
  with conjunct1[OF silent] show ?thesis by blast
qed

end
