(* ===== verification/Token_Errors.thy ===== *)
theory Token_Errors
  imports Tokens
begin

section \<open>The texts and sources of errors\<close>

text \<open>
  \<^verbatim>\<open>src/src/token/mod.rs\<close>: the text each \<open>TokenError\<close> is displayed with, and the conversions of library errors
  into it, which take the library's text for its error.
\<close>

subsection \<open>Display\<close>

text \<open>The decimal digits of a number, as \<open>u8\<close> is displayed.\<close>

fun decimal :: "nat \<Rightarrow> string" where
  "decimal n = (if n < 10 then [char_of (48 + n)] else decimal (n div 10) @ [char_of (48 + n mod 10)])"

declare decimal.simps [simp del]

fun error_text :: "token_error \<Rightarrow> string" where
  "error_text (IOError e) = ''IO Error: '' @ e"
| "error_text ConnectTimeout = ''Connect Timeout''"
| "error_text NetworkUnreachable = ''Network Unreachable''"
| "error_text (ConnectError e) = ''Connect Error: '' @ e"
| "error_text (ConnectFailed code) = ''Connect Failed, return code: ('' @ decimal (unat code) @ '')''"
| "error_text ConnectionLost = ''Connection Lost''"
| "error_text Reconnecting = ''Client Reconnecting''"
| "error_text (ConnectionError e) = ''Connection Error: '' @ e"
| "error_text InvalidTopic = ''Invalid Topic''"
| "error_text PacketIdError = ''No Packet ID Available''"
| "error_text InternalServerError = ''Internal Server Error''"
| "error_text (PacketError e) = ''Packet Error: '' @ e"

subsection \<open>From\<close>

definition error_from_io :: "string \<Rightarrow> token_error" where
  "error_from_io text = IOError text"

definition error_from_start :: "string \<Rightarrow> token_error" where
  "error_from_start text = ConnectError text"

definition error_from_connection :: "string \<Rightarrow> token_error" where
  "error_from_connection text = ConnectionError text"

subsection \<open>The text tells the error\<close>

definition decimal_value :: "string \<Rightarrow> nat" where
  "decimal_value s = foldl (\<lambda>v c. 10 * v + (of_char c - 48)) 0 s"

lemma decimal_value_decimal: "decimal_value (decimal n) = n"
proof (induction n rule: decimal.induct)
  case (1 n)
  have "of_char (char_of (48 + d) :: char) = 48 + d" if "d < 10" for d :: nat
    using that by simp
  with 1 show ?case by (subst decimal.simps) (simp add: decimal_value_def)
qed

lemma decimal_inj: "decimal m = decimal n \<longleftrightarrow> m = n"
  by (metis decimal_value_decimal)

text \<open>
  No two errors are displayed with the same text: the text of an error, its code included, tells which error it is.
\<close>

lemma error_texts_differ: "error_text e = error_text e' \<longleftrightarrow> e = e'"
proof -
  have "unat c = unat d \<longleftrightarrow> c = d" for c d :: u8 by (simp add: word_unat_eq_iff)
  then show ?thesis by (cases e; cases e') (simp_all add: decimal_inj)
qed

end
