(* ===== verification/Ws_Stream.thy ===== *)
theory Ws_Stream
  imports Tokens
begin

section \<open>A byte stream over WebSocket messages\<close>

text \<open>
  \<^verbatim>\<open>src/src/ws_stream.rs\<close>: \<open>WsByteStream\<close> turns the binary messages of a WebSocket stream into the
  byte stream the MQTT codec reads and writes. The inner stream is a library: what its
  \<open>poll_next\<close> will answer is the list \<open>incoming\<close>, one answer per call (a list that ends is pending
  for ever), and what the sink answers is an argument of the writing operations. The error texts of the library are opaque.
\<close>

datatype ws_message = Binary "u8 list" | Close | OtherMessage

datatype ws_error = WsIo string | WsConnectionClosed | WsAlreadyClosed | WsOther string

datatype io_error = IoPassed string | NotConnected string | OtherIo string

datatype ws_next = NextPending | NextEnd | NextOk ws_message | NextErr ws_error

datatype ws_read_state = ReadPending | ReadReady "u8 list" nat | ReadTerminated

datatype ws_write_state = WriteReady | WriteClosed

record ws_stream =
  incoming :: "ws_next list"
  ws_read :: ws_read_state
  ws_write :: ws_write_state
  ws_sent :: "ws_message list"

definition ws_new :: "ws_next list \<Rightarrow> ws_stream" where
  "ws_new xs = \<lparr>incoming = xs, ws_read = ReadPending, ws_write = WriteReady, ws_sent = []\<rparr>"

subsection \<open>Reading\<close>

text \<open>
  The loop of \<open>fill_buf_with_next_msg\<close> over the answers of \<open>poll_next\<close>: its result, the answers
  left, and the read state.
\<close>

fun fill_loop ::
  "ws_next list \<Rightarrow> ws_read_state \<Rightarrow> (io_error + unit) option poll \<times> ws_next list \<times> ws_read_state" where
  "fill_loop [] st = (Pending, [], st)"
| "fill_loop (NextPending # xs) st = (Pending, xs, st)"
| "fill_loop (NextEnd # xs) st = (Ready None, xs, ReadTerminated)"
| "fill_loop (NextOk (Binary msg) # xs) st = (Ready (Some (Inr ())), xs, ReadReady msg 0)"
| "fill_loop (NextOk Close # xs) st = (Ready None, xs, ReadTerminated)"
| "fill_loop (NextOk OtherMessage # xs) st = fill_loop xs st"
| "fill_loop (NextErr (WsIo e) # xs) st = (Ready (Some (Inl (IoPassed e))), xs, st)"
| "fill_loop (NextErr WsConnectionClosed # xs) st = (Ready None, xs, ReadTerminated)"
| "fill_loop (NextErr WsAlreadyClosed # xs) st =
     (Ready (Some (Inl (NotConnected ''Already closed''))), xs, ReadTerminated)"
| "fill_loop (NextErr (WsOther e) # xs) st = (Ready (Some (Inl (OtherIo e))), xs, st)"

definition fill_buf_with_next_msg :: "ws_stream \<Rightarrow> (io_error + unit) option poll \<times> ws_stream" where
  "fill_buf_with_next_msg s =
     (let (r, xs, st) = fill_loop (incoming s) (ws_read s) in (r, s\<lparr>incoming := xs, ws_read := st\<rparr>))"

text \<open>The slice \<open>&data[k..]\<close> panics past the end.\<close>

definition slice_from :: "'a list \<Rightarrow> nat \<Rightarrow> 'a list outcome" where
  "slice_from xs k = (if k \<le> length xs then Done (drop k xs) else Panic)"

text \<open>The loop of \<open>poll_read\<close> goes round again only with a read state that is not \<open>Pending\<close>.\<close>

lemma fill_loop_leaves_pending:
  "fill_loop xs st = (Ready None, ys, st') \<Longrightarrow> st' = ReadTerminated"
  "fill_loop xs st = (Ready (Some (Inr u)), ys, st') \<Longrightarrow> \<exists>d. st' = ReadReady d 0"
  by (induction xs st rule: fill_loop.induct) auto

definition reading :: "ws_stream \<Rightarrow> nat" where
  "reading s = (if ws_read s = ReadPending then 1 else 0)"

lemma fill_buf_reading:
  "fill_buf_with_next_msg s = (Ready None, s') \<Longrightarrow> reading s' = 0"
  "fill_buf_with_next_msg s = (Ready (Some (Inr u)), s') \<Longrightarrow> reading s' = 0"
  by (auto simp: fill_buf_with_next_msg_def reading_def split: prod.splits
      dest: fill_loop_leaves_pending)

text \<open>
  \<open>poll_read\<close> into a buffer with \<open>n\<close> bytes remaining: the bytes put into it, or the error.
\<close>

function poll_read :: "nat \<Rightarrow> ws_stream \<Rightarrow> ((io_error + u8 list) poll \<times> ws_stream) outcome" where
  "poll_read n s =
     (case ws_read s of
        ReadPending \<Rightarrow>
          (case fill_buf_with_next_msg s of
             (Pending, s') \<Rightarrow> Done (Pending, s')
           | (Ready (Some (Inr u)), s') \<Rightarrow> poll_read n s'
           | (Ready (Some (Inl e)), s') \<Rightarrow> Done (Ready (Inl e), s')
           | (Ready None, s') \<Rightarrow> poll_read n s')
      | ReadReady data amt_read \<Rightarrow>
          bind_outcome (slice_from data amt_read)
            (\<lambda>data_in. let len = min n (length data_in) in
               Done (Ready (Inr (take len data_in)),
                 s\<lparr>ws_read := if len = length data_in then ReadPending
                              else ReadReady data (amt_read + len)\<rparr>))
      | ReadTerminated \<Rightarrow> Done (Ready (Inr []), s))"
  by pat_completeness auto
termination
  by (relation "measure (\<lambda>(n, s). reading s)") (auto simp: reading_def dest!: sym[THEN fill_buf_reading(1)] sym[THEN fill_buf_reading(2)] split: if_splits)

text \<open>\<open>poll_fill_buf\<close> returns the unread part of the message without advancing.\<close>

function poll_fill_buf :: "ws_stream \<Rightarrow> ((io_error + u8 list) poll \<times> ws_stream) outcome" where
  "poll_fill_buf s =
     (case ws_read s of
        ReadPending \<Rightarrow>
          (case fill_buf_with_next_msg s of
             (Pending, s') \<Rightarrow> Done (Pending, s')
           | (Ready (Some (Inr u)), s') \<Rightarrow> poll_fill_buf s'
           | (Ready (Some (Inl e)), s') \<Rightarrow> Done (Ready (Inl e), s')
           | (Ready None, s') \<Rightarrow> poll_fill_buf s')
      | ReadReady data amt_read \<Rightarrow>
          bind_outcome (slice_from data amt_read) (\<lambda>data_in. Done (Ready (Inr data_in), s))
      | ReadTerminated \<Rightarrow> Done (Ready (Inr []), s))"
  by pat_completeness auto
termination
  by (relation "measure reading") (auto simp: reading_def dest!: sym[THEN fill_buf_reading(1)] sym[THEN fill_buf_reading(2)] split: if_splits)

declare poll_read.simps [simp del] poll_fill_buf.simps [simp del]

text \<open>\<open>usize\<close> addition: past 64 bits it panics with overflow checks and wraps without.\<close>

definition usize_add :: "bool \<Rightarrow> nat \<Rightarrow> nat \<Rightarrow> nat outcome" where
  "usize_add checks a b =
     (if a + b < 2 ^ 64 then Done (a + b) else if checks then Panic else Done ((a + b) mod 2 ^ 64))"

definition consume :: "bool \<Rightarrow> nat \<Rightarrow> ws_stream \<Rightarrow> ws_stream outcome" where
  "consume checks amt s =
     (case ws_read s of
        ReadReady data amt_read \<Rightarrow>
          bind_outcome (usize_add checks amt_read amt)
            (\<lambda>k. let amt_read' = min (length data) k in
               Done (s\<lparr>ws_read := if amt_read' = length data then ReadPending
                                  else ReadReady data amt_read'\<rparr>))
      | _ \<Rightarrow> Done s)"

subsection \<open>Writing\<close>

text \<open>The sink's answers: \<open>poll_ready\<close>, \<open>poll_flush\<close> and \<open>poll_close\<close> may be pending.\<close>

type_synonym sink_poll = "ws_error option poll"

fun poll_write ::
  "u8 list \<Rightarrow> sink_poll \<Rightarrow> ws_error option \<Rightarrow> ws_stream \<Rightarrow> (io_error + nat) poll \<times> ws_stream" where
  "poll_write buf ready start s =
     (case ws_write s of
        WriteReady \<Rightarrow>
          (case ready of
             Pending \<Rightarrow> (Pending, s)
           | Ready (Some e) \<Rightarrow>
               (case e of
                  WsIo x \<Rightarrow> (Ready (Inl (IoPassed x)), s)
                | WsConnectionClosed \<Rightarrow> (Ready (Inr 0), s\<lparr>ws_write := WriteClosed\<rparr>)
                | WsAlreadyClosed \<Rightarrow>
                    (Ready (Inl (NotConnected ''Already closed'')), s\<lparr>ws_write := WriteClosed\<rparr>)
                | WsOther x \<Rightarrow> (Ready (Inl (OtherIo x)), s))
           | Ready None \<Rightarrow>
               (case start of
                  Some e \<Rightarrow>
                    (case e of
                       WsIo x \<Rightarrow> (Ready (Inl (IoPassed x)), s)
                     | WsConnectionClosed \<Rightarrow> (Ready (Inr 0), s\<lparr>ws_write := WriteClosed\<rparr>)
                     | WsAlreadyClosed \<Rightarrow>
                         (Ready (Inl (NotConnected ''Already closed'')), s\<lparr>ws_write := WriteClosed\<rparr>)
                     | WsOther x \<Rightarrow> (Ready (Inl (OtherIo x)), s))
                | None \<Rightarrow>
                    (Ready (Inr (length buf)),
                     s\<lparr>ws_write := WriteReady, ws_sent := ws_sent s @ [Binary buf]\<rparr>)))
      | WriteClosed \<Rightarrow> (Ready (Inl (NotConnected ''Already closed'')), s))"

fun poll_flush :: "sink_poll \<Rightarrow> ws_stream \<Rightarrow> (io_error + unit) poll \<times> ws_stream" where
  "poll_flush answer s =
     (case answer of
        Pending \<Rightarrow> (Pending, s)
      | Ready (Some e) \<Rightarrow>
          (case e of
             WsIo x \<Rightarrow> (Ready (Inl (IoPassed x)), s)
           | WsConnectionClosed \<Rightarrow> (Ready (Inr ()), s\<lparr>ws_write := WriteClosed\<rparr>)
           | WsAlreadyClosed \<Rightarrow>
               (Ready (Inl (NotConnected ''Already closed'')), s\<lparr>ws_write := WriteClosed\<rparr>)
           | WsOther x \<Rightarrow> (Ready (Inl (OtherIo x)), s))
      | Ready None \<Rightarrow> (Ready (Inr ()), s))"

fun poll_shutdown :: "sink_poll \<Rightarrow> ws_stream \<Rightarrow> (io_error + unit) poll \<times> ws_stream" where
  "poll_shutdown answer s =
     (let s' = s\<lparr>ws_write := WriteClosed\<rparr>
      in case answer of
           Pending \<Rightarrow> (Pending, s')
         | Ready (Some e) \<Rightarrow>
             (case e of
                WsIo x \<Rightarrow> (Ready (Inl (IoPassed x)), s')
              | WsConnectionClosed \<Rightarrow> (Ready (Inr ()), s')
              | WsAlreadyClosed \<Rightarrow> (Ready (Inl (NotConnected ''Already closed'')), s')
              | WsOther x \<Rightarrow> (Ready (Inl (OtherIo x)), s'))
         | Ready None \<Rightarrow> (Ready (Inr ()), s'))"

subsection \<open>The bytes still to be read\<close>

text \<open>The binary payloads up to the end of the inner stream.\<close>

fun ws_payload :: "ws_next list \<Rightarrow> u8 list" where
  "ws_payload [] = []"
| "ws_payload (NextPending # xs) = ws_payload xs"
| "ws_payload (NextEnd # xs) = []"
| "ws_payload (NextOk (Binary msg) # xs) = msg @ ws_payload xs"
| "ws_payload (NextOk Close # xs) = []"
| "ws_payload (NextOk OtherMessage # xs) = ws_payload xs"
| "ws_payload (NextErr (WsIo e) # xs) = ws_payload xs"
| "ws_payload (NextErr WsConnectionClosed # xs) = []"
| "ws_payload (NextErr WsAlreadyClosed # xs) = []"
| "ws_payload (NextErr (WsOther e) # xs) = ws_payload xs"

definition ws_rest :: "ws_stream \<Rightarrow> u8 list" where
  "ws_rest s = (case ws_read s of
      ReadPending \<Rightarrow> ws_payload (incoming s)
    | ReadReady data amt_read \<Rightarrow> drop amt_read data @ ws_payload (incoming s)
    | ReadTerminated \<Rightarrow> [])"

text \<open>\<open>amt_read\<close> is within its message, and messages have lengths a \<open>Vec\<close> can have.\<close>

definition ws_ok :: "ws_stream \<Rightarrow> bool" where
  "ws_ok s \<longleftrightarrow>
     (\<forall>d. NextOk (Binary d) \<in> set (incoming s) \<longrightarrow> length d < 2 ^ 63) \<and>
     (case ws_read s of ReadReady d k \<Rightarrow> k \<le> length d \<and> length d < 2 ^ 63 | _ \<Rightarrow> True)"

lemma ws_ok_new: "(\<forall>d. NextOk (Binary d) \<in> set xs \<longrightarrow> length d < 2 ^ 63) \<Longrightarrow> ws_ok (ws_new xs)"
  by (simp add: ws_ok_def ws_new_def)

text \<open>What one call of the filling loop may do, from the pending state.\<close>

lemma fill_loop_suffix: "fill_loop xs st = (r, ys, st') \<Longrightarrow> set ys \<subseteq> set xs"
  by (induction xs st rule: fill_loop.induct) auto

lemma fill_loop_payload:
  "fill_loop xs ReadPending = (r, ys, st') \<Longrightarrow>
     ws_payload xs = (case st' of ReadPending \<Rightarrow> ws_payload ys | ReadReady d k \<Rightarrow> drop k d @ ws_payload ys
       | ReadTerminated \<Rightarrow> [])"
  by (induction xs "ReadPending" rule: fill_loop.induct) auto

lemma fill_loop_message:
  "fill_loop xs ReadPending = (r, ys, ReadReady d k) \<Longrightarrow> k = 0 \<and> NextOk (Binary d) \<in> set xs"
  by (induction xs "ReadPending" rule: fill_loop.induct) auto

lemma fill_loop_state:
  "fill_loop xs ReadPending = (Pending, ys, st') \<Longrightarrow> st' = ReadPending"
  by (induction xs "ReadPending" rule: fill_loop.induct) auto

lemma fill_buf_keeps:
  assumes "ws_ok s" and "ws_read s = ReadPending" and "fill_buf_with_next_msg s = (r, s')"
  shows "ws_ok s' \<and> ws_rest s' = ws_rest s \<and> ws_write s' = ws_write s \<and> ws_sent s' = ws_sent s"
proof -
  obtain xs st where loop: "fill_loop (incoming s) ReadPending = (r, xs, st)"
    and s': "s' = s\<lparr>incoming := xs, ws_read := st\<rparr>"
    using assms(2,3) by (auto simp: fill_buf_with_next_msg_def split: prod.splits)
  have "ws_ok s'"
    using assms(1) fill_loop_suffix[OF loop] fill_loop_message[of "incoming s" r xs] loop
    unfolding s' by (cases st) (fastforce simp: ws_ok_def)+
  with fill_loop_payload[OF loop] assms(2) show ?thesis
    by (cases st) (simp_all add: s' ws_rest_def)
qed

lemma poll_read_ready:
  assumes "ws_read s = ReadReady d k" and "k \<le> length d"
  shows "poll_read n s = Done (Ready (Inr (take n (drop k d))),
    s\<lparr>ws_read := if length d - k \<le> n then ReadPending else ReadReady d (k + n)\<rparr>)"
  using assms by (subst poll_read.simps) (auto simp: slice_from_def Let_def min_def)

lemma poll_read_terminated: "ws_read s = ReadTerminated \<Longrightarrow> poll_read n s = Done (Ready (Inr []), s)"
  by (subst poll_read.simps) simp

lemma poll_read_pending:
  assumes "ws_read s = ReadPending"
  shows "poll_read n s = (case fill_buf_with_next_msg s of
      (Pending, s') \<Rightarrow> Done (Pending, s')
    | (Ready (Some (Inl e)), s') \<Rightarrow> Done (Ready (Inl e), s')
    | (_, s') \<Rightarrow> poll_read n s')"
  using assms by (subst poll_read.simps) (auto split: prod.split poll.split option.split sum.split)

text \<open>Reading through \<open>poll_fill_buf\<close> and \<open>consume\<close>, as a buffered reader does.\<close>

definition buffered_read ::
  "bool \<Rightarrow> nat \<Rightarrow> ws_stream \<Rightarrow> ((io_error + u8 list) poll \<times> ws_stream) outcome" where
  "buffered_read checks n s =
     bind_outcome (poll_fill_buf s)
       (\<lambda>(r, s'). case r of
          Ready (Inr bs) \<Rightarrow>
            bind_outcome (consume checks (min n (length bs)) s')
              (\<lambda>s''. Done (Ready (Inr (take n bs)), s''))
        | _ \<Rightarrow> Done (r, s'))"

lemma buffered_settled:
  assumes "ws_ok s" and "ws_read s \<noteq> ReadPending"
  shows "buffered_read checks n s = poll_read n s"
proof (cases "ws_read s")
  case (ReadReady d k)
  with assms(1) have k: "k \<le> length d" "length d < 2 ^ 63" by (auto simp: ws_ok_def)
  have fill: "poll_fill_buf s = Done (Ready (Inr (drop k d)), s)"
    using ReadReady k by (subst poll_fill_buf.simps) (simp add: slice_from_def)
  have "usize_add checks k (min n (length d - k)) = Done (k + min n (length d - k))"
  proof -
    have "k + min n (length d - k) \<le> length d" using k by auto
    with k(2) have "k + min n (length d - k) < 2 ^ 64" by simp
    then show ?thesis by (simp only: usize_add_def if_True)
  qed
  with ReadReady k show ?thesis
    by (auto simp: buffered_read_def fill consume_def poll_read_ready Let_def min_def)
next
  case ReadTerminated
  then have "poll_fill_buf s = Done (Ready (Inr []), s)" by (subst poll_fill_buf.simps) simp
  with ReadTerminated show ?thesis
    by (simp add: buffered_read_def consume_def poll_read_terminated)
qed (use assms in simp)

lemma buffered_pending:
  assumes "ws_read s = ReadPending"
  shows "buffered_read checks n s = (case fill_buf_with_next_msg s of
      (Pending, s') \<Rightarrow> Done (Pending, s')
    | (Ready (Some (Inl e)), s') \<Rightarrow> Done (Ready (Inl e), s')
    | (_, s') \<Rightarrow> buffered_read checks n s')"
  using assms unfolding buffered_read_def
  by (subst poll_fill_buf.simps) (auto split: prod.split poll.split option.split sum.split)

subsection \<open>Byte sources\<close>

text \<open>
  What a reader of the stream relies on: a read returns, takes the next bytes in order, at most as
  many as asked for, and leaves the others.
\<close>

fun got :: "(io_error + u8 list) poll \<Rightarrow> u8 list" where
  "got (Ready (Inr bs)) = bs"
| "got _ = []"

fun read_all ::
  "(nat \<Rightarrow> 's \<Rightarrow> ((io_error + u8 list) poll \<times> 's) outcome) \<Rightarrow> nat list \<Rightarrow> 's \<Rightarrow>
   ((io_error + u8 list) poll list \<times> 's) outcome" where
  "read_all rd [] s = Done ([], s)"
| "read_all rd (n # ns) s =
     bind_outcome (rd n s) (\<lambda>(r, s1). bind_outcome (read_all rd ns s1) (\<lambda>(rs, s2). Done (r # rs, s2)))"

locale byte_source =
  fixes rd :: "nat \<Rightarrow> 's \<Rightarrow> ((io_error + u8 list) poll \<times> 's) outcome"
    and rest :: "'s \<Rightarrow> u8 list"
    and ok :: "'s \<Rightarrow> bool"
  assumes conserves: "ok s \<Longrightarrow> \<exists>r s'. rd n s = Done (r, s') \<and> ok s' \<and> rest s = got r @ rest s' \<and> length (got r) \<le> n"
begin

lemma read_all_conserves:
  "ok s \<Longrightarrow> \<exists>rs s'. read_all rd ns s = Done (rs, s') \<and> ok s' \<and> length rs = length ns \<and>
     rest s = concat (map got rs) @ rest s' \<and> list_all2 (\<lambda>r n. length (got r) \<le> n) rs ns"
proof (induction ns arbitrary: s)
  case (Cons n ns)
  from conserves[OF Cons.prems] obtain r s1 where
    1: "rd n s = Done (r, s1)" "ok s1" "rest s = got r @ rest s1" "length (got r) \<le> n" by blast
  from Cons.IH[OF 1(2)] 1 show ?case by auto
qed simp

lemma read_all_never_panics: "ok s \<Longrightarrow> read_all rd ns s \<noteq> Panic"
  using read_all_conserves[of s ns] by auto

end

lemma poll_read_settled:
  assumes "ws_ok s" and "ws_read s \<noteq> ReadPending"
  shows "\<exists>r s'. poll_read n s = Done (r, s') \<and> ws_ok s' \<and> ws_rest s = got r @ ws_rest s' \<and> length (got r) \<le> n"
proof (cases "ws_read s")
  case (ReadReady d k)
  with assms(1) have "k \<le> length d" by (simp add: ws_ok_def)
  moreover have "take n (drop k d) @ drop (k + n) d = drop k d"
    by (metis add.commute append_take_drop_id drop_drop)
  ultimately show ?thesis
    using assms(1) ReadReady
    by (auto simp: poll_read_ready ws_ok_def ws_rest_def simp flip: append_assoc)
next
  case ReadTerminated
  with assms show ?thesis by (simp add: poll_read_terminated)
qed (use assms in simp)

text \<open>The step from the pending state: what is left of the call after filling once.\<close>

lemma fill_buf_cases:
  assumes "ws_ok s" and "ws_read s = ReadPending"
  obtains s' where "ws_ok s'" "ws_rest s' = ws_rest s" "ws_read s' \<noteq> ReadPending"
      "\<And>n. poll_read n s = poll_read n s'"
      "\<And>checks n. buffered_read checks n s = buffered_read checks n s'"
  | r s' where "ws_ok s'" "ws_rest s' = ws_rest s" "got r = []"
      "\<And>n. poll_read n s = Done (r, s')"
      "\<And>checks n. buffered_read checks n s = Done (r, s')"
proof -
  obtain r s' where fill: "fill_buf_with_next_msg s = (r, s')" by (cases "fill_buf_with_next_msg s")
  note keeps = fill_buf_keeps[OF assms fill]
  note eqs = poll_read_pending[OF assms(2)] buffered_pending[OF assms(2)]
  have settled: "r = Ready None \<or> r = Ready (Some (Inr ())) \<Longrightarrow> ws_read s' \<noteq> ReadPending"
    using fill_buf_reading(1)[of s s'] fill_buf_reading(2)[of s "()" s'] fill by (auto simp: reading_def split: if_splits)
  show ?thesis
  proof (cases r)
    case (Ready x)
    show ?thesis
    proof (cases x)
      case None
      with Ready that(1)[of s'] settled keeps fill show ?thesis by (simp add: eqs)
    next
      case (Some y)
      show ?thesis
      proof (cases y)
        case (Inl e)
        with Ready Some that(2)[of s' "Ready (Inl e)"] keeps fill show ?thesis by (simp add: eqs)
      next
        case (Inr u)
        with Ready Some that(1)[of s'] settled keeps fill show ?thesis by (simp add: eqs)
      qed
    qed
  next
    case Pending
    with that(2)[of s' Pending] keeps fill show ?thesis by (simp add: eqs)
  qed
qed

lemma buffered_read_eq: "ws_ok s \<Longrightarrow> buffered_read checks n s = poll_read n s"
proof (cases "ws_read s = ReadPending")
  case True
  assume "ws_ok s"
  from this True show ?thesis
    by (cases rule: fill_buf_cases) (simp_all add: buffered_settled)
qed (rule buffered_settled)

lemma poll_read_conserves:
  assumes "ws_ok s"
  shows "\<exists>r s'. poll_read n s = Done (r, s') \<and> ws_ok s' \<and> ws_rest s = got r @ ws_rest s' \<and> length (got r) \<le> n"
proof (cases "ws_read s = ReadPending")
  case True
  with assms show ?thesis
  proof (cases rule: fill_buf_cases)
    case (1 s')
    with poll_read_settled[of s' n] show ?thesis by simp
  qed simp
qed (use assms poll_read_settled in simp)

interpretation direct: byte_source poll_read ws_rest ws_ok
  by unfold_locales (rule poll_read_conserves)

interpretation buffered: byte_source "buffered_read checks" ws_rest ws_ok for checks
  by unfold_locales (simp add: buffered_read_eq poll_read_conserves)

subsection \<open>Properties\<close>

text \<open>
  C22. No byte is lost, repeated or reordered: over any sequence of reads into buffers of any sizes, the
  bytes read, followed by those still to come, are the binary payloads of the stream up to its end; no read
  overruns its buffer and none panics.
\<close>

theorem poll_read_conserves_bytes:
  assumes "ws_ok s"
  shows "\<exists>rs s'. read_all poll_read ns s = Done (rs, s') \<and> ws_ok s' \<and>
    ws_rest s = concat (map got rs) @ ws_rest s' \<and>
    list_all2 (\<lambda>r n. length (got r) \<le> n) rs ns"
  using direct.read_all_conserves[OF assms, of ns] by blast

text \<open>
  The two reading interfaces agree: looking at the buffer and consuming what was taken of it
  is \<open>poll_read\<close>, in result and state, with or without overflow checks.
\<close>

lemma fill_and_consume_is_poll_read:
  assumes "ws_ok s"
  shows "bind_outcome (poll_fill_buf s)
      (\<lambda>(r, s'). case r of
         Ready (Inr bs) \<Rightarrow>
           bind_outcome (consume checks (min n (length bs)) s') (\<lambda>s''. Done (Ready (Inr (take n bs)), s''))
       | _ \<Rightarrow> Done (r, s')) = poll_read n s"
  using buffered_read_eq[OF assms] by (simp add: buffered_read_def)

text \<open>
  C39. An empty binary message reads as the end of the stream: a read into a buffer with room
  returns zero bytes although the payloads after it are still to come.
\<close>

theorem empty_message_reads_as_end:
  assumes "ws_read s = ReadPending" and "incoming s = NextOk (Binary []) # xs" and "0 < n"
  shows "\<exists>s'. poll_read n s = Done (Ready (Inr []), s') \<and> ws_read s' = ReadPending \<and>
    incoming s' = xs \<and> ws_rest s' = ws_payload xs \<and> ws_rest s = ws_payload xs"
proof -
  have "poll_read n s = poll_read n (s\<lparr>incoming := xs, ws_read := ReadReady [] 0\<rparr>)"
    using assms by (simp add: poll_read_pending fill_buf_with_next_msg_def)
  then show ?thesis
    using assms by (simp add: poll_read_ready ws_rest_def)
qed

definition no_empty_message :: "ws_stream \<Rightarrow> bool" where
  "no_empty_message s \<longleftrightarrow>
     NextOk (Binary []) \<notin> set (incoming s) \<and>
     (case ws_read s of ReadReady d k \<Rightarrow> k < length d | _ \<Rightarrow> True)"

lemma settled_read_end:
  assumes "no_empty_message s" and "ws_ok s" and "ws_read s \<noteq> ReadPending" and "0 < n"
    and "poll_read n s = Done (Ready (Inr []), s')"
  shows "ws_read s' = ReadTerminated"
  using assms
  by (cases "ws_read s") (auto simp: no_empty_message_def poll_read_ready poll_read_terminated)

text \<open>
  Apart from empty messages a read of zero bytes means the end: where no binary message is
  empty, a read into a buffer with room that returns no byte leaves the stream terminated, nothing was left to
  read, and every later read returns no byte either.
\<close>

lemma zero_bytes_mean_end:
  assumes "no_empty_message s" and "ws_ok s" and "0 < n"
    and "poll_read n s = Done (Ready (Inr []), s')"
  shows "ws_read s' = ReadTerminated \<and> ws_rest s = [] \<and> poll_read m s' = Done (Ready (Inr []), s')"
proof -
  have ended: "ws_read s' = ReadTerminated"
  proof (cases "ws_read s = ReadPending")
    case False
    from settled_read_end[OF assms(1,2) this assms(3,4)] show ?thesis .
  next
    case True
    obtain r s1 where fill: "fill_buf_with_next_msg s = (r, s1)" by (cases "fill_buf_with_next_msg s")
    then obtain xs st where loop: "fill_loop (incoming s) ReadPending = (r, xs, st)"
      and s1: "s1 = s\<lparr>incoming := xs, ws_read := st\<rparr>"
      using True by (auto simp: fill_buf_with_next_msg_def split: prod.splits)
    have "no_empty_message s1"
      using assms(1) fill_loop_suffix[OF loop] fill_loop_message[of "incoming s" r xs] loop
      unfolding s1 no_empty_message_def by (cases st) fastforce+
    moreover have "r = Ready None \<or> r = Ready (Some (Inr ()))"
      using assms(4) poll_read_pending[OF True, of n] fill
      by (auto split: poll.splits option.splits sum.splits)
    moreover from this have "ws_read s1 \<noteq> ReadPending" and "poll_read n s = poll_read n s1"
      using fill_buf_reading(1)[of s s1] fill_buf_reading(2)[of s "()" s1] fill poll_read_pending[OF True, of n]
      by (auto simp: reading_def split: if_splits)
    moreover have "ws_ok s1" using fill_buf_keeps[OF assms(2) True fill] by simp
    ultimately show ?thesis using settled_read_end[of s1 n s'] assms(3,4) by simp
  qed
  have "ws_rest s = []"
    using poll_read_conserves[OF assms(2), of n] assms(4) ended by (auto simp: ws_rest_def)
  with ended show ?thesis by (simp add: poll_read_terminated)
qed

subsection \<open>Runs of writes\<close>

text \<open>Each write with its buffer and the sink's answers.\<close>

fun write_all ::
  "(u8 list \<times> sink_poll \<times> ws_error option) list \<Rightarrow> ws_stream \<Rightarrow> (io_error + nat) poll list \<times> ws_stream" where
  "write_all [] s = ([], s)"
| "write_all ((buf, ready, start) # ws) s =
     (let (r, s1) = poll_write buf ready start s; (rs, s2) = write_all ws s1 in (r # rs, s2))"

text \<open>The bytes a result reports as taken from its buffer, and the bytes of the messages sent.\<close>

fun reported :: "u8 list \<Rightarrow> (io_error + nat) poll \<Rightarrow> u8 list" where
  "reported buf (Ready (Inr k)) = take k buf"
| "reported buf _ = []"

fun message_bytes :: "ws_message \<Rightarrow> u8 list" where
  "message_bytes (Binary bs) = bs"
| "message_bytes _ = []"

definition sent_bytes :: "ws_stream \<Rightarrow> u8 list" where
  "sent_bytes s = concat (map message_bytes (ws_sent s))"

lemma poll_write_bytes:
  "poll_write buf ready start s = (r, s') \<Longrightarrow> sent_bytes s' = sent_bytes s @ reported buf r"
  by (auto simp: sent_bytes_def split: ws_write_state.splits poll.splits option.splits ws_error.splits)

lemma poll_write_closed:
  "ws_write s = WriteClosed \<Longrightarrow>
     poll_write buf ready start s = (Ready (Inl (NotConnected ''Already closed'')), s)"
  by simp

declare poll_write.simps [simp del]

lemma write_all_bytes:
  "write_all ws s = (rs, s') \<Longrightarrow>
     sent_bytes s' = sent_bytes s @ concat (map2 (\<lambda>w r. reported (fst w) r) ws rs) \<and> length rs = length ws"
proof (induction ws arbitrary: s rs s')
  case (Cons w ws)
  obtain buf ready start where w: "w = (buf, ready, start)" by (cases w)
  obtain r s1 where step: "poll_write buf ready start s = (r, s1)" by (cases "poll_write buf ready start s")
  obtain rs' s2 where rest: "write_all ws s1 = (rs', s2)" by (cases "write_all ws s1")
  with Cons.prems w step have "rs = r # rs'" "s' = s2" by simp_all
  with Cons.IH[OF rest] poll_write_bytes[OF step] w show ?case by simp
qed simp

lemma write_all_closed:
  "ws_write s = WriteClosed \<Longrightarrow>
     write_all ws s = (replicate (length ws) (Ready (Inl (NotConnected ''Already closed''))), s)"
  by (induction ws) (auto simp: poll_write_closed)

text \<open>
  C33. What writers are told is what was sent: over any sequence of writes, whatever the sink
  answers, the bytes of the messages handed to the sink are exactly the bytes the results report as
  written, in order.
\<close>

theorem writes_send_reported_bytes:
  "sent_bytes (snd (write_all ws s)) =
     sent_bytes s @ concat (map2 (\<lambda>w r. reported (fst w) r) ws (fst (write_all ws s)))"
  using write_all_bytes[of ws s "fst (write_all ws s)" "snd (write_all ws s)"] by simp

text \<open>
  After a shutdown, even one still pending, every write fails with \<open>NotConnected\<close>, nothing more
  is handed to the sink, and the stream stays closed.
\<close>

lemma shutdown_refuses_writes:
  "write_all ws (snd (poll_shutdown answer s)) =
     (replicate (length ws) (Ready (Inl (NotConnected ''Already closed''))), s\<lparr>ws_write := WriteClosed\<rparr>)"
proof -
  have "snd (poll_shutdown answer s) = s\<lparr>ws_write := WriteClosed\<rparr>"
    by (simp add: Let_def split: poll.split option.split ws_error.split)
  then show ?thesis by (simp only:) (simp add: write_all_closed)
qed

subsection \<open>Witnesses\<close>

definition sample_stream :: ws_stream where
  "sample_stream = ws_new [NextOk OtherMessage, NextOk (Binary [1, 2, 3]), NextPending, NextEnd]"

lemma sample_stream_ok: "ws_ok sample_stream" "no_empty_message sample_stream"
  by (simp_all add: sample_stream_def no_empty_message_def ws_new_def ws_ok_def)

lemma poll_read_conserves_bytes_witness:
  "\<exists>rs s'. read_all poll_read [2, 5] sample_stream = Done (rs, s') \<and> [1, 2, 3] = concat (map got rs) @ ws_rest s'"
  using poll_read_conserves_bytes[OF sample_stream_ok(1), of "[2, 5]"]
  by (auto simp: sample_stream_def ws_new_def ws_rest_def)

lemma empty_message_reads_as_end_witness:
  "\<exists>s'. poll_read 8 (ws_new [NextOk (Binary []), NextOk (Binary [7])]) = Done (Ready (Inr []), s') \<and>
     ws_rest s' = [7]"
  using empty_message_reads_as_end[of "ws_new [NextOk (Binary []), NextOk (Binary [7])]" "[NextOk (Binary [7])]" 8]
  by (auto simp: ws_new_def)

end
