(* ===== verification/Spec2Isabelle.thy ===== *)
theory Spec2Isabelle
  imports Client_Transport Handlers Session_Recovery Silent_Server Token_Errors Ws_Stream
begin

text \<open>
  A verification library for the MQTT 3.1.1 client \<^verbatim>\<open>mesquitte-client\<close> (Rust, \<^verbatim>\<open>src/src\<close>).

  The program. A \<open>MqttClient\<close> connects over a transport, hands requests to a write task through a
  channel, and lets a read task complete them from the server's answers. What they share is the
  struct \<open>State\<close>: the table of packet identifiers in use with the token of each operation, the topic
  manager that finds the callbacks of a message, the subscriptions to renew after a lost session,
  and the level 2 packets parked until their PUBREL. A token is a future that the operation's end completes.

  Theories, in the order of import:
  \<^item> \<open>Prelude\<close>: integer widths, panics, the containers of the standard library.
  \<^item> \<open>Codec\<close> (message.rs): the types of the codec and the library functions as parameters, with their laws.
  \<^item> \<open>Topic_Store\<close> (topic_store.rs): the trait as the locale \<open>topic_store\<close>, the reference matching.
  \<^item> \<open>Topic_Trie\<close> (topic_trie.rs): the trie, its interpretation of the locale, the topic manager and its
    refinement of a table from filters to subscriptions.
  \<^item> \<open>Tokens\<close> (token/): token cells in an explicit store; the trait \<open>Tokenize\<close> as the locales
    \<open>completion\<close> and \<open>tokenize\<close>.
  \<^item> \<open>Packet_Ids\<close> (pkid.rs): the identifier table, the search loop as a scan in cyclic order, the locale \<open>id_pool\<close>.
  \<^item> \<open>Client_State\<close> (state.rs): the shared state and its invariant \<open>state_inv\<close>.
  \<^item> \<open>Net\<close> (net.rs): packet handlers, read loop, write loop, keep-alive loop.
  \<^item> \<open>Options\<close> (options.rs) and \<open>Client_Ops\<close> (client.rs): the operations of the client.
  \<^item> \<open>Client_Contract\<close>: what every request promises, as the locale \<open>client_request\<close> with an interpretation
    for each operation; \<open>Client_Requests\<close> and \<open>Client_Connect\<close>: the operations branch by branch, and runs of them.
  \<^item> \<open>System\<close>: the client and its tasks as one step relation with its invariants: the client's, and that no
    identifier outlives its connection; \<open>Block_Loop\<close>: the loop \<open>block\<close> as a state machine.
  \<^item> \<open>Connection\<close>: the tasks of one connection with the channels between them and the task that supervises
    them, as a step function over interleaved events, refining the relation of \<open>System\<close>; \<open>Accounting\<close>: who will
    complete each pending request of a connection.
  \<^item> \<open>Request_Steps\<close>: the requests in the atomic steps between the locks they take; uninterrupted they are the
    operations of \<open>Client_Ops\<close>. \<open>Request_Invariant\<close>: what holds of a request between its steps.
  \<^item> \<open>Session\<close>: a program that owns the client and makes its calls one after the other, with the loop of \<open>block\<close>, next
    to the tasks of the connection, as a step function over interleaved events. \<open>Session_Safety\<close>: its invariant.
    \<open>Session_Account\<close>: what becomes of each request, and when a wait never ends. \<open>Session_Delivery\<close>: the packets and
    what a success means, and requests overtaken by the end of a connection. \<open>Session_Origin\<close>: where packets and
    callbacks come from. \<open>Session_Recovery\<close>: from every state in which \<open>block\<close> waits for a lost connection it can recover.
  \<^item> \<open>Subscribers\<close>: programs that connect, subscribe and block, and what they have on file when the server grants what
    they ask for while they wait.
  \<^item> \<open>Examples\<close> (examples/, the tests of client.rs and topic_trie.rs): the example programs as sessions;
    \<open>Handlers\<close>: the lines their handlers log, and the warning of \<open>subscribe\<close>.
  \<^item> \<open>Keep_Alive\<close> (net.rs): the tasks of a connection against a clock: how long the client is silent, how often it pings;
    \<open>Silent_Server\<close>: that no silence of the server is ever noticed.
  \<^item> \<open>Transport\<close> (transport.rs) and \<open>Client_Transport\<close> (\<open>connect\<close> over a transport); \<open>Ws_Stream\<close> (ws_stream.rs);
    \<open>Token_Errors\<close> (token/mod.rs): the texts of errors.

  Correspondence. Definitions carry the names of the code. A mutex-protected access is one step; a
  call that may panic returns \<open>Panic\<close> or \<open>Done\<close>; what the code awaits from outside (the answer of a
  transport, which is a panic, an error or a connection that takes the CONNECT packet or does not; a frame, whether a channel took a packet, the clock) is an argument or an element of an input
  list, and a list that ends is a task still waiting. \<open>spawned\<close>, \<open>outgoing\<close>, \<open>wire\<close> and \<open>woken\<close> are traces of
  what the code hands to the runtime. Strings are lists of their bytes. Identifiers and counters keep their 16 bits; \<open>overflow_checks\<close> tells the two
  build profiles apart.

  Bounds. No definition takes fuel. The search of \<open>get_id\<close> ends by the measure \<open>loop_measure\<close>, the reads of the
  byte stream by \<open>reading\<close>; every other loop consumes a list of inputs. The channels of a connection hold eight
  packets as in the code, so the measure \<open>rest_of\<close> of a connection that is ending is at most 35.

  Grain. \<open>System\<close>, \<open>Block_Loop\<close> and \<open>Connection\<close> take an operation of the client as one step, a wait for room in the
  channel standing before it. \<open>Session\<close> takes every request in its atomic steps, so that the tasks can run between its
  check of the status, its search for an identifier, the packet, the hand-over and the registration of its
  subscriptions; the properties of the sessions hold at this grain, and two of them say what goes wrong
  there. A transport's connect with the server's first frame is one event, since no task of a connection runs then;
  the rest of \<open>connect\<close> is in two parts (\<open>adopt_state\<close> and \<open>finish_connect\<close>) between which the tasks run already.
  \<open>Keep_Alive\<close> adds the passing of time as a step of its own: the others take none, the keep-alive task is resumed
  within a \<open>lag\<close> and the socket takes what there is to write within a \<open>delay\<close>, both parameters.

  Not modelled: the log messages that only announce the step the code is at; the library code behind the codec, the
  runtime, the cache and the transports, which are parameters.
\<close>

section \<open>Properties that span components\<close>

text \<open>
  C6. From a subscription to its callback: once the server has accepted a subscription, a level 1 PUBLISH whose topic
  matches the filter starts the callback with that message and is answered with a PUBACK of the
  same identifier.
\<close>

theorem accepted_subscription_receives:
  assumes "client_inv c" and "is_connected c" and "\<not> overflow_checks K" and "codec_laws K"
    and "topic_filter_new K topic = Some tf" and "ids_left c" and "code \<noteq> Failure"
    and "filter_text_matches topic (pp_topic_name p)" and "pp_qos p = QLevel1 k"
  shows "\<exists>c1 c2. subscribe K True topic q callback c = Done (next_addr c, c1) \<and>
    handle_publish K p (handle_suback (next_id c) [code] c1) = Done (Some (PubackPacket k), c2) \<and>
    (callback, message_from K p) \<in> set (drop (length (spawned c1)) (spawned c2))"
proof -
  let ?x = "subscription_new topic q callback"
  let ?c1 = "add_subscriptions [?x] (next_addr c) (subscribe_sent tf q c)"
  let ?s = "handle_suback (next_id c) [code] ?c1"
  have run: "subscribe K True topic q callback c = Done (next_addr c, ?c1)"
    by (simp add: subscribe_def subscribe_send_release[OF assms(1-3,5,6)])
  have view: "get_token (next_id c) (packet_ids ?c1) = Some (Subscribe (next_addr c))"
    "data_at ?c1 (next_addr c) = Some (SubscribeData [?x] [])" "tok_live ?c1 (next_addr c)"
    by (simp_all add: add_subscriptions_def subscribe_sent_view tok_simps)
  have "?x \<in> set (tm_subs_at (topic_manager ?s) topic)"
    using handle_suback_known(1)[OF view, of "[code]"] assms(7) by (simp add: fold_tm_add)
  then have "?x \<in> set (tm_match_topic (pp_topic_name p) (topic_manager ?s))"
    using assms(8) by (auto simp: tm_match_iff)
  moreover have "spawned ?s = spawned ?c1"
    by (simp add: handle_suback_def split: option.split token.split)
  ultimately show ?thesis
    using run codec_laws_split(2)[OF assms(4)] assms(9)
    by (auto simp: handle_publish_def Let_def image_iff subscription_new_def intro!: bexI[of _ ?x])
qed

text \<open>The client once a publish at level 1 or 2 is in the channel.\<close>

definition publish_sent :: "string \<Rightarrow> quality_of_service \<Rightarrow> bool \<Rightarrow> u8 list \<Rightarrow> 'c mqtt_client \<Rightarrow> 'c mqtt_client" where
  "publish_sent tn q retained payload c =
     send_outgoing True
       (packet_and_token_new_with
         (PublishPacket (publish_packet_new tn (qos_with q (next_id c)) payload retained)) (Publish (next_addr c)))
       ((publish_start q c)\<lparr>packet_ids := bind_id (next_id c) (Publish (next_addr c)) (packet_ids c)\<rparr>)"

lemma publish_runs:
  assumes "client_inv c" and "is_connected c" and "\<not> overflow_checks K"
    and "topic_name_new K topic = Some tn" and "q \<noteq> Level0" and "ids_left c"
  shows "publish K True topic q retained payload c = Done (next_addr c, publish_sent tn q retained payload c)"
proof -
  obtain ch where "outgoing_tx c = Some ch"
    using assms(1,2) by (auto simp: client_inv_def)
  with assms(2,4-6) show ?thesis
    by (simp add: publish_eq Let_def publish_qos_id_release[OF assms(3), where c = c] offer_def publish_sent_def)
qed

lemma publish_sent_view:
  "get_token (next_id c) (packet_ids (publish_sent tn q retained payload c)) = Some (Publish (next_addr c))"
  "tok_live (publish_sent tn q retained payload c) (next_addr c)"
  "tok_err (publish_sent tn q retained payload c) (next_addr c) = None"
  by (simp_all add: publish_sent_def publish_start_def publish_set_qos_def tok_simps)

text \<open>The server's answers to a publish, and the client's replies to them.\<close>

fun publish_answers :: "quality_of_service \<Rightarrow> u16 \<Rightarrow> variable_packet list" where
  "publish_answers Level0 i = []"
| "publish_answers Level1 i = [PubackPacket i]"
| "publish_answers Level2 i = [PubrecPacket i, PubcompPacket i]"

fun publish_replies :: "quality_of_service \<Rightarrow> u16 \<Rightarrow> variable_packet list" where
  "publish_replies Level2 i = [PubrelPacket i]"
| "publish_replies _ i = []"

text \<open>
  C5. From a publish to its token: at levels 1 and 2 the answers of the protocol to the identifier the
  PUBLISH carried (PUBACK; PUBREC, which is answered with PUBREL, then PUBCOMP) complete the caller's
  token without an error and free the identifier.
\<close>

theorem publish_handshake_completes:
  assumes "client_inv c" and "is_connected c" and "\<not> overflow_checks K"
    and "topic_name_new K topic = Some tn" and "q \<noteq> Level0" and "ids_left c"
  shows "\<exists>c1 c2. publish K True topic q retained payload c = Done (next_addr c, c1) \<and>
    read_from_server K (map (\<lambda>p. (Frame p, True)) (publish_answers q (next_id c))) c1 =
      Done (False, publish_replies q (next_id c), c2) \<and>
    fst (tok_poll (next_addr c) w c2) = Ready None \<and>
    get_token (next_id c) (packet_ids c2) = None"
proof -
  let ?c1 = "publish_sent tn q retained payload c"
  have "handle_puback (next_id c) ?c1 = handle_pubcomp (next_id c) ?c1"
    by (simp add: handle_puback_def handle_pubcomp_def)
  moreover have "fst (tok_poll (next_addr c) w (handle_pubcomp (next_id c) ?c1)) = Ready None"
    using publish_sent_view[where c = c and tn = tn and q = q and retained = retained and payload = payload] by (simp add: handle_pubcomp_def tok_simps)
  moreover have "get_token (next_id c) (packet_ids (handle_pubcomp (next_id c) ?c1)) = None"
    using publish_sent_view(1)[where c = c and tn = tn and q = q and retained = retained and payload = payload]
    by (simp add: handle_pubcomp_def) (simp add: get_token_def free_id_def)
  ultimately show ?thesis
    using publish_runs[OF assms] assms(5) by (cases q) (simp_all add: handle_pubrec_def)
qed

subsection \<open>Witnesses\<close>

lemma accepted_subscription_receives_witness:
  "\<exists>c1 c2. subscribe sample_libs True ''a/#'' Level1 5 sample_client = Done (0, c1) \<and>
     handle_publish sample_libs (sample_publish (QLevel1 4)) (handle_suback 2 [MaximumQoS Level1] c1) =
       Done (Some (PubackPacket 4), c2) \<and> (5, message_from sample_libs (sample_publish (QLevel1 4))) \<in> set (spawned c2)"
proof -
  have match: "filter_text_matches ''a/#'' (pp_topic_name (sample_publish (QLevel1 4)))"
    by (simp add: sample_publish_def filter_text_matches_def tokenize_topic_def)
  show ?thesis
    using accepted_subscription_receives[OF sample_client_view(1,2) sample_libs_flags(1) sample_libs_codec
        sample_libs_flags(4) _ _ match, of "MaximumQoS Level1" 4 Level1 5] sample_client_next
    by (auto simp: sample_client_view sample_publish_def dest: in_set_dropD)
qed

lemma publish_handshake_completes_witness:
  "\<exists>c1 c2. publish sample_libs True ''a/b'' Level2 False [7] sample_client = Done (0, c1) \<and>
     read_from_server sample_libs [(Frame (PubrecPacket 2), True), (Frame (PubcompPacket 2), True)] c1 =
       Done (False, [PubrelPacket 2], c2) \<and> fst (tok_poll 0 1 c2) = Ready None"
  using publish_handshake_completes[OF sample_client_view(1,2) sample_libs_flags(1,2), of Level2 False "[7]" 1]
    sample_client_next
  by (auto simp: sample_client_view simp del: read_from_server.simps)

end
